(* ===== verification/Prelude.thy ===== *)
theory Prelude
  imports Main "HOL-Library.Word"
begin

text \<open>
  Shared vocabulary of the development.  C strings are \<^typ>\<open>string\<close>s (lists of
  characters); the terminating NUL byte is not stored, it is what \<open>cur\<close> and
  \<open>at\<close> return past the end, as an index one past the last byte does in C.  The theory
  holds the character constants, the operations of the C library the sources use on
  strings (\<open>strtok\<close>, \<open>strncpy\<close>, \<open>strncat\<close>, \<open>atoi\<close>, \<open>strstr\<close>) and the
  generic list lemmas that several components share.
\<close>

section \<open>Characters and C strings\<close>

abbreviation NUL :: char where "NUL \<equiv> CHR 0x00"
abbreviation TAB :: char where "TAB \<equiv> CHR 0x09"
abbreviation LF :: char where "LF \<equiv> CHR 0x0A"
abbreviation CR :: char where "CR \<equiv> CHR 0x0D"
abbreviation SPACE :: char where "SPACE \<equiv> CHR 0x20"
abbreviation DQUOTE :: char where "DQUOTE \<equiv> CHR 0x22"
abbreviation SQUOTE :: char where "SQUOTE \<equiv> CHR 0x27"
abbreviation BACKSLASH :: char where "BACKSLASH \<equiv> CHR 0x5C"

text \<open>\<open>cur s\<close> is \<open>*s\<close>, \<open>at s i\<close> is \<open>s[i]\<close> for \<open>i\<close> up to the terminator.\<close>

definition cur :: "string \<Rightarrow> char" where
  "cur s = (case s of [] \<Rightarrow> NUL | c # _ \<Rightarrow> c)"

definition at :: "string \<Rightarrow> nat \<Rightarrow> char" where
  "at s i = (if i < length s then s ! i else NUL)"

text \<open>A list that is the content of a C string holds no NUL byte.\<close>

definition cstring :: "string \<Rightarrow> bool" where
  "cstring s \<longleftrightarrow> NUL \<notin> set s"

lemma cur_simps [simp]: "cur [] = NUL" "cur (c # s) = c"
  by (simp_all add: cur_def)

lemma cstring_simps [simp]:
  "cstring []" "cstring (c # s) \<longleftrightarrow> c \<noteq> NUL \<and> cstring s"
  "cstring (s @ t) \<longleftrightarrow> cstring s \<and> cstring t"
  by (auto simp: cstring_def)

lemma at_simps [simp]: "at [] i = NUL" "at (c # s) 0 = c" "at (c # s) (Suc i) = at s i"
  by (simp_all add: at_def)

lemma cur_NUL_iff: "cstring s \<Longrightarrow> cur s = NUL \<longleftrightarrow> s = []"
  by (cases s) auto

lemma cur_not_NUL: "cur s \<noteq> NUL \<Longrightarrow> \<exists>c t. s = c # t"
  by (cases s) auto

section \<open>Results of kernel code\<close>

text \<open>
  \<open>Inl msg\<close> is a call of \<open>panic(msg)\<close> (or, where a message says so, an access outside an
  array); \<open>Inr x\<close> is a normal return.  \<open>seq\<close> runs the rest of a function after a call.
\<close>

type_synonym 'a res = "string + 'a"

fun seq :: "'a res \<Rightarrow> ('a \<Rightarrow> 'b res) \<Rightarrow> 'b res" where
  "seq (Inl e) f = Inl e"
| "seq (Inr x) f = f x"

text \<open>A \<open>for\<close> loop over a list of indices whose body may panic.\<close>

fun for_each :: "('i \<Rightarrow> 's \<Rightarrow> 's res) \<Rightarrow> 'i list \<Rightarrow> 's \<Rightarrow> 's res" where
  "for_each f [] s = Inr s"
| "for_each f (i # is) s = seq (f i s) (for_each f is)"

lemma seq_eq_Inr: "seq r f = Inr y \<longleftrightarrow> (\<exists>x. r = Inr x \<and> f x = Inr y)"
  by (cases r) auto

lemma seq_assoc: "seq (seq r f) g = seq r (\<lambda>x. seq (f x) g)"
  by (cases r) simp_all

lemma for_each_append: "for_each f (is @ js) s = seq (for_each f is s) (for_each f js)"
proof (induction "is" arbitrary: s)
  case (Cons i "is")
  then show ?case by (cases "f i s") simp_all
qed simp

lemma for_each_invariant:
  assumes "I s" and "\<And>i s. i \<in> set is \<Longrightarrow> I s \<Longrightarrow> \<exists>s'. f i s = Inr s' \<and> I s'"
  shows "\<exists>s'. for_each f is s = Inr s' \<and> I s'"
  using assms
proof (induction "is" arbitrary: s)
  case Nil
  then show ?case by simp
next
  case (Cons i "is")
  from Cons.prems obtain s1 where "f i s = Inr s1" and "I s1" by (auto 4 3)
  with Cons show ?case by auto
qed

section \<open>Lists\<close>

lemma take_Suc_update: "n < length xs \<Longrightarrow> take (Suc n) (xs[n := x]) = take n xs @ [x]"
  by (simp add: take_Suc_conv_app_nth)

lemma distinct_bounded_length:
  "distinct xs \<Longrightarrow> set xs \<subseteq> {..<n} \<Longrightarrow> length xs \<le> n"
  using card_mono [of "{..<n}" "set xs"] by (simp add: distinct_card)

lemma distinct_bounded_length_less:
  assumes "distinct xs" and "set xs \<subseteq> {..<n}" and "x < n" and "x \<notin> set xs"
  shows "length xs < n"
  using distinct_bounded_length [of "x # xs" n] assms by simp

end
