(* ===== verification/Shell_Lexer.thy ===== *)
theory Shell_Lexer
  imports Prelude
begin

text \<open>
  The tokenizer of the shell, \<^verbatim>\<open>c-shell/src/lexer.c\<close>, over the tokens of
  \<^verbatim>\<open>c-shell/include/token.h\<close>.  The linked list of tokens is a HOL list; the pointer
  \<open>line + curr_char\<close> is the rest of the input.  The word buffer of 4096 bytes is the list of
  the bytes written so far: a write past its end is the result \<^term>\<open>None\<close>.
\<close>

section \<open>Tokens\<close>

datatype TokenType = OP_PIPE | OP_AMP | OP_SEMI | OP_LT | OP_LTLT | OP_GT | OP_GTGT | WORD

record token =
  content :: string
  ttype :: TokenType

datatype lexer_states = START | IN_WORD | IN_DQUOTE | IN_SQUOTE | AFTER_ESCAPE

definition append_token :: "token list \<Rightarrow> string \<Rightarrow> TokenType \<Rightarrow> token list" where
  "append_token ts c ty = ts @ [\<lparr>content = c, ttype = ty\<rparr>]"

definition BUFFER_SIZE :: nat where
  "BUFFER_SIZE = 4096"

text \<open>\<open>buffer[buf_idx++] = c\<close>, and the room for the terminator \<open>buffer[buf_idx] = 0\<close>.\<close>

definition push :: "char \<Rightarrow> string \<Rightarrow> string option" where
  "push c buf = (if length buf < BUFFER_SIZE then Some (buf @ [c]) else None)"

definition terminate :: "string \<Rightarrow> string option" where
  "terminate buf = (if length buf < BUFFER_SIZE then Some buf else None)"

definition is_blank :: "char \<Rightarrow> bool" where
  "is_blank c \<longleftrightarrow> c = SPACE \<or> c = TAB \<or> c = LF \<or> c = CR"

definition ends_word :: "char \<Rightarrow> bool" where
  "ends_word c \<longleftrightarrow> c = NUL \<or> c = SPACE \<or> c = TAB \<or> c = LF \<or> c = CHR ''|'' \<or> c = CHR ''&'' \<or>
     c = CHR '';'' \<or> c = CHR ''<'' \<or> c = CHR ''>''"

section \<open>The lexer\<close>

text \<open>
  One pass through the body of the \<open>while (1)\<close> loop.  Arguments: the state, the word
  buffer, the tokens appended so far and the rest of the line.  A pass goes on to the next
  one, leaves the loop by a \<open>break\<close> (with the value of \<open>*ok\<close>), or writes past the buffer.
\<close>

datatype lex_outcome =
    Next lexer_states string "token list" string
  | Break lexer_states string "token list" bool
  | Overflow

text \<open>\<open>buffer[buf_idx++] = c\<close>, then go on in state \<open>st\<close> at \<open>s\<close>.\<close>

definition push_next :: "char \<Rightarrow> lexer_states \<Rightarrow> string \<Rightarrow> token list \<Rightarrow> string \<Rightarrow> lex_outcome" where
  "push_next c st buf ts s =
    (case push c buf of None \<Rightarrow> Overflow | Some buf' \<Rightarrow> Next st buf' ts s)"

fun lexer_step :: "lexer_states \<Rightarrow> string \<Rightarrow> token list \<Rightarrow> string \<Rightarrow> lex_outcome" where
  "lexer_step START buf ts s =
    (let c = cur s in
     if c = NUL then Break START buf ts True
     else if is_blank c then Next START buf ts (tl s)
     else if c = CHR ''|'' then Next START buf (append_token ts ''|'' OP_PIPE) (tl s)
     else if c = CHR ''&'' then Next START buf (append_token ts ''&'' OP_AMP) (tl s)
     else if c = CHR '';'' then Next START buf (append_token ts '';'' OP_SEMI) (tl s)
     else if c = CHR ''<'' then
       (if cur (tl s) = CHR ''<''
        then Next START buf (append_token ts ''<<'' OP_LTLT) (tl (tl s))
        else Next START buf (append_token ts ''<'' OP_LT) (tl s))
     else if c = CHR ''>'' then
       (if cur (tl s) = CHR ''>''
        then Next START buf (append_token ts ''>>'' OP_GTGT) (tl (tl s))
        else Next START buf (append_token ts ''>'' OP_GT) (tl s))
     else if c = DQUOTE then Next IN_DQUOTE buf ts (tl s)
     else if c = SQUOTE then Next IN_SQUOTE buf ts (tl s)
     else if c = BACKSLASH then Next AFTER_ESCAPE buf ts (tl s)
     else push_next c IN_WORD buf ts (tl s))"
| "lexer_step IN_WORD buf ts s =
    (let c = cur s in
     if ends_word c then
       (case terminate buf of None \<Rightarrow> Overflow
        | Some w \<Rightarrow> Next START [] (append_token ts w WORD) s)
     else if c = DQUOTE then Next IN_DQUOTE buf ts (tl s)
     else if c = SQUOTE then Next IN_SQUOTE buf ts (tl s)
     else if c = BACKSLASH then Next AFTER_ESCAPE buf ts (tl s)
     else push_next c IN_WORD buf ts (tl s))"
| "lexer_step IN_DQUOTE buf ts s =
    (let c = cur s in
     if c = NUL then Break IN_DQUOTE buf ts False
     else if c = DQUOTE then Next IN_WORD buf ts (tl s)
     else if c = BACKSLASH then
       (let next_char = cur (tl s) in
        if next_char = DQUOTE \<or> next_char = BACKSLASH
        then push_next next_char IN_DQUOTE buf ts (tl (tl s))
        else if next_char = NUL then Break IN_DQUOTE buf ts False
        else (case push BACKSLASH buf of None \<Rightarrow> Overflow
              | Some buf' \<Rightarrow> push_next next_char IN_DQUOTE buf' ts (tl (tl s))))
     else push_next c IN_DQUOTE buf ts (tl s))"
| "lexer_step IN_SQUOTE buf ts s =
    (let c = cur s in
     if c = NUL then Break IN_SQUOTE buf ts False
     else if c = SQUOTE then Next IN_WORD buf ts (tl s)
     else push_next c IN_SQUOTE buf ts (tl s))"
| "lexer_step AFTER_ESCAPE buf ts s =
    (let c = cur s in
     if c = NUL then Break AFTER_ESCAPE buf ts False
     else push_next c IN_WORD buf ts (tl s))"

lemma char_classes [simp]:
  "ends_word NUL" "ends_word SPACE" "\<not> is_blank NUL" "is_blank SPACE"
  "\<not> ends_word DQUOTE" "\<not> ends_word SQUOTE" "\<not> ends_word BACKSLASH"
  "\<not> is_blank DQUOTE" "\<not> is_blank SQUOTE" "\<not> is_blank BACKSLASH"
  by (simp_all add: ends_word_def is_blank_def)

text \<open>Every pass that does not leave the loop has less left to do.\<close>

definition left_to_do :: "lexer_states \<Rightarrow> string \<Rightarrow> nat" where
  "left_to_do st s = 2 * length s + (if st = IN_WORD then 1 else 0)"

lemma lexer_step_decreases:
  "lexer_step st buf ts s = Next st' buf' ts' s' \<Longrightarrow> left_to_do st' s' < left_to_do st s"
  by (cases st; cases s; cases "tl s")
    (auto simp: left_to_do_def push_next_def Let_def split: if_splits option.splits)

text \<open>The loop, and \<open>lexer(line, &ok)\<close>: the loop with the epilogue after it.\<close>

function lexer_loop ::
  "lexer_states \<Rightarrow> string \<Rightarrow> token list \<Rightarrow> string \<Rightarrow>
     (lexer_states \<times> string \<times> token list \<times> bool) option" where
  "lexer_loop st buf ts s =
    (case lexer_step st buf ts s of
       Next st' buf' ts' s' \<Rightarrow> lexer_loop st' buf' ts' s'
     | Break st' buf' ts' ok \<Rightarrow> Some (st', buf', ts', ok)
     | Overflow \<Rightarrow> None)"
  by pat_completeness auto
termination
  by (relation "measure (\<lambda>(st, buf, ts, s). left_to_do st s)") (auto intro: lexer_step_decreases)

declare lexer_loop.simps [simp del]

definition lexer :: "string \<Rightarrow> (token list \<times> bool) option" where
  "lexer line =
    (case lexer_loop START [] [] line of None \<Rightarrow> None
     | Some (st, buf, ts, ok) \<Rightarrow>
         if st = IN_WORD \<and> 0 < length buf then
           (case terminate buf of None \<Rightarrow> None | Some w \<Rightarrow> Some (append_token ts w WORD, ok))
         else if st \<noteq> START \<and> st \<noteq> IN_WORD then Some (ts, False)
         else Some (ts, ok))"

section \<open>Reference notions\<close>

text \<open>
  \<open>closed s\<close>: every quotation mark opened in \<open>s\<close> outside another quotation is closed and
  no escape is left without its character, read off the characters alone.
\<close>

fun closed :: "string \<Rightarrow> bool" and closed_dq :: "string \<Rightarrow> bool" and closed_sq :: "string \<Rightarrow> bool" where
  "closed [] = True"
| "closed (c # s) =
    (if c = BACKSLASH then (case s of [] \<Rightarrow> False | _ # s' \<Rightarrow> closed s')
     else if c = DQUOTE then closed_dq s
     else if c = SQUOTE then closed_sq s
     else closed s)"
| "closed_dq [] = False"
| "closed_dq (c # s) =
    (if c = DQUOTE then closed s
     else if c = BACKSLASH then (case s of [] \<Rightarrow> False | _ # s' \<Rightarrow> closed_dq s')
     else closed_dq s)"
| "closed_sq [] = False"
| "closed_sq (c # s) = (if c = SQUOTE then closed s else closed_sq s)"

text \<open>The text an operator token stands for, and the tokens the lexer can produce.\<close>

fun op_text :: "TokenType \<Rightarrow> string" where
  "op_text OP_PIPE = ''|''"
| "op_text OP_AMP = ''&''"
| "op_text OP_SEMI = '';''"
| "op_text OP_LT = ''<''"
| "op_text OP_LTLT = ''<<''"
| "op_text OP_GT = ''>''"
| "op_text OP_GTGT = ''>>''"
| "op_text WORD = []"

definition token_ok :: "token \<Rightarrow> bool" where
  "token_ok t \<longleftrightarrow>
     (if ttype t = WORD then cstring (content t) \<and> length (content t) < BUFFER_SIZE
      else content t = op_text (ttype t))"

text \<open>A printer: words with every character escaped, tokens separated by a space.\<close>

fun escape :: "string \<Rightarrow> string" where
  "escape [] = []"
| "escape (c # w) = BACKSLASH # c # escape w"

definition print_token :: "token \<Rightarrow> string" where
  "print_token t =
     (if ttype t = WORD then (if content t = [] then [SQUOTE, SQUOTE] else escape (content t))
      else op_text (ttype t))"

fun print_tokens :: "token list \<Rightarrow> string" where
  "print_tokens [] = []"
| "print_tokens (t # ts) = print_token t @ SPACE # print_tokens ts"

section \<open>Lemmas\<close>

text \<open>An invariant of the passes gives a fact of the result of the loop.\<close>

lemma lexer_loop_invariant:
  assumes "lexer_loop st buf ts s = Some r" and "I st buf ts s"
    and "\<And>st buf ts s st' buf' ts' s'. I st buf ts s \<Longrightarrow>
           lexer_step st buf ts s = Next st' buf' ts' s' \<Longrightarrow> I st' buf' ts' s'"
    and "\<And>st buf ts s st' buf' ts' ok. I st buf ts s \<Longrightarrow>
           lexer_step st buf ts s = Break st' buf' ts' ok \<Longrightarrow> Q (st', buf', ts', ok)"
  shows "Q r"
  using assms(1,2)
proof (induction st buf ts s rule: lexer_loop.induct)
  case (1 st buf ts s)
  show ?case
  proof (cases "lexer_step st buf ts s")
    case (Next st' buf' ts' s')
    with 1 assms(3) show ?thesis by (simp add: lexer_loop.simps [of st buf ts s])
  next
    case (Break st' buf' ts' ok)
    with 1 assms(4) show ?thesis by (auto simp: lexer_loop.simps [of st buf ts s])
  next
    case Overflow
    with 1 show ?thesis by (simp add: lexer_loop.simps [of st buf ts s])
  qed
qed

text \<open>The buffer cannot overflow while what is in it and what is left fit together.\<close>

lemma lexer_step_fits:
  "length buf + length s < BUFFER_SIZE \<Longrightarrow> lexer_step st buf ts s \<noteq> Overflow"
  by (cases st; cases s; cases "tl s")
    (auto simp: push_next_def push_def terminate_def Let_def split: option.splits)

lemma lexer_step_keeps_fit:
  "lexer_step st buf ts s = Next st' buf' ts' s' \<Longrightarrow>
     length buf' + length s' \<le> length buf + length s"
  by (cases st; cases s; cases "tl s")
    (auto simp: push_next_def push_def terminate_def Let_def split: if_splits option.splits)

lemma lexer_loop_total:
  "length buf + length s < BUFFER_SIZE \<Longrightarrow> lexer_loop st buf ts s \<noteq> None"
proof (induction st buf ts s rule: lexer_loop.induct)
  case (1 st buf ts s)
  then show ?case
    using lexer_step_fits [OF "1.prems", of st ts]
    by (cases "lexer_step st buf ts s")
      (auto simp: lexer_loop.simps [of st buf ts s] dest: lexer_step_keeps_fit)
qed

text \<open>What each state still has to see closed.\<close>

fun closes :: "lexer_states \<Rightarrow> string \<Rightarrow> bool" where
  "closes START s = closed s"
| "closes IN_WORD s = closed s"
| "closes IN_DQUOTE s = closed_dq s"
| "closes IN_SQUOTE s = closed_sq s"
| "closes AFTER_ESCAPE s = (case s of [] \<Rightarrow> False | _ # t \<Rightarrow> closed t)"

lemma closed_after_op: "cur t = CHR ''<'' \<or> cur t = CHR ''>'' \<Longrightarrow> closed t = closed (tl t)"
  by (cases t) auto

lemma skip_escaped:
  "(case s of [] \<Rightarrow> False | _ # s' \<Rightarrow> closed s') \<longleftrightarrow> s \<noteq> [] \<and> closed (tl s)"
  "(case s of [] \<Rightarrow> False | _ # s' \<Rightarrow> closed_dq s') \<longleftrightarrow> s \<noteq> [] \<and> closed_dq (tl s)"
  by (cases s; simp)+

lemma cstring_tl: "cstring s \<Longrightarrow> cstring (tl s)"
  by (cases s) auto

lemma lexer_step_closes:
  "cstring s \<Longrightarrow> (case lexer_step st buf ts s of
       Next st' buf' ts' s' \<Rightarrow> cstring s' \<and> closes st' s' = closes st s
     | Break st' buf' ts' ok \<Rightarrow> ok = closes st s \<and> (st' = START \<longleftrightarrow> ok) \<and> st' \<noteq> IN_WORD
     | Overflow \<Rightarrow> True)"
  by (cases st; cases s)
    (auto simp: push_next_def Let_def skip_escaped closed_after_op cstring_tl cur_NUL_iff
      split: option.split)

lemma lexer_loop_ok:
  assumes "lexer_loop st buf ts s = Some (st', buf', ts', ok)" and "cstring s"
  shows "ok = closes st s \<and> (st' = START \<longleftrightarrow> ok) \<and> st' \<noteq> IN_WORD"
proof -
  let ?I = "\<lambda>st0 (buf0 :: string) (ts0 :: token list) s0. cstring s0 \<and> closes st0 s0 = closes st s"
  let ?Q = "\<lambda>(st', buf' :: string, ts' :: token list, ok).
    ok = closes st s \<and> (st' = START \<longleftrightarrow> ok) \<and> st' \<noteq> IN_WORD"
  have "?Q (st', buf', ts', ok)"
  proof (rule lexer_loop_invariant [OF assms(1), where I = ?I and Q = ?Q])
    show "?I st buf ts s" using assms(2) by simp
  next
    fix st0 buf0 ts0 s0 st1 buf1 ts1 s1
    assume "?I st0 buf0 ts0 s0" and "lexer_step st0 buf0 ts0 s0 = Next st1 buf1 ts1 s1"
    then show "?I st1 buf1 ts1 s1" using lexer_step_closes [of s0 st0 buf0 ts0] by simp
  next
    fix st0 buf0 ts0 s0 st1 buf1 ts1 ok1
    assume "?I st0 buf0 ts0 s0" and "lexer_step st0 buf0 ts0 s0 = Break st1 buf1 ts1 ok1"
    then show "?Q (st1, buf1, ts1, ok1)" using lexer_step_closes [of s0 st0 buf0 ts0] by simp
  qed
  then show ?thesis by simp
qed

text \<open>Every token the loop appends is an operator with its text or a word that fits the buffer.\<close>

definition lexer_inv :: "string \<Rightarrow> token list \<Rightarrow> string \<Rightarrow> bool" where
  "lexer_inv buf ts s \<longleftrightarrow> cstring buf \<and> cstring s \<and> list_all token_ok ts"

lemma token_ok_append:
  "list_all token_ok (append_token ts c ty) \<longleftrightarrow>
     list_all token_ok ts \<and> token_ok \<lparr>content = c, ttype = ty\<rparr>"
  by (simp add: append_token_def)

lemma lexer_step_inv:
  "lexer_inv buf ts s \<Longrightarrow> (case lexer_step st buf ts s of
       Next st' buf' ts' s' \<Rightarrow> lexer_inv buf' ts' s'
     | Break st' buf' ts' ok \<Rightarrow> cstring buf' \<and> list_all token_ok ts'
     | Overflow \<Rightarrow> True)"
  by (cases st; cases s)
    (auto simp: lexer_inv_def push_next_def push_def terminate_def token_ok_append token_ok_def
      Let_def cstring_tl split: option.split)

lemma lexer_loop_inv:
  assumes "lexer_loop st buf ts s = Some (st', buf', ts', ok)" and "lexer_inv buf ts s"
  shows "cstring buf' \<and> list_all token_ok ts'"
proof -
  let ?Q = "\<lambda>(st' :: lexer_states, buf', ts', ok :: bool). cstring buf' \<and> list_all token_ok ts'"
  have "?Q (st', buf', ts', ok)"
  proof (rule lexer_loop_invariant [OF assms(1), where I = "\<lambda>_. lexer_inv" and Q = ?Q])
    fix st0 buf0 ts0 s0 st1 buf1 ts1 s1
    assume "lexer_inv buf0 ts0 s0" and "lexer_step st0 buf0 ts0 s0 = Next st1 buf1 ts1 s1"
    then show "lexer_inv buf1 ts1 s1" using lexer_step_inv [of buf0 ts0 s0 st0] by simp
  next
    fix st0 buf0 ts0 s0 st1 buf1 ts1 ok1
    assume "lexer_inv buf0 ts0 s0" and "lexer_step st0 buf0 ts0 s0 = Break st1 buf1 ts1 ok1"
    then show "?Q (st1, buf1, ts1, ok1)" using lexer_step_inv [of buf0 ts0 s0 st0] by simp
  qed (rule assms(2))
  then show ?thesis by simp
qed

text \<open>Evaluation of the loop one pass at a time.\<close>

lemma lexer_loop_Next:
  "lexer_step st buf ts s = Next st' buf' ts' s' \<Longrightarrow>
     lexer_loop st buf ts s = lexer_loop st' buf' ts' s'"
  by (simp add: lexer_loop.simps [of st buf ts s])

lemma lexer_loop_START_Nil [simp]: "lexer_loop START buf ts [] = Some (START, buf, ts, True)"
  by (simp add: lexer_loop.simps [of START buf ts "[]"])

text \<open>Reading back an escaped word.\<close>

lemma lexer_loop_escaped:
  "cstring w \<Longrightarrow> length buf + length w < BUFFER_SIZE \<Longrightarrow>
     lexer_loop IN_WORD buf ts (escape w @ s) = lexer_loop IN_WORD (buf @ w) ts s"
proof (induction w arbitrary: buf)
  case Nil
  then show ?case by simp
next
  case (Cons c w)
  have "lexer_loop IN_WORD buf ts (escape (c # w) @ s) =
      lexer_loop AFTER_ESCAPE buf ts (c # escape w @ s)"
    by (rule lexer_loop_Next) simp
  also have "\<dots> = lexer_loop IN_WORD (buf @ [c]) ts (escape w @ s)"
    using Cons.prems by (intro lexer_loop_Next) (simp add: push_next_def push_def)
  also have "\<dots> = lexer_loop IN_WORD (buf @ c # w) ts s"
    using Cons by simp
  finally show ?case .
qed

lemma lexer_loop_word_end:
  "length buf < BUFFER_SIZE \<Longrightarrow> lexer_loop IN_WORD buf ts (SPACE # s) =
     lexer_loop START [] (ts @ [\<lparr>content = buf, ttype = WORD\<rparr>]) s"
proof -
  assume fits: "length buf < BUFFER_SIZE"
  have "lexer_loop IN_WORD buf ts (SPACE # s) =
      lexer_loop START [] (ts @ [\<lparr>content = buf, ttype = WORD\<rparr>]) (SPACE # s)"
    using fits by (intro lexer_loop_Next) (simp add: terminate_def append_token_def)
  also have "\<dots> = lexer_loop START [] (ts @ [\<lparr>content = buf, ttype = WORD\<rparr>]) s"
    by (rule lexer_loop_Next) simp
  finally show ?thesis .
qed

lemma lexer_loop_word:
  assumes "cstring w" and "length w < BUFFER_SIZE"
  shows "lexer_loop START [] ts (print_token \<lparr>content = w, ttype = WORD\<rparr> @ SPACE # s) =
    lexer_loop START [] (ts @ [\<lparr>content = w, ttype = WORD\<rparr>]) s"
proof (cases w)
  case Nil
  have "lexer_loop START [] ts (SQUOTE # SQUOTE # SPACE # s) =
      lexer_loop IN_SQUOTE [] ts (SQUOTE # SPACE # s)"
    by (rule lexer_loop_Next) simp
  also have "\<dots> = lexer_loop IN_WORD [] ts (SPACE # s)"
    by (rule lexer_loop_Next) simp
  finally show ?thesis
    using Nil assms(2) by (simp add: print_token_def lexer_loop_word_end)
next
  case (Cons c v)
  have "lexer_loop START [] ts (escape (c # v) @ SPACE # s) =
      lexer_loop AFTER_ESCAPE [] ts (c # escape v @ SPACE # s)"
    by (rule lexer_loop_Next) simp
  also have "\<dots> = lexer_loop IN_WORD [c] ts (escape v @ SPACE # s)"
    using Cons assms by (intro lexer_loop_Next) (simp add: push_next_def push_def)
  also have "\<dots> = lexer_loop START [] (ts @ [\<lparr>content = c # v, ttype = WORD\<rparr>]) s"
    using Cons assms by (simp add: lexer_loop_escaped lexer_loop_word_end)
  finally show ?thesis
    using Cons by (simp add: print_token_def)
qed

lemma lexer_loop_op:
  "ty \<noteq> WORD \<Longrightarrow> lexer_loop START [] ts (op_text ty @ SPACE # s) =
     lexer_loop START [] (ts @ [\<lparr>content = op_text ty, ttype = ty\<rparr>]) s"
proof -
  assume op: "ty \<noteq> WORD"
  have "lexer_loop START [] ts (op_text ty @ SPACE # s) =
      lexer_loop START [] (ts @ [\<lparr>content = op_text ty, ttype = ty\<rparr>]) (SPACE # s)"
    using op by (intro lexer_loop_Next) (cases ty; simp add: append_token_def is_blank_def Let_def)
  also have "\<dots> = lexer_loop START [] (ts @ [\<lparr>content = op_text ty, ttype = ty\<rparr>]) s"
    by (rule lexer_loop_Next) simp
  finally show ?thesis .
qed

lemma lexer_loop_token:
  "token_ok t \<Longrightarrow>
     lexer_loop START [] ts (print_token t @ SPACE # s) = lexer_loop START [] (ts @ [t]) s"
  by (cases t; cases "ttype t = WORD")
    (auto simp: token_ok_def print_token_def lexer_loop_op dest: lexer_loop_word)

lemma lexer_loop_tokens:
  "list_all token_ok ts' \<Longrightarrow>
     lexer_loop START [] ts (print_tokens ts') = Some (START, [], ts @ ts', True)"
  by (induction ts' arbitrary: ts) (simp_all add: lexer_loop_token)

text \<open>A word longer than the buffer.\<close>

lemma lexer_loop_long:
  "length buf \<le> BUFFER_SIZE \<Longrightarrow> BUFFER_SIZE \<le> length buf + k \<Longrightarrow>
     lexer_loop IN_WORD buf ts (replicate k CHR ''a'') = None"
proof (induction k arbitrary: buf)
  case 0
  then show ?case
    by (simp add: lexer_loop.simps [of IN_WORD buf] terminate_def)
next
  case (Suc k)
  have [simp]: "\<not> ends_word CHR ''a''" by (simp add: ends_word_def)
  show ?case
    using Suc
    by (cases "length buf < BUFFER_SIZE")
      (simp_all add: lexer_loop.simps [of IN_WORD buf] push_next_def push_def Let_def)
qed

section \<open>Properties\<close>

text \<open>
  C25: on every line of fewer than 4096 bytes the lexer returns (it terminates and stays
  inside its word buffer); it reports success exactly when every quotation and escape of the
  line is closed, and every token it returns is an operator with its own text or a word.
\<close>

theorem lexer_returns:
  assumes "cstring line" and "length line < BUFFER_SIZE"
  shows "\<exists>ts. lexer line = Some (ts, closed line) \<and> list_all token_ok ts"
proof -
  from assms(2) obtain st buf ts ok where loop: "lexer_loop START [] [] line = Some (st, buf, ts, ok)"
    using lexer_loop_total [of "[]" line START "[]"] by auto
  moreover have "lexer_inv [] [] line" using assms(1) by (simp add: lexer_inv_def)
  ultimately show ?thesis
    using lexer_loop_ok [OF loop assms(1)] lexer_loop_inv [OF loop]
    by (auto simp: lexer_def)
qed

theorem lexer_returns_witness:
  "cstring ''ls | wc'' \<and> length ''ls | wc'' < BUFFER_SIZE \<and>
   (\<exists>ts. lexer ''ls | wc'' = Some (ts, closed ''ls | wc'') \<and> list_all token_ok ts)"
  using lexer_returns [of "''ls | wc''"] by (simp add: BUFFER_SIZE_def)

text \<open>
  C15: printing a list of tokens, every character of a word escaped, and lexing the text
  gives the tokens back.
\<close>

theorem lexer_print_tokens:
  assumes "list_all token_ok ts"
  shows "lexer (print_tokens ts) = Some (ts, True)"
  using lexer_loop_tokens [OF assms, of "[]"] by (simp add: lexer_def)

theorem lexer_print_tokens_witness:
  "lexer (print_tokens [\<lparr>content = ''a b'', ttype = WORD\<rparr>, \<lparr>content = ''>>'', ttype = OP_GTGT\<rparr>,
      \<lparr>content = [], ttype = WORD\<rparr>]) =
    Some ([\<lparr>content = ''a b'', ttype = WORD\<rparr>, \<lparr>content = ''>>'', ttype = OP_GTGT\<rparr>,
      \<lparr>content = [], ttype = WORD\<rparr>], True)"
  by (rule lexer_print_tokens) (simp add: token_ok_def BUFFER_SIZE_def)

text \<open>
  C38: a word of 4096 bytes or more is written past the end of the word buffer, which the
  loop never checks (the shell hands it lines of any length).
\<close>

theorem lexer_overflows:
  assumes "BUFFER_SIZE \<le> n"
  shows "lexer (replicate n CHR ''a'') = None"
proof -
  from assms obtain k where n: "n = Suc k" by (cases n) (auto simp: BUFFER_SIZE_def)
  have "lexer_loop START [] [] (replicate n CHR ''a'') =
      lexer_loop IN_WORD [CHR ''a''] [] (replicate k CHR ''a'')"
    by (rule lexer_loop_Next) (simp add: n push_next_def push_def is_blank_def BUFFER_SIZE_def Let_def)
  also have "\<dots> = None"
    using assms n by (intro lexer_loop_long) (simp_all add: BUFFER_SIZE_def)
  finally show ?thesis by (simp add: lexer_def)
qed

theorem lexer_overflows_witness: "BUFFER_SIZE \<le> 4096 \<and> lexer (replicate 4096 CHR ''a'') = None"
  using lexer_overflows [of 4096] by (simp add: BUFFER_SIZE_def)

end
