(* ===== verification/Shell_Parser.thy ===== *)
theory Shell_Parser
  imports Shell_Lexer
begin

text \<open>
  The grammar check of a command line, \<^verbatim>\<open>c-shell/src/parser.c\<close>: a finite automaton over
  the token types.  An inductive grammar gives the language it is meant to accept.
\<close>

section \<open>The automaton\<close>

datatype parser_states = q_start | q_arg | q_cmd | q_tgt | q_bg | q_error

fun parser_next :: "parser_states \<Rightarrow> TokenType \<Rightarrow> parser_states" where
  "parser_next q_start ty = (if ty = WORD then q_arg else q_error)"
| "parser_next q_arg ty =
    (if ty = WORD then q_arg
     else if ty = OP_LT \<or> ty = OP_GT \<or> ty = OP_GTGT \<or> ty = OP_LTLT then q_tgt
     else if ty = OP_PIPE \<or> ty = OP_SEMI then q_cmd
     else if ty = OP_AMP then q_bg
     else q_error)"
| "parser_next q_cmd ty = (if ty = WORD then q_arg else q_error)"
| "parser_next q_tgt ty = (if ty = WORD then q_arg else q_error)"
| "parser_next q_bg ty = (if ty = WORD then q_arg else q_error)"
| "parser_next q_error ty = q_error"

text \<open>The loop leaves by a \<open>break\<close> as soon as the state is \<open>q_error\<close>.\<close>

fun parser_loop :: "parser_states \<Rightarrow> token list \<Rightarrow> parser_states" where
  "parser_loop st [] = st"
| "parser_loop st (t # ts) =
    (let st' = parser_next st (ttype t) in if st' = q_error then q_error else parser_loop st' ts)"

definition parser :: "token list \<Rightarrow> int" where
  "parser ts =
    (let st = parser_loop q_start ts in
     if st = q_error \<or> st = q_cmd \<or> st = q_tgt then 1 else 0)"

section \<open>The grammar\<close>

text \<open>What may follow a word of a command, and a whole line.\<close>

inductive rest_ok :: "TokenType list \<Rightarrow> bool" where
  end_of_line: "rest_ok []"
| argument: "rest_ok ts \<Longrightarrow> rest_ok (WORD # ts)"
| redirect: "r \<in> {OP_LT, OP_LTLT, OP_GT, OP_GTGT} \<Longrightarrow> rest_ok ts \<Longrightarrow> rest_ok (r # WORD # ts)"
| next_command: "c \<in> {OP_PIPE, OP_SEMI, OP_AMP} \<Longrightarrow> rest_ok ts \<Longrightarrow> rest_ok (c # WORD # ts)"
| background: "rest_ok [OP_AMP]"

inductive line_ok :: "TokenType list \<Rightarrow> bool" where
  empty: "line_ok []"
| command: "rest_ok ts \<Longrightarrow> line_ok (WORD # ts)"

inductive_simps rest_ok_simps [simp]:
  "rest_ok []" "rest_ok [ty]" "rest_ok (WORD # ts)" "rest_ok (OP_PIPE # ts)" "rest_ok (OP_SEMI # ts)"
  "rest_ok (OP_AMP # ts)" "rest_ok (OP_LT # ts)" "rest_ok (OP_LTLT # ts)" "rest_ok (OP_GT # ts)"
  "rest_ok (OP_GTGT # ts)"

inductive_simps line_ok_simps [simp]: "line_ok []" "line_ok (ty # ts)"

section \<open>Lemmas\<close>

definition accepting :: "parser_states \<Rightarrow> bool" where
  "accepting st \<longleftrightarrow> st \<noteq> q_error \<and> st \<noteq> q_cmd \<and> st \<noteq> q_tgt"

lemma accepting_simps [simp]:
  "accepting q_start" "accepting q_arg" "accepting q_bg"
  "\<not> accepting q_cmd" "\<not> accepting q_tgt" "\<not> accepting q_error"
  by (simp_all add: accepting_def)

lemma parser_zero: "parser ts = 0 \<longleftrightarrow> accepting (parser_loop q_start ts)"
  by (simp add: parser_def accepting_def Let_def)

lemma parser_loop_arg: "accepting (parser_loop q_arg ts) \<longleftrightarrow> rest_ok (map ttype ts)"
proof (induction ts rule: length_induct)
  case (1 ts)
  show ?case
  proof (cases ts)
    case Nil
    then show ?thesis by simp
  next
    case (Cons t us)
    with 1 have us: "accepting (parser_loop q_arg us) \<longleftrightarrow> rest_ok (map ttype us)" by simp
    have vs: "accepting (parser_loop q_arg vs) \<longleftrightarrow> rest_ok (map ttype vs)" if "us = u # vs" for u vs
      using 1 Cons that by simp
    show ?thesis
      using Cons us vs
      by (cases us; cases "ttype t") (auto simp: Let_def)
  qed
qed

section \<open>Properties\<close>

text \<open>
  C14: the parser accepts (returns 0) exactly the lines of the grammar: commands of at least
  one word, joined by pipes, semicolons and ampersands, every redirection followed by a word,
  and an ampersand allowed at the end of the line.
\<close>

theorem parser_accepts_grammar: "parser ts = 0 \<longleftrightarrow> line_ok (map ttype ts)"
proof (cases ts)
  case Nil
  then show ?thesis by (simp add: parser_zero)
next
  case (Cons t us)
  then show ?thesis
    by (cases "ttype t = WORD") (auto simp: parser_zero parser_loop_arg Let_def)
qed

end
