(* ===== verification/Kernel_Spinlock.thy ===== *)
theory Kernel_Spinlock
  imports Prelude
begin

text \<open>
  Spin locks and the nesting of interrupt disabling, \<^verbatim>\<open>xv6/kernel/spinlock.c\<close>, for the one
  hart the build runs (\<^verbatim>\<open>CPUS := 1\<close> in \<^verbatim>\<open>xv6/Makefile\<close>).  A lock is named by what it
  protects; the set \<open>locked\<close> holds the locks whose \<open>locked\<close> field is 1 and whose \<open>cpu\<close>
  field is this hart.  On one hart the \<open>while\<close> loop of \<open>acquire\<close> never spins: a lock that
  is not free is held by this hart, which \<open>holding\<close> has reported before.
\<close>

section \<open>State\<close>

datatype lock =
    PLock nat
  | MlfqLock
  | PidLock
  | WaitLock
  | TicksLock
  | KmemLock
  | FtableLock
  | PipeLock "64 word"
  | ConsLock
  | LogLock
  | BcacheLock
  | SleepLock nat
  | TxLock
  | ItableLock
  | VdiskLock

record hart =
  noff :: int
  intena :: bool
  sie :: bool
  locked :: "lock set"

section \<open>Operations\<close>

definition push_off :: "hart \<Rightarrow> hart" where
  "push_off c =
    (let old = sie c; c = c\<lparr>sie := False\<rparr>;
         c = (if noff c = 0 then c\<lparr>intena := old\<rparr> else c)
     in c\<lparr>noff := noff c + 1\<rparr>)"

definition pop_off :: "hart \<Rightarrow> hart res" where
  "pop_off c =
    (if sie c then Inl ''pop_off - interruptible''
     else if noff c < 1 then Inl ''pop_off''
     else (let c = c\<lparr>noff := noff c - 1\<rparr>
           in Inr (if noff c = 0 \<and> intena c then c\<lparr>sie := True\<rparr> else c)))"

definition holding :: "lock \<Rightarrow> hart \<Rightarrow> bool" where
  "holding lk c \<longleftrightarrow> lk \<in> locked c"

definition acquire :: "lock \<Rightarrow> hart \<Rightarrow> hart res" where
  "acquire lk c =
    (let c = push_off c in
     if holding lk c then Inl ''acquire'' else Inr (c\<lparr>locked := insert lk (locked c)\<rparr>))"

definition release :: "lock \<Rightarrow> hart \<Rightarrow> hart res" where
  "release lk c =
    (if \<not> holding lk c then Inl ''release'' else pop_off (c\<lparr>locked := locked c - {lk}\<rparr>))"

section \<open>The discipline\<close>

text \<open>
  \<open>hart_ok L c\<close>: exactly the locks \<open>L\<close> are held, \<open>noff\<close> counts them, and interrupts are
  off while any is held.
\<close>

definition hart_ok :: "lock set \<Rightarrow> hart \<Rightarrow> bool" where
  "hart_ok L c \<longleftrightarrow> locked c = L \<and> finite L \<and> noff c = int (card L) \<and> (L \<noteq> {} \<longrightarrow> \<not> sie c)"

lemma acquire_ok:
  assumes "hart_ok L c" and "lk \<notin> L"
  shows "\<exists>c'. acquire lk c = Inr c' \<and> hart_ok (insert lk L) c' \<and>
    intena c' = (if L = {} then sie c else intena c)"
  using assms by (auto simp: acquire_def push_off_def holding_def hart_ok_def Let_def)

lemma release_ok:
  assumes "hart_ok L c" and "lk \<in> L"
  shows "\<exists>c'. release lk c = Inr c' \<and> hart_ok (L - {lk}) c' \<and> intena c' = intena c \<and>
    (sie c' \<longleftrightarrow> L = {lk} \<and> intena c)"
proof -
  have pos: "0 < card L"
    using assms by (auto simp: hart_ok_def card_gt_0_iff)
  then have card: "int (card (L - {lk})) = int (card L) - 1"
    using assms(2) by (simp add: card_Diff_singleton of_nat_diff)
  have one: "card L = 1 \<longleftrightarrow> L = {lk}"
    using assms by (auto simp: hart_ok_def card_1_singleton_iff)
  show ?thesis
    using assms pos card one
    by (auto simp: release_def pop_off_def holding_def hart_ok_def Let_def)
qed

lemma holding_iff [simp]: "hart_ok L c \<Longrightarrow> holding lk c \<longleftrightarrow> lk \<in> L"
  by (simp add: holding_def hart_ok_def)

section \<open>Properties\<close>

text \<open>
  C36: acquiring a free lock and releasing it again neither panics nor changes what the hart
  holds: the set of held locks, the nesting depth and whether interrupts are enabled are as
  before, however many locks were already held.
\<close>

theorem acquire_release_restores:
  assumes "hart_ok L c" and "lk \<notin> L"
  shows "\<exists>c'. seq (acquire lk c) (release lk) = Inr c' \<and>
    locked c' = locked c \<and> noff c' = noff c \<and> sie c' = sie c"
proof -
  obtain c1 where c1: "acquire lk c = Inr c1" "hart_ok (insert lk L) c1"
      "intena c1 = (if L = {} then sie c else intena c)"
    using acquire_ok [OF assms] by blast
  moreover obtain c2 where "release lk c1 = Inr c2" "hart_ok (insert lk L - {lk}) c2"
      "sie c2 \<longleftrightarrow> insert lk L = {lk} \<and> intena c1"
    using release_ok [OF c1(2), of lk] by blast
  moreover have "insert lk L - {lk} = L" "insert lk L = {lk} \<longleftrightarrow> L = {}"
    using assms(2) by auto
  ultimately show ?thesis
    using assms(1) by (auto simp: hart_ok_def)
qed

theorem acquire_release_restores_witness:
  "\<exists>c'. seq (acquire WaitLock \<lparr>noff = 0, intena = False, sie = True, locked = {}\<rparr>)
      (release WaitLock) = Inr c' \<and>
    locked c' = {} \<and> noff c' = 0 \<and> sie c'"
  using acquire_release_restores [of "{}" "\<lparr>noff = 0, intena = False, sie = True, locked = {}\<rparr>"
      WaitLock]
  by (simp add: hart_ok_def)

end
