(* ===== verification/Kernel_State.thy ===== *)
theory Kernel_State
  imports Kernel_Spinlock
begin

text \<open>
  The state of the process subsystem: \<open>struct proc\<close> and \<open>enum procstate\<close> of
  \<^verbatim>\<open>xv6/kernel/proc.h\<close> and the globals of \<^verbatim>\<open>xv6/kernel/proc.c\<close>.  A pointer to a
  process is its index in the table.  The part of the kernel the process code reaches through
  calls only (memory, files, inodes) is the field \<open>world\<close> of a type of its own.
\<close>

section \<open>Processes\<close>

datatype procstate = UNUSED | USED | SLEEPING | RUNNABLE | RUNNING | ZOMBIE

text \<open>Sleep channels: the address slept on.\<close>

datatype channel =
    NoChan
  | TicksChan
  | ProcChan nat
  | LogChan
  | PipeRead "64 word"
  | PipeWrite "64 word"
  | ConsChan
  | SleepChan nat
  | TxChan
  | DiskChan nat
  | FreeChan

record context_regs =
  ra :: "64 word"
  sp :: "64 word"
  saved :: "64 word list"

record proc =
  state :: procstate
  chan :: channel
  killed_flag :: int
  xstate :: int
  pid :: int
  creation_time :: "64 word"
  ctime :: "64 word"
  rtime :: "64 word"
  etime :: "64 word"
  iotime :: "64 word"
  first_run_time :: "64 word"
  parent :: "nat option"
  kstack :: "64 word"
  sz :: "64 word"
  pagetable :: "64 word"
  trapframe :: "64 word"
  pcontext :: context_regs
  ofile :: "nat option list"
  cwd :: "nat option"
  pname :: string
  queue :: int
  pticks :: int

definition NPROC :: nat where "NPROC = 64"
definition NOFILE :: nat where "NOFILE = 16"

text \<open>What the process code prints.\<close>

datatype kmsg =
    Metrics int int int int
  | Mlfq_plot "32 word" int int
  | Proc_line int string string int int

record 'w kernel =
  procs :: "proc list"
  cpu :: hart
  cproc :: "nat option"
  ticks :: "32 word"
  qcount :: "nat list"
  mlfq :: "nat list list"
  initproc :: "nat option"
  nextpid :: int
  kout :: "kmsg list"
  world :: 'w

section \<open>Access\<close>

definition upd_proc :: "nat \<Rightarrow> (proc \<Rightarrow> proc) \<Rightarrow> 'w kernel \<Rightarrow> 'w kernel" where
  "upd_proc p f s = s\<lparr>procs := (procs s)[p := f (procs s ! p)]\<rparr>"

text \<open>\<open>acquire\<close> and \<open>release\<close> on the kernel state, and a critical section.\<close>

definition acq :: "lock \<Rightarrow> 'w kernel \<Rightarrow> 'w kernel res" where
  "acq lk s = seq (acquire lk (cpu s)) (\<lambda>c. Inr (s\<lparr>cpu := c\<rparr>))"

definition rel :: "lock \<Rightarrow> 'w kernel \<Rightarrow> 'w kernel res" where
  "rel lk s = seq (release lk (cpu s)) (\<lambda>c. Inr (s\<lparr>cpu := c\<rparr>))"

definition with_lock :: "lock \<Rightarrow> ('w kernel \<Rightarrow> 'w kernel res) \<Rightarrow> 'w kernel \<Rightarrow> 'w kernel res" where
  "with_lock lk f s = seq (acq lk s) (\<lambda>s. seq (f s) (rel lk))"

section \<open>Lemmas\<close>

definition quiet :: "lock set \<Rightarrow> 'w kernel \<Rightarrow> bool" where
  "quiet L s \<longleftrightarrow> hart_ok L (cpu s)"

lemma upd_proc_simps [simp]:
  "length (procs (upd_proc p f s)) = length (procs s)"
  "cpu (upd_proc p f s) = cpu s" "cproc (upd_proc p f s) = cproc s"
  "ticks (upd_proc p f s) = ticks s" "qcount (upd_proc p f s) = qcount s"
  "mlfq (upd_proc p f s) = mlfq s" "initproc (upd_proc p f s) = initproc s"
  "nextpid (upd_proc p f s) = nextpid s" "kout (upd_proc p f s) = kout s"
  "world (upd_proc p f s) = world s"
  by (simp_all add: upd_proc_def)

lemma procs_upd_proc: "procs (upd_proc p f s) = (procs s)[p := f (procs s ! p)]"
  by (simp add: upd_proc_def)

lemma nth_upd_proc:
  "i < length (procs s) \<Longrightarrow>
     procs (upd_proc p f s) ! i = (if i = p then f (procs s ! p) else procs s ! i)"
  by (auto simp: procs_upd_proc nth_list_update)

lemma upd_proc_cpu [simp]: "upd_proc p f (s\<lparr>cpu := c\<rparr>) = (upd_proc p f s)\<lparr>cpu := c\<rparr>"
  by (simp add: upd_proc_def)

text \<open>The state of the hart is kept outermost in updates.\<close>

lemma cpu_last [simp]:
  "s\<lparr>cpu := c, procs := x_procs\<rparr> = s\<lparr>procs := x_procs, cpu := c\<rparr>"
  "s\<lparr>cpu := c, cproc := x_cproc\<rparr> = s\<lparr>cproc := x_cproc, cpu := c\<rparr>"
  "s\<lparr>cpu := c, ticks := x_ticks\<rparr> = s\<lparr>ticks := x_ticks, cpu := c\<rparr>"
  "s\<lparr>cpu := c, qcount := x_qcount\<rparr> = s\<lparr>qcount := x_qcount, cpu := c\<rparr>"
  "s\<lparr>cpu := c, mlfq := x_mlfq\<rparr> = s\<lparr>mlfq := x_mlfq, cpu := c\<rparr>"
  "s\<lparr>cpu := c, initproc := x_initproc\<rparr> = s\<lparr>initproc := x_initproc, cpu := c\<rparr>"
  "s\<lparr>cpu := c, nextpid := x_nextpid\<rparr> = s\<lparr>nextpid := x_nextpid, cpu := c\<rparr>"
  "s\<lparr>cpu := c, kout := x_kout\<rparr> = s\<lparr>kout := x_kout, cpu := c\<rparr>"
  "s\<lparr>cpu := c, world := x_world\<rparr> = s\<lparr>world := x_world, cpu := c\<rparr>"
  by simp_all

lemma quiet_cong [simp]:
  "quiet L (upd_proc p f s) = quiet L s" "quiet L (s\<lparr>cproc := q\<rparr>) = quiet L s"
  "quiet L (s\<lparr>kout := k\<rparr>) = quiet L s" "quiet L (s\<lparr>ticks := t\<rparr>) = quiet L s"
  "quiet L (s\<lparr>world := w\<rparr>) = quiet L s" "quiet L (s\<lparr>nextpid := n\<rparr>) = quiet L s"
  "quiet L (s\<lparr>procs := ps\<rparr>) = quiet L s" "quiet L (s\<lparr>qcount := qc\<rparr>) = quiet L s"
  "quiet L (s\<lparr>mlfq := m\<rparr>) = quiet L s" "quiet L (s\<lparr>initproc := i\<rparr>) = quiet L s"
  "quiet L (s\<lparr>cpu := c\<rparr>) = hart_ok L c"
  by (simp_all add: quiet_def)

lemma acq_ok:
  assumes "quiet L s" and "lk \<notin> L"
  shows "\<exists>c. acq lk s = Inr (s\<lparr>cpu := c\<rparr>) \<and> hart_ok (insert lk L) c"
  using acquire_ok [of L "cpu s" lk] assms by (auto simp: acq_def quiet_def)

lemma rel_ok:
  assumes "quiet L s" and "lk \<in> L"
  shows "\<exists>c. rel lk s = Inr (s\<lparr>cpu := c\<rparr>) \<and> hart_ok (L - {lk}) c"
  using release_ok [of L "cpu s" lk] assms by (auto simp: rel_def quiet_def)

text \<open>
  A critical section whose body does to the rest of the state what \<open>g\<close> does, whatever the
  state of the hart, does the same and gives the lock back.
\<close>

lemma with_lock_eq:
  assumes "quiet L s" and "lk \<notin> L"
    and "\<And>c. hart_ok (insert lk L) c \<Longrightarrow>
      \<exists>c'. f (s\<lparr>cpu := c\<rparr>) = Inr (t\<lparr>cpu := c'\<rparr>) \<and> hart_ok (insert lk L) c'"
  shows "\<exists>c. with_lock lk f s = Inr (t\<lparr>cpu := c\<rparr>) \<and> hart_ok L c"
proof -
  obtain c1 where c1: "acq lk s = Inr (s\<lparr>cpu := c1\<rparr>)" "hart_ok (insert lk L) c1"
    using acq_ok [OF assms(1,2)] by blast
  moreover obtain c2 where c2: "f (s\<lparr>cpu := c1\<rparr>) = Inr (t\<lparr>cpu := c2\<rparr>)" "hart_ok (insert lk L) c2"
    using assms(3) [OF c1(2)] by blast
  moreover obtain c3 where "rel lk (t\<lparr>cpu := c2\<rparr>) = Inr (t\<lparr>cpu := c2, cpu := c3\<rparr>)"
      "hart_ok (insert lk L - {lk}) c3"
    using rel_ok [of "insert lk L" "t\<lparr>cpu := c2\<rparr>" lk] c2(2) by auto
  moreover have "insert lk L - {lk} = L" using assms(2) by auto
  ultimately show ?thesis by (auto simp: with_lock_def)
qed

text \<open>A loop over the table that locks each process, changes it alone and prints about it.\<close>

lemma for_each_proc_out:
  fixes body :: "nat \<Rightarrow> 'w kernel \<Rightarrow> 'w kernel res"
  assumes "quiet L s" and "\<And>p. PLock p \<notin> L" and "n \<le> length (procs s)"
    and "\<And>p t. p < length (procs t) \<Longrightarrow>
      body p t = Inr ((upd_proc p f t)\<lparr>kout := kout t @ g (ticks t) (f (procs t ! p))\<rparr>)"
  shows "\<exists>c. for_each (\<lambda>p. with_lock (PLock p) (body p)) [0..<n] s =
      Inr (s\<lparr>procs := map f (take n (procs s)) @ drop n (procs s),
             kout := kout s @ concat (map (\<lambda>x. g (ticks s) (f x)) (take n (procs s))), cpu := c\<rparr>) \<and>
    hart_ok L c"
  using assms(3)
proof (induction n)
  case 0
  have "s = s\<lparr>cpu := cpu s\<rparr>" by simp
  then show ?case using assms(1) by (auto simp: quiet_def intro!: exI [of _ "cpu s"])
next
  case (Suc n)
  let ?s1 = "\<lambda>n c. s\<lparr>procs := map f (take n (procs s)) @ drop n (procs s),
      kout := kout s @ concat (map (\<lambda>x. g (ticks s) (f x)) (take n (procs s))), cpu := c\<rparr>"
  obtain c where c: "for_each (\<lambda>p. with_lock (PLock p) (body p)) [0..<n] s = Inr (?s1 n c)"
      "hart_ok L c"
    using Suc by auto
  have "body n (?s1 n c) = Inr (?s1 (Suc n) c)" for c
    using Suc.prems assms(4) [of n "?s1 n c"]
    by (simp add: upd_proc_def nth_append list_update_append take_Suc_conv_app_nth
        Cons_nth_drop_Suc [symmetric])
  then have "\<exists>c'. with_lock (PLock n) (body n) (?s1 n c) = Inr ((?s1 (Suc n) c)\<lparr>cpu := c'\<rparr>) \<and> hart_ok L c'"
    using c(2) assms(2) by (intro with_lock_eq) auto
  with c show ?case by (auto simp: for_each_append)
qed

lemma for_each_proc:
  assumes "quiet L s" and "\<And>p. PLock p \<notin> L" and "n \<le> length (procs s)"
  shows "\<exists>c. for_each (\<lambda>p. with_lock (PLock p) (\<lambda>s. Inr (upd_proc p f s))) [0..<n] s =
      Inr (s\<lparr>procs := map f (take n (procs s)) @ drop n (procs s), cpu := c\<rparr>) \<and> hart_ok L c"
proof -
  have nil: "concat (map (\<lambda>x. []) xs) = ([] :: kmsg list)" for xs :: "proc list"
    by (induction xs) simp_all
  show ?thesis
    using for_each_proc_out [OF assms, where f = f and g = "\<lambda>_ _. []" and
        body = "\<lambda>p s. Inr (upd_proc p f s)"] by (simp add: upd_proc_def nil)
qed

end
