(* ===== verification/Kernel_Mlfq.thy ===== *)
theory Kernel_Mlfq
  imports Kernel_State
begin

text \<open>
  The ready queues of the multi-level feedback queue scheduler: \<open>enqueue\<close>, \<open>dequeue\<close> and
  \<open>boost_priority\<close> of \<^verbatim>\<open>xv6/kernel/proc.c\<close> (built with \<^verbatim>\<open>-DMLFQ\<close>).  Each of the four
  levels is an array of \<open>NPROC\<close> pointers with a count.  The locale \<open>fifo\<close> is the interface
  the scheduler relies on; it is interpreted on the arrays.
\<close>

section \<open>Operations\<close>

definition enqueue_body :: "nat \<Rightarrow> nat \<Rightarrow> 'w kernel \<Rightarrow> 'w kernel" where
  "enqueue_body q p s =
    (let n = qcount s ! q;
         s = s\<lparr>mlfq := (mlfq s)[q := (mlfq s ! q)[n := p]]\<rparr>
     in s\<lparr>qcount := (qcount s)[q := n + 1]\<rparr>)"

definition enqueue :: "int \<Rightarrow> nat \<Rightarrow> 'w kernel \<Rightarrow> 'w kernel res" where
  "enqueue q p s =
    (if q < 0 \<or> q > 3 then Inl ''enqueue: invalid queue number''
     else with_lock MlfqLock
       (\<lambda>s. if qcount s ! nat q \<ge> NPROC then Inl ''enqueue: queue is full''
            else Inr (enqueue_body (nat q) p s)) s)"

text \<open>\<open>for (i; i < n - 1; i++) a[i] = a[i + 1]\<close>\<close>

function shift_down :: "nat \<Rightarrow> nat \<Rightarrow> 'a list \<Rightarrow> 'a list" where
  "shift_down i n a = (if i < n - 1 then shift_down (i + 1) n (a[i := a ! (i + 1)]) else a)"
  by pat_completeness auto
termination
  by (relation "measure (\<lambda>(i, n, a). n - i)") auto

declare shift_down.simps [simp del]

definition dequeue_body :: "nat \<Rightarrow> 'w kernel \<Rightarrow> 'w kernel" where
  "dequeue_body q s =
    (let n = qcount s ! q;
         s = s\<lparr>mlfq := (mlfq s)[q := shift_down 0 n (mlfq s ! q)]\<rparr>
     in s\<lparr>qcount := (qcount s)[q := n - 1]\<rparr>)"

definition dequeue :: "int \<Rightarrow> 'w kernel \<Rightarrow> (nat option \<times> 'w kernel) res" where
  "dequeue q s =
    (if q < 0 \<or> q > 3 then Inl ''dequeue: invalid queue number''
     else seq (acq MlfqLock s) (\<lambda>s.
       if qcount s ! nat q = 0 then seq (rel MlfqLock s) (\<lambda>s. Inr (None, s))
       else (let p = mlfq s ! nat q ! 0
             in seq (rel MlfqLock (dequeue_body (nat q) s)) (\<lambda>s. Inr (Some p, s)))))"

text \<open>
  The second half of \<open>boost_priority\<close>: the four queues are copied to \<open>temp\<close>, an array of
  \<open>NPROC\<close> pointers, emptied, and \<open>temp\<close> is appended to queue 0.
\<close>

definition level :: "nat \<Rightarrow> 'w kernel \<Rightarrow> nat list" where
  "level q s = take (qcount s ! q) (mlfq s ! q)"

definition boost_queues :: "'w kernel \<Rightarrow> 'w kernel res" where
  "boost_queues s =
    (let temp = level 0 s @ level 1 s @ level 2 s @ level 3 s;
         s = s\<lparr>qcount := (qcount s)[0 := 0, 1 := 0, 2 := 0, 3 := 0]\<rparr>
     in if length temp > NPROC then Inl ''boost_priority: write past temp''
        else Inr (fold (enqueue_body 0) temp s))"

definition reset_priority :: "proc \<Rightarrow> proc" where
  "reset_priority x = x\<lparr>queue := 0, pticks := 0\<rparr>"

definition boost_priority :: "'w kernel \<Rightarrow> 'w kernel res" where
  "boost_priority s =
    seq (for_each (\<lambda>p. with_lock (PLock p) (\<lambda>s. Inr (upd_proc p reset_priority s))) [0..<NPROC] s)
      (with_lock MlfqLock boost_queues)"

section \<open>The queue interface\<close>

text \<open>
  A bounded first-in first-out queue: \<open>contents\<close> is what it holds, oldest first.
\<close>

locale fifo =
  fixes enq :: "'a \<Rightarrow> 'q \<Rightarrow> 'q"
    and first :: "'q \<Rightarrow> 'a"
    and deq :: "'q \<Rightarrow> 'q"
    and contents :: "'q \<Rightarrow> 'a list"
    and invar :: "'q \<Rightarrow> bool"
    and cap :: nat
  assumes contents_enq: "invar q \<Longrightarrow> length (contents q) < cap \<Longrightarrow> contents (enq x q) = contents q @ [x]"
    and invar_enq: "invar q \<Longrightarrow> length (contents q) < cap \<Longrightarrow> invar (enq x q)"
    and first_contents: "invar q \<Longrightarrow> contents q \<noteq> [] \<Longrightarrow> first q = hd (contents q)"
    and contents_deq: "invar q \<Longrightarrow> contents q \<noteq> [] \<Longrightarrow> contents (deq q) = tl (contents q)"
    and invar_deq: "invar q \<Longrightarrow> contents q \<noteq> [] \<Longrightarrow> invar (deq q)"
begin

text \<open>Dequeuing \<open>n\<close> times drops the \<open>n\<close> oldest.\<close>

lemma deq_many:
  "invar q \<Longrightarrow> n \<le> length (contents q) \<Longrightarrow>
     invar ((deq ^^ n) q) \<and> contents ((deq ^^ n) q) = drop n (contents q)"
proof (induction n)
  case 0
  then show ?case by simp
next
  case (Suc n)
  then have IH: "invar ((deq ^^ n) q)" "contents ((deq ^^ n) q) = drop n (contents q)" by auto
  from Suc.prems have "drop n (contents q) \<noteq> []" by simp
  with IH show ?case
    by (simp add: contents_deq invar_deq drop_Suc tl_drop)
qed

text \<open>Appending a list of elements one by one.\<close>

lemma enq_many:
  "invar q \<Longrightarrow> length (contents q) + length xs \<le> cap \<Longrightarrow>
     invar (fold enq xs q) \<and> contents (fold enq xs q) = contents q @ xs"
  by (induction xs arbitrary: q) (simp_all add: contents_enq invar_enq)

text \<open>An element that enters behind \<open>n\<close> others is first after exactly \<open>n\<close> departures.\<close>

lemma first_in_first_out:
  assumes "invar q" and "length (contents q) < cap"
  shows "first ((deq ^^ length (contents q)) (enq x q)) = x"
proof -
  have "invar (enq x q)" "contents (enq x q) = contents q @ [x]"
    using assms by (simp_all add: contents_enq invar_enq)
  then show ?thesis
    using deq_many [of "enq x q" "length (contents q)"] by (simp add: first_contents)
qed

end

section \<open>Lemmas on the arrays\<close>

definition queues_wf :: "'w kernel \<Rightarrow> bool" where
  "queues_wf s \<longleftrightarrow> length (qcount s) = 4 \<and> length (mlfq s) = 4 \<and>
     (\<forall>q < 4. qcount s ! q \<le> NPROC \<and> length (mlfq s ! q) = NPROC)"

lemma length_shift_down [simp]: "length (shift_down i n a) = length a"
  by (induction i n a rule: shift_down.induct) (subst shift_down.simps, simp)

lemma nth_shift_down:
  "n \<le> length a \<Longrightarrow> j < n - 1 \<Longrightarrow> shift_down i n a ! j = (if i \<le> j then a ! (j + 1) else a ! j)"
proof (induction i n a rule: shift_down.induct)
  case (1 i n a)
  then show ?case
    by (cases "i < n - 1") (auto simp: shift_down.simps [of i n a] nth_list_update le_Suc_eq not_less_eq_eq
        dest: le_antisym)
qed

lemma take_shift_down:
  "0 < n \<Longrightarrow> n \<le> length a \<Longrightarrow> take (n - 1) (shift_down 0 n a) = tl (take n a)"
  by (rule nth_equalityI) (auto simp: nth_shift_down nth_tl)

lemma queues_wf_enqueue_body:
  "queues_wf s \<Longrightarrow> q < 4 \<Longrightarrow> length (level q s) < NPROC \<Longrightarrow> queues_wf (enqueue_body q p s)"
  by (auto simp: queues_wf_def enqueue_body_def level_def Let_def nth_list_update)

lemma length_level: "queues_wf s \<Longrightarrow> q < 4 \<Longrightarrow> length (level q s) = qcount s ! q"
  by (simp add: queues_wf_def level_def)

lemma level_enqueue_body:
  "queues_wf s \<Longrightarrow> q < 4 \<Longrightarrow> r < 4 \<Longrightarrow> length (level q s) < NPROC \<Longrightarrow>
     level r (enqueue_body q p s) = (if r = q then level q s @ [p] else level r s)"
  by (simp add: length_level)
    (simp add: queues_wf_def level_def enqueue_body_def Let_def nth_list_update
      take_Suc_update [simplified])

lemma queues_wf_dequeue_body:
  "queues_wf s \<Longrightarrow> q < 4 \<Longrightarrow> queues_wf (dequeue_body q s)"
  by (auto simp: queues_wf_def dequeue_body_def Let_def nth_list_update intro: le_trans)

lemma level_dequeue_body:
  "queues_wf s \<Longrightarrow> q < 4 \<Longrightarrow> r < 4 \<Longrightarrow> level q s \<noteq> [] \<Longrightarrow>
     level r (dequeue_body q s) = (if r = q then tl (level q s) else level r s)"
  using take_shift_down [of "qcount s ! q" "mlfq s ! q"]
  by (simp add: queues_wf_def level_def dequeue_body_def Let_def nth_list_update)

lemma first_level:
  "queues_wf s \<Longrightarrow> q < 4 \<Longrightarrow> level q s \<noteq> [] \<Longrightarrow> mlfq s ! q ! 0 = hd (level q s)"
  by (simp add: level_def hd_conv_nth)

interpretation ready: fifo "enqueue_body q" "\<lambda>s. mlfq s ! q ! 0" "dequeue_body q" "level q"
  "\<lambda>s. queues_wf s \<and> q < 4" NPROC
  by unfold_locales
    (auto simp: queues_wf_enqueue_body level_enqueue_body queues_wf_dequeue_body
      level_dequeue_body first_level)

section \<open>Lemmas on the operations\<close>

lemma body_cpu [simp]:
  "enqueue_body q p (s\<lparr>cpu := c\<rparr>) = (enqueue_body q p s)\<lparr>cpu := c\<rparr>"
  "dequeue_body q (s\<lparr>cpu := c\<rparr>) = (dequeue_body q s)\<lparr>cpu := c\<rparr>"
  "level q (s\<lparr>cpu := c\<rparr>) = level q s" "queues_wf (s\<lparr>cpu := c\<rparr>) = queues_wf s"
  by (simp_all add: enqueue_body_def dequeue_body_def level_def queues_wf_def Let_def)

lemma body_simps [simp]:
  "procs (enqueue_body q p s) = procs s" "procs (dequeue_body q s) = procs s"
  "cproc (enqueue_body q p s) = cproc s" "cproc (dequeue_body q s) = cproc s"
  "cpu (enqueue_body q p s) = cpu s" "cpu (dequeue_body q s) = cpu s"
  "ticks (enqueue_body q p s) = ticks s" "ticks (dequeue_body q s) = ticks s"
  "kout (enqueue_body q p s) = kout s" "kout (dequeue_body q s) = kout s"
  "initproc (enqueue_body q p s) = initproc s" "initproc (dequeue_body q s) = initproc s"
  "nextpid (enqueue_body q p s) = nextpid s" "nextpid (dequeue_body q s) = nextpid s"
  "world (enqueue_body q p s) = world s" "world (dequeue_body q s) = world s"
  by (simp_all add: enqueue_body_def dequeue_body_def Let_def)

lemma level_cong [simp]:
  "level q (upd_proc p f s) = level q s" "queues_wf (upd_proc p f s) = queues_wf s"
  "level q (s\<lparr>procs := ps\<rparr>) = level q s" "queues_wf (s\<lparr>procs := ps\<rparr>) = queues_wf s"
  "level q (s\<lparr>cproc := cp\<rparr>) = level q s" "queues_wf (s\<lparr>cproc := cp\<rparr>) = queues_wf s"
  "level q (s\<lparr>kout := ko\<rparr>) = level q s" "queues_wf (s\<lparr>kout := ko\<rparr>) = queues_wf s"
  "level q (s\<lparr>ticks := tk\<rparr>) = level q s" "queues_wf (s\<lparr>ticks := tk\<rparr>) = queues_wf s"
  "level q (s\<lparr>world := w\<rparr>) = level q s" "queues_wf (s\<lparr>world := w\<rparr>) = queues_wf s"
  "level q (s\<lparr>nextpid := np\<rparr>) = level q s" "queues_wf (s\<lparr>nextpid := np\<rparr>) = queues_wf s"
  "level q (s\<lparr>initproc := ip\<rparr>) = level q s" "queues_wf (s\<lparr>initproc := ip\<rparr>) = queues_wf s"
  by (simp_all add: level_def queues_wf_def upd_proc_def)

lemma enqueue_ok:
  assumes "quiet L s" and "MlfqLock \<notin> L" and "queues_wf s" and "q < 4"
    and "length (level q s) < NPROC"
  shows "\<exists>c. enqueue (int q) p s = Inr ((enqueue_body q p s)\<lparr>cpu := c\<rparr>) \<and> hart_ok L c"
proof -
  have "qcount s ! q < NPROC" using assms(3-5) by (simp add: length_level)
  then show ?thesis
    using assms(1,2,4) by (auto simp: enqueue_def intro!: with_lock_eq)
qed

lemma dequeue_ok:
  assumes "quiet L s" and "MlfqLock \<notin> L" and "queues_wf s" and "q < 4"
  shows "\<exists>c. dequeue (int q) s =
      Inr (if level q s = [] then (None, s\<lparr>cpu := c\<rparr>)
           else (Some (hd (level q s)), (dequeue_body q s)\<lparr>cpu := c\<rparr>)) \<and> hart_ok L c"
proof -
  let ?t = "if level q s = [] then s else dequeue_body q s"
  obtain c1 where c1: "acq MlfqLock s = Inr (s\<lparr>cpu := c1\<rparr>)" "hart_ok (insert MlfqLock L) c1"
    using acq_ok [OF assms(1,2)] by blast
  obtain c2 where c2: "rel MlfqLock (?t\<lparr>cpu := c1\<rparr>) = Inr (?t\<lparr>cpu := c1, cpu := c2\<rparr>)"
      "hart_ok (insert MlfqLock L - {MlfqLock}) c2"
    using rel_ok [of "insert MlfqLock L" "?t\<lparr>cpu := c1\<rparr>" MlfqLock] c1(2) by auto
  have L: "insert MlfqLock L - {MlfqLock} = L" using assms(2) by auto
  have "qcount s ! q = 0 \<longleftrightarrow> level q s = []"
    using length_level [OF assms(3,4)] by auto
  then show ?thesis
    using c1 c2 L assms(4) first_level [OF assms(3,4)]
    by (cases "level q s = []") (auto simp: dequeue_def Let_def)
qed

text \<open>Emptying the queues and refilling level 0.\<close>

lemma level_emptied:
  assumes "queues_wf s" and "s' = s\<lparr>qcount := (qcount s)[0 := 0, 1 := 0, 2 := 0, 3 := 0]\<rparr>"
  shows "queues_wf s' \<and> (\<forall>q < 4. level q s' = [])"
proof -
  have "q = 0 \<or> q = 1 \<or> q = 2 \<or> q = 3" if "q < 4" for q :: nat using that by arith
  then show ?thesis
    using assms by (fastforce simp: queues_wf_def level_def nth_list_update)
qed

lemma fold_enqueue_frame:
  "procs (fold (enqueue_body q) xs s) = procs s" "cproc (fold (enqueue_body q) xs s) = cproc s"
  "ticks (fold (enqueue_body q) xs s) = ticks s" "kout (fold (enqueue_body q) xs s) = kout s"
  "initproc (fold (enqueue_body q) xs s) = initproc s"
  "nextpid (fold (enqueue_body q) xs s) = nextpid s" "world (fold (enqueue_body q) xs s) = world s"
  by (induction xs arbitrary: s) simp_all

lemma fold_enqueue_cpu:
  "fold (enqueue_body q) xs (s\<lparr>cpu := c\<rparr>) = (fold (enqueue_body q) xs s)\<lparr>cpu := c\<rparr>"
  by (induction xs arbitrary: s) simp_all

lemma fold_enqueue_level:
  "queues_wf s \<Longrightarrow> q < 4 \<Longrightarrow> length (level q s) + length xs \<le> NPROC \<Longrightarrow> r < 4 \<Longrightarrow>
     level r (fold (enqueue_body q) xs s) = (if r = q then level q s @ xs else level r s)"
  by (induction xs arbitrary: s) (simp_all add: level_enqueue_body queues_wf_enqueue_body)

definition boosted :: "'w kernel \<Rightarrow> 'w kernel" where
  "boosted s = fold (enqueue_body 0) (level 0 s @ level 1 s @ level 2 s @ level 3 s)
     (s\<lparr>procs := map reset_priority (procs s),
        qcount := (qcount s)[0 := 0, 1 := 0, 2 := 0, 3 := 0]\<rparr>)"

definition queued :: "'w kernel \<Rightarrow> nat list" where
  "queued s = level 0 s @ level 1 s @ level 2 s @ level 3 s"

lemma boosted_queues:
  assumes "queues_wf s" and "length (queued s) \<le> NPROC"
  shows "queues_wf (boosted s)" and "level 0 (boosted s) = queued s"
    and "q < 4 \<Longrightarrow> q \<noteq> 0 \<Longrightarrow> level q (boosted s) = []"
proof -
  let ?s = "s\<lparr>procs := map reset_priority (procs s),
    qcount := (qcount s)[0 := 0, 1 := 0, 2 := 0, 3 := 0]\<rparr>"
  have e: "queues_wf ?s" "\<And>q. q < 4 \<Longrightarrow> level q ?s = []"
    using level_emptied [of "s\<lparr>procs := map reset_priority (procs s)\<rparr>" ?s] assms(1) by auto
  show "queues_wf (boosted s)"
    using ready.enq_many [of ?s 0 "queued s"] e assms(2) by (simp add: boosted_def queued_def)
  show "level 0 (boosted s) = queued s" and "q < 4 \<Longrightarrow> q \<noteq> 0 \<Longrightarrow> level q (boosted s) = []"
    using fold_enqueue_level [of ?s 0 "queued s"] e assms(2)
    by (simp_all add: boosted_def queued_def)
qed

lemma boosted_frame:
  "procs (boosted s) = map reset_priority (procs s)" "cproc (boosted s) = cproc s"
  "ticks (boosted s) = ticks s" "kout (boosted s) = kout s" "initproc (boosted s) = initproc s"
  "nextpid (boosted s) = nextpid s" "world (boosted s) = world s"
  by (simp_all add: boosted_def fold_enqueue_frame)

lemma boost_priority_ok:
  assumes "quiet L s" and "MlfqLock \<notin> L" and "\<And>p. PLock p \<notin> L"
    and "length (procs s) = NPROC" and "length (queued s) \<le> NPROC"
  shows "\<exists>c. boost_priority s = Inr ((boosted s)\<lparr>cpu := c\<rparr>) \<and> hart_ok L c"
proof -
  let ?s1 = "\<lambda>c. s\<lparr>procs := map reset_priority (procs s), cpu := c\<rparr>"
  obtain c1 where c1: "for_each (\<lambda>p. with_lock (PLock p) (\<lambda>s. Inr (upd_proc p reset_priority s)))
      [0..<NPROC] s = Inr (?s1 c1)" "hart_ok L c1"
    using for_each_proc [OF assms(1,3), of NPROC reset_priority] assms(4) by auto
  have "\<exists>c. with_lock MlfqLock boost_queues (?s1 c1) = Inr ((boosted s)\<lparr>cpu := c\<rparr>) \<and> hart_ok L c"
  proof (rule with_lock_eq)
    fix c
    assume "hart_ok (insert MlfqLock L) c"
    moreover have "boost_queues ((?s1 c1)\<lparr>cpu := c\<rparr>) = Inr ((boosted s)\<lparr>cpu := c\<rparr>)"
      using assms(5) fold_enqueue_cpu [where q = 0 and xs = "queued s" and c = c]
      by (simp add: boost_queues_def boosted_def queued_def Let_def)
    ultimately show "\<exists>c'. boost_queues ((?s1 c1)\<lparr>cpu := c\<rparr>) = Inr ((boosted s)\<lparr>cpu := c'\<rparr>) \<and>
        hart_ok (insert MlfqLock L) c'" by blast
  qed (use c1 assms(2) in auto)
  with c1 show ?thesis by (simp add: boost_priority_def)
qed

end
