(* ===== verification/Kernel_Sched.thy ===== *)
theory Kernel_Sched
  imports Kernel_Mlfq
begin

text \<open>
  The schedulers and the operations that move a process between its states:
  \<open>scheduler\<close> (its three build variants), \<open>sched\<close>, \<open>yield\<close>, \<open>sleep\<close>, \<open>wakeup\<close>,
  \<open>kkill\<close>, \<open>setkilled\<close>, \<open>killed\<close>, \<open>procdump\<close>, \<open>update_time\<close> of
  \<^verbatim>\<open>xv6/kernel/proc.c\<close> and \<open>clockintr\<close> of \<^verbatim>\<open>xv6/kernel/trap.c\<close>.

  A context switch \<open>swtch\<close> ends a definition: \<open>scheduler_mlfq\<close> runs the scheduler thread
  from the top of its loop to the switch (or to \<open>wfi\<close>); \<open>sched\<close> runs the process to its
  switch and the scheduler thread from there to the top of its loop; \<open>resume\<close> is what a
  process does first when it is switched to.
\<close>

section \<open>The scheduler thread\<close>

text \<open>\<open>intr_on(); intr_off();\<close> at the top of the loop.\<close>

definition intr_window :: "'w kernel \<Rightarrow> 'w kernel" where
  "intr_window s = s\<lparr>cpu := (cpu s)\<lparr>sie := False\<rparr>\<rparr>"

definition run_proc :: "nat \<Rightarrow> 'w kernel \<Rightarrow> 'w kernel" where
  "run_proc p s =
    (let s = upd_proc p (\<lambda>x. x\<lparr>state := RUNNING\<rparr>) s;
         s = s\<lparr>cproc := Some p\<rparr>
     in if first_run_time (procs s ! p) = 0
        then upd_proc p (\<lambda>x. x\<lparr>first_run_time := ucast (ticks s)\<rparr>) s else s)"

text \<open>The \<open>while (1)\<close> loop over one level; \<open>n\<close> bounds its passes, each of which dequeues.\<close>

fun scan_queue :: "nat \<Rightarrow> nat \<Rightarrow> 'w kernel \<Rightarrow> (bool \<times> 'w kernel) res" where
  "scan_queue 0 q s = Inl ''scan_queue: out of passes''"
| "scan_queue (Suc n) q s =
    seq (dequeue (int q) s) (\<lambda>(r, s).
      case r of None \<Rightarrow> Inr (False, s)
      | Some p \<Rightarrow> seq (acq (PLock p) s) (\<lambda>s.
          if state (procs s ! p) = RUNNABLE then Inr (True, run_proc p s)
          else seq (rel (PLock p) s) (scan_queue n q)))"

fun scan_queues :: "nat list \<Rightarrow> 'w kernel \<Rightarrow> (bool \<times> 'w kernel) res" where
  "scan_queues [] s = Inr (False, s)"
| "scan_queues (q # qs) s =
    seq (scan_queue (NPROC + 1) q s) (\<lambda>(found, s).
      if found then Inr (True, s) else scan_queues qs s)"

definition scheduler_mlfq :: "'w kernel \<Rightarrow> (bool \<times> 'w kernel) res" where
  "scheduler_mlfq s = scan_queues [0, 1, 2, 3] (intr_window s)"

text \<open>The variant built with \<^verbatim>\<open>-DFIFO\<close>.\<close>

fun fifo_scan :: "nat list \<Rightarrow> nat option \<Rightarrow> 'w kernel \<Rightarrow> (nat option \<times> 'w kernel) res" where
  "fifo_scan [] min_p s = Inr (min_p, s)"
| "fifo_scan (p # ps) min_p s =
    seq (acq (PLock p) s) (\<lambda>s.
      if state (procs s ! p) = RUNNABLE \<and>
         (case min_p of None \<Rightarrow> True
          | Some m \<Rightarrow> creation_time (procs s ! p) < creation_time (procs s ! m))
      then seq (case min_p of None \<Rightarrow> Inr s | Some m \<Rightarrow> rel (PLock m) s) (fifo_scan ps (Some p))
      else seq (rel (PLock p) s) (fifo_scan ps min_p))"

definition scheduler_fifo :: "'w kernel \<Rightarrow> (bool \<times> 'w kernel) res" where
  "scheduler_fifo s =
    seq (fifo_scan [0..<NPROC] None (intr_window s)) (\<lambda>(min_p, s).
      case min_p of None \<Rightarrow> Inr (False, s) | Some m \<Rightarrow> Inr (True, run_proc m s))"

text \<open>
  The round-robin variant: the \<open>for\<close> loop from entry \<open>p\<close> of the table on, up to the next
  switch.  The loop goes on after the entry that was run.
\<close>

fun rr_scan :: "nat list \<Rightarrow> 'w kernel \<Rightarrow> (nat option \<times> 'w kernel) res" where
  "rr_scan [] s = Inr (None, s)"
| "rr_scan (p # ps) s =
    seq (acq (PLock p) s) (\<lambda>s.
      if state (procs s ! p) = RUNNABLE then Inr (Some p, run_proc p s)
      else seq (rel (PLock p) s) (rr_scan ps))"

definition scheduler_rr :: "nat \<Rightarrow> 'w kernel \<Rightarrow> (nat option \<times> 'w kernel) res" where
  "scheduler_rr p s = rr_scan [p..<NPROC] (if p = 0 then intr_window s else s)"

section \<open>Giving up the processor\<close>

text \<open>
  \<open>sched\<close>, and the scheduler thread after its \<open>swtch\<close> returns: \<open>c->proc = 0\<close> and
  \<open>release(&p->lock)\<close>.
\<close>

definition sched :: "'w kernel \<Rightarrow> 'w kernel res" where
  "sched s =
    (case cproc s of None \<Rightarrow> Inl ''sched: no process''
     | Some p \<Rightarrow>
         if \<not> holding (PLock p) (cpu s) then Inl ''sched p->lock''
         else if noff (cpu s) \<noteq> 1 then Inl ''sched locks''
         else if state (procs s ! p) = RUNNING then Inl ''sched RUNNING''
         else if sie (cpu s) then Inl ''sched interruptible''
         else rel (PLock p) (s\<lparr>cproc := None\<rparr>))"

text \<open>
  A process switched to restores its own \<open>intena\<close> (end of \<open>sched\<close>) and releases its lock
  (end of \<open>yield\<close>, start of \<open>forkret\<close>).
\<close>

definition resume :: "bool \<Rightarrow> nat \<Rightarrow> 'w kernel \<Rightarrow> 'w kernel res" where
  "resume ie p s = rel (PLock p) (s\<lparr>cpu := (cpu s)\<lparr>intena := ie\<rparr>\<rparr>)"

definition time_slice :: "int \<Rightarrow> int" where
  "time_slice q = (if q = 1 then 4 else if q = 2 then 8 else if q = 3 then 16 else 1)"

definition higher_waiting :: "int \<Rightarrow> 'w kernel \<Rightarrow> bool" where
  "higher_waiting q s \<longleftrightarrow> list_ex (\<lambda>i. qcount s ! i > 0) [0..<nat q]"

definition demote :: "proc \<Rightarrow> proc" where
  "demote x = (if queue x < 3 then x\<lparr>queue := queue x + 1, pticks := 0\<rparr> else x\<lparr>pticks := 0\<rparr>)"

definition yield :: "'w kernel \<Rightarrow> 'w kernel res" where
  "yield s =
    (case cproc s of None \<Rightarrow> Inl ''yield: no process''
     | Some p \<Rightarrow>
        seq (acq (PLock p) s) (\<lambda>s.
          let s = upd_proc p (\<lambda>x. x\<lparr>pticks := pticks x + 1\<rparr>) s;
              slice = time_slice (queue (procs s ! p))
          in seq (acq MlfqLock s) (\<lambda>s.
            let preempt = higher_waiting (queue (procs s ! p)) s
            in seq (rel MlfqLock s) (\<lambda>s.
              if pticks (procs s ! p) \<ge> slice \<or> preempt then
                let s = (if pticks (procs s ! p) \<ge> slice then upd_proc p demote s else s);
                    s = upd_proc p (\<lambda>x. x\<lparr>state := RUNNABLE\<rparr>) s
                in seq (enqueue (queue (procs s ! p)) p s) sched
              else rel (PLock p) s))))"

text \<open>\<open>yield\<close> of the builds without \<^verbatim>\<open>-DMLFQ\<close>.\<close>

definition yield_rr :: "'w kernel \<Rightarrow> 'w kernel res" where
  "yield_rr s =
    (case cproc s of None \<Rightarrow> Inl ''yield: no process''
     | Some p \<Rightarrow>
        seq (acq (PLock p) s) (\<lambda>s. sched (upd_proc p (\<lambda>x. x\<lparr>state := RUNNABLE\<rparr>) s)))"

definition sleep :: "channel \<Rightarrow> lock \<Rightarrow> 'w kernel \<Rightarrow> 'w kernel res" where
  "sleep ch lk s =
    (case cproc s of None \<Rightarrow> Inl ''sleep: no process''
     | Some p \<Rightarrow>
        seq (acq (PLock p) s) (\<lambda>s. seq (rel lk s) (\<lambda>s.
          sched (upd_proc p (\<lambda>x. x\<lparr>chan := ch, state := SLEEPING, pticks := 0\<rparr>) s))))"

text \<open>The rest of \<open>sleep\<close>, when the process runs again.\<close>

definition sleep_return :: "bool \<Rightarrow> nat \<Rightarrow> lock \<Rightarrow> 'w kernel \<Rightarrow> 'w kernel res" where
  "sleep_return ie p lk s =
    (let s = s\<lparr>cpu := (cpu s)\<lparr>intena := ie\<rparr>\<rparr>;
         s = upd_proc p (\<lambda>x. x\<lparr>chan := NoChan\<rparr>) s
     in seq (rel (PLock p) s) (acq lk))"

section \<open>Waking and killing\<close>

definition make_runnable :: "nat \<Rightarrow> 'w kernel \<Rightarrow> 'w kernel res" where
  "make_runnable p s =
    (let s = upd_proc p (\<lambda>x. x\<lparr>state := RUNNABLE\<rparr>) s in enqueue (queue (procs s ! p)) p s)"

definition wakeup_one :: "channel \<Rightarrow> nat \<Rightarrow> 'w kernel \<Rightarrow> 'w kernel res" where
  "wakeup_one ch p s =
    (if cproc s \<noteq> Some p then
       with_lock (PLock p) (\<lambda>s.
         if state (procs s ! p) = SLEEPING \<and> chan (procs s ! p) = ch then make_runnable p s
         else Inr s) s
     else Inr s)"

definition wakeup :: "channel \<Rightarrow> 'w kernel \<Rightarrow> 'w kernel res" where
  "wakeup ch = for_each (wakeup_one ch) [0..<NPROC]"

definition kill_proc :: "nat \<Rightarrow> 'w kernel \<Rightarrow> 'w kernel res" where
  "kill_proc p s =
    (let s = upd_proc p (\<lambda>x. x\<lparr>killed_flag := 1\<rparr>) s
     in if state (procs s ! p) = SLEEPING then make_runnable p s else Inr s)"

fun kkill_loop :: "nat list \<Rightarrow> int \<Rightarrow> 'w kernel \<Rightarrow> (int \<times> 'w kernel) res" where
  "kkill_loop [] k s = Inr (-1, s)"
| "kkill_loop (p # ps) k s =
    seq (acq (PLock p) s) (\<lambda>s.
      if pid (procs s ! p) = k then
        seq (kill_proc p s) (\<lambda>s. seq (rel (PLock p) s) (\<lambda>s. Inr (0, s)))
      else seq (rel (PLock p) s) (kkill_loop ps k))"

definition kkill :: "int \<Rightarrow> 'w kernel \<Rightarrow> (int \<times> 'w kernel) res" where
  "kkill k s = kkill_loop [0..<NPROC] k s"

definition setkilled :: "nat \<Rightarrow> 'w kernel \<Rightarrow> 'w kernel res" where
  "setkilled p = with_lock (PLock p) (\<lambda>s. Inr (upd_proc p (\<lambda>x. x\<lparr>killed_flag := 1\<rparr>) s))"

definition killed :: "nat \<Rightarrow> 'w kernel \<Rightarrow> (int \<times> 'w kernel) res" where
  "killed p s = seq (acq (PLock p) s) (\<lambda>s.
     let k = killed_flag (procs s ! p) in seq (rel (PLock p) s) (\<lambda>s. Inr (k, s)))"

section \<open>Accounting and the clock\<close>

definition state_name :: "procstate \<Rightarrow> string" where
  "state_name st = (case st of UNUSED \<Rightarrow> ''unused'' | USED \<Rightarrow> ''used'' | SLEEPING \<Rightarrow> ''sleep ''
     | RUNNABLE \<Rightarrow> ''runble'' | RUNNING \<Rightarrow> ''run   '' | ZOMBIE \<Rightarrow> ''zombie'')"

definition procdump :: "'w kernel \<Rightarrow> 'w kernel" where
  "procdump s = s\<lparr>kout := kout s @
     map (\<lambda>x. Proc_line (pid x) (state_name (state x)) (pname x) (queue x) (pticks x))
       (filter (\<lambda>x. state x \<noteq> UNUSED) (procs s))\<rparr>"

definition account :: "proc \<Rightarrow> proc" where
  "account x = (if state x = RUNNING then x\<lparr>rtime := rtime x + 1\<rparr>
     else if state x = SLEEPING then x\<lparr>iotime := iotime x + 1\<rparr> else x)"

definition update_time_one :: "nat \<Rightarrow> 'w kernel \<Rightarrow> 'w kernel res" where
  "update_time_one p = with_lock (PLock p) (\<lambda>s.
     let s = upd_proc p account s; x = procs s ! p
     in Inr (if pid x > 2 \<and> state x \<noteq> UNUSED \<and> state x \<noteq> ZOMBIE
             then s\<lparr>kout := kout s @ [Mlfq_plot (ticks s) (pid x) (queue x)]\<rparr> else s))"

definition update_time :: "'w kernel \<Rightarrow> 'w kernel res" where
  "update_time = for_each update_time_one [0..<NPROC]"

definition clockintr :: "'w kernel \<Rightarrow> 'w kernel res" where
  "clockintr s =
    seq (with_lock TicksLock (\<lambda>s.
           let s = s\<lparr>ticks := ticks s + 1\<rparr> in seq (update_time s) (wakeup TicksChan)) s)
      (\<lambda>s. if ticks s mod 48 = 0 then boost_priority s else Inr s)"

end
