(* ===== verification/Kernel_Sched_Inv.thy ===== *)
theory Kernel_Sched_Inv
  imports Kernel_Sched
begin

text \<open>
  The invariant of the scheduler: the ready queues hold exactly the RUNNABLE processes, each
  once and at its own level, every process is within its time slice, and the process of the
  hart is the only RUNNING one.  Every operation keeps it, none panics, and every operation
  leaves the locks as it found them.
\<close>

section \<open>The invariant\<close>

definition ready_ok :: "'w kernel \<Rightarrow> bool" where
  "ready_ok s \<longleftrightarrow> (\<forall>q < 4. distinct (level q s) \<and>
     (\<forall>p. p \<in> set (level q s) \<longleftrightarrow>
        p < NPROC \<and> state (procs s ! p) = RUNNABLE \<and> queue (procs s ! p) = int q))"

definition proc_ok :: "proc \<Rightarrow> bool" where
  "proc_ok x \<longleftrightarrow> 0 \<le> queue x \<and> queue x \<le> 3 \<and> 0 \<le> pticks x \<and> pticks x < time_slice (queue x)"

definition running_ok :: "'w kernel \<Rightarrow> bool" where
  "running_ok s \<longleftrightarrow> (\<forall>p < NPROC. state (procs s ! p) = RUNNING \<longleftrightarrow> cproc s = Some p) \<and>
     (\<forall>p. cproc s = Some p \<longrightarrow> p < NPROC)"

definition sched_inv :: "'w kernel \<Rightarrow> bool" where
  "sched_inv s \<longleftrightarrow> length (procs s) = NPROC \<and> queues_wf s \<and> ready_ok s \<and>
     (\<forall>p < NPROC. proc_ok (procs s ! p)) \<and> running_ok s"

section \<open>Lemmas\<close>

lemma upd_proc_twice [simp]:
  "upd_proc p g (upd_proc p f s) = upd_proc p (\<lambda>x. g (f x)) s"
  by (cases "p < length (procs s)") (simp_all add: upd_proc_def list_update_beyond)

lemma upd_proc_fields [simp]:
  "upd_proc p f (s\<lparr>cproc := cp\<rparr>) = (upd_proc p f s)\<lparr>cproc := cp\<rparr>"
  "upd_proc p f (s\<lparr>kout := ko\<rparr>) = (upd_proc p f s)\<lparr>kout := ko\<rparr>"
  "upd_proc p f (s\<lparr>ticks := tk\<rparr>) = (upd_proc p f s)\<lparr>ticks := tk\<rparr>"
  "upd_proc p f (enqueue_body q r s) = enqueue_body q r (upd_proc p f s)"
  "upd_proc p f (dequeue_body q s) = dequeue_body q (upd_proc p f s)"
  by (simp_all add: upd_proc_def enqueue_body_def dequeue_body_def Let_def)

lemma inv_cong [simp]:
  "ready_ok (s\<lparr>cpu := c\<rparr>) = ready_ok s" "running_ok (s\<lparr>cpu := c\<rparr>) = running_ok s"
  "sched_inv (s\<lparr>cpu := c\<rparr>) = sched_inv s"
  "sched_inv (s\<lparr>kout := ko\<rparr>) = sched_inv s" "sched_inv (s\<lparr>ticks := tk\<rparr>) = sched_inv s"
  "sched_inv (s\<lparr>world := w\<rparr>) = sched_inv s" "sched_inv (s\<lparr>nextpid := np\<rparr>) = sched_inv s"
  "sched_inv (s\<lparr>initproc := ip\<rparr>) = sched_inv s"
  by (simp_all add: ready_ok_def running_ok_def sched_inv_def)

lemma levelD:
  "sched_inv s \<Longrightarrow> q < 4 \<Longrightarrow> p \<in> set (level q s) \<Longrightarrow>
     p < NPROC \<and> state (procs s ! p) = RUNNABLE \<and> queue (procs s ! p) = int q"
  by (simp add: sched_inv_def ready_ok_def)

lemma queue_level:
  "sched_inv s \<Longrightarrow> p < NPROC \<Longrightarrow> \<exists>q < 4. queue (procs s ! p) = int q"
  by (rule exI [of _ "nat (queue (procs s ! p))"]) (auto simp: sched_inv_def proc_ok_def)

text \<open>A queue has room for a process that is not RUNNABLE.\<close>

lemma room:
  assumes "sched_inv s" and "q < 4" and "p < NPROC" and "state (procs s ! p) \<noteq> RUNNABLE"
  shows "length (level q s) < NPROC"
proof (rule distinct_bounded_length_less)
  show "distinct (level q s)" and "p \<notin> set (level q s)"
    using assms by (auto simp: sched_inv_def ready_ok_def)
  show "set (level q s) \<subseteq> {..<NPROC}"
    using assms(1,2) by (auto dest: levelD)
qed (rule assms(3))

text \<open>All queues together hold each process once, so they fit in one.\<close>

lemma queued_distinct:
  assumes "sched_inv s"
  shows "distinct (queued s)"
proof -
  have d: "distinct (level q s)" if "q < 4" for q
    using assms that by (simp add: sched_inv_def ready_ok_def)
  have "set (level q s) \<inter> set (level r s) = {}" if "q < 4" "r < 4" "q \<noteq> r" for q r
    using levelD [OF assms that(1)] levelD [OF assms that(2)] that(3) by force
  then show ?thesis
    using d by (simp add: queued_def Int_Un_distrib)
qed

lemma queued_fits:
  assumes "sched_inv s"
  shows "length (queued s) \<le> NPROC"
proof (rule distinct_bounded_length [OF queued_distinct [OF assms]])
  show "set (queued s) \<subseteq> {..<NPROC}"
    using levelD [OF assms, of 0] levelD [OF assms, of 1] levelD [OF assms, of 2]
      levelD [OF assms, of 3]
    by (auto simp: queued_def)
qed

text \<open>A change of a process that is not RUNNABLE, before and after.\<close>

lemma sched_inv_upd:
  assumes "sched_inv s" and "p < NPROC"
    and "state (procs s ! p) \<noteq> RUNNABLE" and "state (f (procs s ! p)) \<noteq> RUNNABLE"
    and "proc_ok (f (procs s ! p))"
    and "state (f (procs s ! p)) = RUNNING \<longleftrightarrow> state (procs s ! p) = RUNNING"
  shows "sched_inv (upd_proc p f s)"
  using assms
  by (auto simp: sched_inv_def ready_ok_def running_ok_def nth_upd_proc split: if_splits)

text \<open>A change of a process that keeps its state, its level and its slice.\<close>

lemma sched_inv_upd_same:
  assumes "sched_inv s"
    and "\<And>x. state (f x) = state x" and "\<And>x. queue (f x) = queue x" and "\<And>x. pticks (f x) = pticks x"
  shows "sched_inv (upd_proc p f s)"
  using assms
  by (auto simp: sched_inv_def ready_ok_def running_ok_def proc_ok_def nth_upd_proc split: if_splits)

text \<open>A process becomes RUNNABLE and enters the queue of its level.\<close>

lemma sched_inv_enqueue:
  assumes "sched_inv s" and "p < NPROC" and "state (procs s ! p) \<noteq> RUNNABLE"
    and "state (f (procs s ! p)) = RUNNABLE" and "queue (f (procs s ! p)) = int q" and "q < 4"
    and "proc_ok (f (procs s ! p))"
    and "cp = (if cproc s = Some p then None else cproc s)"
  shows "sched_inv ((enqueue_body q p (upd_proc p f s))\<lparr>cproc := cp\<rparr>)"
proof -
  have wf: "queues_wf s" and len: "length (procs s) = NPROC" using assms(1) by (auto simp: sched_inv_def)
  have r: "length (level q s) < NPROC" using room assms by blast
  have lv: "level i (enqueue_body q p (upd_proc p f s)) = (if i = q then level q s @ [p] else level i s)"
    if "i < 4" for i
    using level_enqueue_body [of "upd_proc p f s" q i p] wf r assms(6) that by simp
  have "p \<notin> set (level i s)" if "i < 4" for i
    using levelD [OF assms(1) that] assms(3) by blast
  then have "ready_ok (enqueue_body q p (upd_proc p f s))"
    using assms lv len
    by (auto simp: ready_ok_def sched_inv_def nth_upd_proc split: if_splits)
  moreover have "queues_wf (enqueue_body q p (upd_proc p f s))"
    using wf r assms(6) by (simp add: queues_wf_enqueue_body)
  moreover have "running_ok ((enqueue_body q p (upd_proc p f s))\<lparr>cproc := cp\<rparr>)"
    using assms len by (auto simp: running_ok_def sched_inv_def nth_upd_proc split: if_splits)
  ultimately show ?thesis
    using assms len
    by (auto simp: sched_inv_def ready_ok_def nth_upd_proc split: if_splits)
qed

text \<open>The oldest process of a level leaves its queue and runs.\<close>

lemma sched_inv_run:
  assumes "sched_inv s" and "q < 4" and "level q s = p # rest" and "cproc s = None"
  shows "sched_inv (run_proc p (dequeue_body q s))"
proof -
  have wf: "queues_wf s" and len: "length (procs s) = NPROC" using assms(1) by (auto simp: sched_inv_def)
  have p: "p < NPROC" "state (procs s ! p) = RUNNABLE" "queue (procs s ! p) = int q"
    using levelD [OF assms(1,2), of p] assms(3) by auto
  obtain f where f: "run_proc p (dequeue_body q s) = (dequeue_body q (upd_proc p f s))\<lparr>cproc := Some p\<rparr>"
      "state (f (procs s ! p)) = RUNNING" "queue (f (procs s ! p)) = int q"
      "proc_ok (f (procs s ! p))"
  proof (cases "first_run_time (procs s ! p) = 0")
    case True
    then show ?thesis
      using that [of "\<lambda>x. x\<lparr>state := RUNNING, first_run_time := ucast (ticks s)\<rparr>"] p len assms(1)
      by (auto simp: run_proc_def Let_def nth_upd_proc proc_ok_def sched_inv_def)
  next
    case False
    then show ?thesis
      using that [of "\<lambda>x. x\<lparr>state := RUNNING\<rparr>"] p len assms(1)
      by (auto simp: run_proc_def Let_def nth_upd_proc proc_ok_def sched_inv_def)
  qed
  have lv: "level i (dequeue_body q (upd_proc p f s)) = (if i = q then rest else level i s)"
    if "i < 4" for i
    using level_dequeue_body [of "upd_proc p f s" q i] wf assms(2,3) that by simp
  have "distinct (p # rest)" using assms(1-3) by (auto simp: sched_inv_def ready_ok_def)
  moreover have "p \<notin> set (level i s)" if "i < 4" "i \<noteq> q" for i
    using levelD [OF assms(1) that(1)] p that(2) by fastforce
  moreover have "r \<in> set rest \<longleftrightarrow> r \<noteq> p \<and> r \<in> set (level q s)" for r
    using calculation(1) assms(3) by auto
  ultimately have "ready_ok (dequeue_body q (upd_proc p f s))"
    using assms(1,2) lv len p f
    by (auto simp: ready_ok_def sched_inv_def nth_upd_proc split: if_splits)
  moreover have "queues_wf (dequeue_body q (upd_proc p f s))"
    using wf assms(2) by (simp add: queues_wf_dequeue_body)
  moreover have "running_ok ((dequeue_body q (upd_proc p f s))\<lparr>cproc := Some p\<rparr>)"
    using assms p f len by (auto simp: running_ok_def sched_inv_def nth_upd_proc split: if_splits)
  ultimately show ?thesis
    using assms(1) f len p by (auto simp: sched_inv_def ready_ok_def nth_upd_proc split: if_splits)
qed

section \<open>The scheduler\<close>

lemma run_proc_cpu [simp]: "run_proc p (s\<lparr>cpu := c\<rparr>) = (run_proc p s)\<lparr>cpu := c\<rparr>"
  by (simp add: run_proc_def Let_def)

lemma run_proc_simps [simp]: "cproc (run_proc p s) = Some p" "quiet L (run_proc p s) = quiet L s"
  by (simp_all add: run_proc_def Let_def)

lemma intr_window_ok: "quiet {} s \<Longrightarrow> quiet {} (intr_window s)"
  by (simp add: intr_window_def quiet_def hart_ok_def)

text \<open>The loop over a level: empty, or its oldest process runs at once.\<close>

lemma scan_queue_ok:
  assumes "quiet {} s" and "sched_inv s" and "q < 4" and "0 < n"
  shows "\<exists>c. scan_queue n q s =
    Inr (if level q s = [] then (False, s\<lparr>cpu := c\<rparr>)
         else (True, (run_proc (hd (level q s)) (dequeue_body q s))\<lparr>cpu := c\<rparr>)) \<and>
    hart_ok (if level q s = [] then {} else {PLock (hd (level q s))}) c"
proof -
  from assms(4) obtain m where n: "n = Suc m" by (cases n) auto
  have wf: "queues_wf s" using assms(2) by (simp add: sched_inv_def)
  obtain c where c: "dequeue (int q) s =
      Inr (if level q s = [] then (None, s\<lparr>cpu := c\<rparr>)
           else (Some (hd (level q s)), (dequeue_body q s)\<lparr>cpu := c\<rparr>))" "hart_ok {} c"
    using dequeue_ok [OF assms(1) _ wf assms(3)] by auto
  show ?thesis
  proof (cases "level q s = []")
    case True
    with c n show ?thesis by auto
  next
    case False
    then have "state (procs s ! hd (level q s)) = RUNNABLE"
      using levelD [OF assms(2,3), of "hd (level q s)"] by simp
    moreover obtain c' where "acq (PLock (hd (level q s))) ((dequeue_body q s)\<lparr>cpu := c\<rparr>) =
        Inr ((dequeue_body q s)\<lparr>cpu := c, cpu := c'\<rparr>)" "hart_ok {PLock (hd (level q s))} c'"
      using acq_ok [of "{}" "(dequeue_body q s)\<lparr>cpu := c\<rparr>"] c(2) by auto
    ultimately show ?thesis
      using c n False by auto
  qed
qed

lemma scan_queues_ok:
  assumes "quiet {} s" and "sched_inv s" and "set qs \<subseteq> {..<4}"
  shows "\<exists>c. scan_queues qs s =
    Inr (case find (\<lambda>q. level q s \<noteq> []) qs of
           None \<Rightarrow> (False, s\<lparr>cpu := c\<rparr>)
         | Some q \<Rightarrow> (True, (run_proc (hd (level q s)) (dequeue_body q s))\<lparr>cpu := c\<rparr>)) \<and>
    hart_ok (case find (\<lambda>q. level q s \<noteq> []) qs of
           None \<Rightarrow> {} | Some q \<Rightarrow> {PLock (hd (level q s))}) c"
  using assms
proof (induction qs arbitrary: s)
  case Nil
  have "s = s\<lparr>cpu := cpu s\<rparr>" by simp
  with Nil show ?case by (auto simp: quiet_def intro!: exI [of _ "cpu s"])
next
  case (Cons q qs)
  obtain c where c: "scan_queue (NPROC + 1) q s =
    Inr (if level q s = [] then (False, s\<lparr>cpu := c\<rparr>)
         else (True, (run_proc (hd (level q s)) (dequeue_body q s))\<lparr>cpu := c\<rparr>))"
    "hart_ok (if level q s = [] then {} else {PLock (hd (level q s))}) c"
    using scan_queue_ok [OF Cons.prems(1,2), of q "NPROC + 1"] Cons.prems(3) by auto
  show ?case
  proof (cases "level q s = []")
    case True
    with c Cons.IH [of "s\<lparr>cpu := c\<rparr>"] Cons.prems show ?thesis
      by (simp del: scan_queue.simps cong: option.case_cong)
  next
    case False
    with c show ?thesis by (auto simp del: scan_queue.simps)
  qed
qed

text \<open>The level the scheduler serves: the first that is not empty.\<close>

definition best_level :: "'w kernel \<Rightarrow> nat option" where
  "best_level s = find (\<lambda>q. level q s \<noteq> []) [0, 1, 2, 3]"

lemma best_level_Some:
  "best_level s = Some q \<Longrightarrow> q < 4 \<and> level q s \<noteq> [] \<and> (\<forall>r < q. level r s = [])"
  by (auto simp: best_level_def less_Suc_eq numeral_eq_Suc split: if_splits)

lemma best_level_None: "best_level s = None \<Longrightarrow> q < 4 \<Longrightarrow> level q s = []"
  by (auto simp: best_level_def less_Suc_eq numeral_eq_Suc split: if_splits)

lemma best_level_intr_window [simp]: "best_level (intr_window s) = best_level s"
  by (simp add: best_level_def intr_window_def)

lemma scheduler_mlfq_ok:
  assumes "quiet {} s" and "sched_inv s"
  shows "\<exists>c. scheduler_mlfq s =
    Inr (case best_level s of
           None \<Rightarrow> (False, s\<lparr>cpu := c\<rparr>)
         | Some q \<Rightarrow> (True, (run_proc (hd (level q s)) (dequeue_body q s))\<lparr>cpu := c\<rparr>)) \<and>
    hart_ok (case best_level s of None \<Rightarrow> {} | Some q \<Rightarrow> {PLock (hd (level q s))}) c"
  using scan_queues_ok [of "intr_window s" "[0, 1, 2, 3]"] intr_window_ok [OF assms(1)] assms(2)
  by (auto simp: scheduler_mlfq_def best_level_def intr_window_def simp del: find.simps
      cong: option.case_cong)

section \<open>Giving up the processor\<close>

lemma sched_ok:
  assumes "quiet {PLock p} s" and "cproc s = Some p" and "state (procs s ! p) \<noteq> RUNNING"
  shows "\<exists>c. sched s = Inr (s\<lparr>cproc := None, cpu := c\<rparr>) \<and> hart_ok {} c"
proof -
  have "holding (PLock p) (cpu s)" "noff (cpu s) = 1" "\<not> sie (cpu s)"
    using assms(1) by (auto simp: quiet_def hart_ok_def holding_def)
  moreover obtain c where "rel (PLock p) (s\<lparr>cproc := None\<rparr>) = Inr (s\<lparr>cproc := None, cpu := c\<rparr>)"
      "hart_ok ({PLock p} - {PLock p}) c"
    using rel_ok [of "{PLock p}" "s\<lparr>cproc := None\<rparr>" "PLock p"] assms(1) by auto
  ultimately show ?thesis
    using assms by (auto simp: sched_def)
qed

text \<open>What \<open>yield\<close> makes of the process when it gives up the processor.\<close>

definition yielded :: "proc \<Rightarrow> proc" where
  "yielded x =
    (let y = x\<lparr>pticks := pticks x + 1\<rparr>
     in (if time_slice (queue x) \<le> pticks y then demote y else y)\<lparr>state := RUNNABLE\<rparr>)"

definition gives_up :: "nat \<Rightarrow> 'w kernel \<Rightarrow> bool" where
  "gives_up p s \<longleftrightarrow> time_slice (queue (procs s ! p)) \<le> pticks (procs s ! p) + 1 \<or>
     higher_waiting (queue (procs s ! p)) s"

lemma yielded_ok: "proc_ok x \<Longrightarrow> proc_ok (yielded x) \<and> state (yielded x) = RUNNABLE"
  by (auto simp: yielded_def demote_def proc_ok_def time_slice_def Let_def)

lemma higher_waiting_cong [simp]:
  "higher_waiting q (s\<lparr>cpu := c\<rparr>) = higher_waiting q s"
  "higher_waiting q (upd_proc p f s) = higher_waiting q s"
  by (simp_all add: higher_waiting_def)

lemma upd_proc_cong: "f (procs s ! p) = g (procs s ! p) \<Longrightarrow> upd_proc p f s = upd_proc p g s"
  by (simp add: upd_proc_def)

lemma proc_ok_level: "proc_ok x \<Longrightarrow> \<exists>q. queue x = int q \<and> q < 4"
  by (rule exI [of _ "nat (queue x)"]) (auto simp: proc_ok_def)

lemma glance_ok:
  assumes "quiet L s" and "lk \<notin> L"
  shows "\<exists>c c'. acq lk s = Inr (s\<lparr>cpu := c\<rparr>) \<and> rel lk (s\<lparr>cpu := c\<rparr>) = Inr (s\<lparr>cpu := c'\<rparr>) \<and> hart_ok L c'"
proof -
  obtain c where c: "acq lk s = Inr (s\<lparr>cpu := c\<rparr>)" "hart_ok (insert lk L) c"
    using acq_ok [OF assms] by blast
  moreover have "insert lk L - {lk} = L" using assms(2) by auto
  ultimately show ?thesis using rel_ok [of "insert lk L" "s\<lparr>cpu := c\<rparr>" lk] by auto
qed

lemma requeue_ok:
  assumes "quiet {PLock p} s" and "cproc s = Some p" and "queues_wf s" and "queue (procs s ! p) = int q"
    and "q < 4" and "length (level q s) < NPROC" and "state (procs s ! p) = RUNNABLE"
  shows "\<exists>c. seq (enqueue (queue (procs s ! p)) p s) sched =
      Inr ((enqueue_body q p s)\<lparr>cproc := None, cpu := c\<rparr>) \<and> hart_ok {} c"
proof -
  obtain c1 where c1: "enqueue (int q) p s = Inr ((enqueue_body q p s)\<lparr>cpu := c1\<rparr>)" "hart_ok {PLock p} c1"
    using enqueue_ok [OF assms(1) _ assms(3,5,6), of p] by auto
  then show ?thesis
    using sched_ok [of p "(enqueue_body q p s)\<lparr>cpu := c1\<rparr>"] assms(2,4,7) by auto
qed

lemma yield_ok:
  assumes "quiet {} s" and "sched_inv s" and "cproc s = Some p"
  shows "\<exists>c. yield s =
    Inr ((if gives_up p s
          then (enqueue_body (nat (queue (yielded (procs s ! p)))) p (upd_proc p yielded s))
            \<lparr>cproc := None\<rparr>
          else upd_proc p (\<lambda>x. x\<lparr>pticks := pticks x + 1\<rparr>) s)\<lparr>cpu := c\<rparr>) \<and> hart_ok {} c"
proof -
  have p: "p < NPROC" "state (procs s ! p) = RUNNING" and len: "length (procs s) = NPROC"
    and x: "proc_ok (procs s ! p)" and wf: "queues_wf s"
    using assms(2,3) by (auto simp: sched_inv_def running_ok_def)
  let ?x = "procs s ! p" and ?s1 = "upd_proc p (\<lambda>x. x\<lparr>pticks := pticks x + 1\<rparr>) s"
    and ?s2 = "upd_proc p yielded s"
  obtain q where q: "queue (yielded ?x) = int q" "q < 4"
    using proc_ok_level yielded_ok [OF x] by blast
  obtain c1 where c1: "acq (PLock p) s = Inr (s\<lparr>cpu := c1\<rparr>)" "hart_ok {PLock p} c1"
    using acq_ok [OF assms(1)] by auto
  obtain c2 c3 where c2: "acq MlfqLock (?s1\<lparr>cpu := c1\<rparr>) = Inr (?s1\<lparr>cpu := c2\<rparr>)"
      "rel MlfqLock (?s1\<lparr>cpu := c2\<rparr>) = Inr (?s1\<lparr>cpu := c3\<rparr>)" "hart_ok {PLock p} c3"
    using glance_ok [of "{PLock p}" "?s1\<lparr>cpu := c1\<rparr>" MlfqLock] c1(2) by auto
  have tk: "procs ?s1 ! p = ?x\<lparr>pticks := pticks ?x + 1\<rparr>" "procs ?s2 ! p = yielded ?x"
    using p len by (simp_all add: nth_upd_proc)
  obtain c4 where c4: "seq (enqueue (queue (procs ?s2 ! p)) p (?s2\<lparr>cpu := c3\<rparr>)) sched =
      Inr ((enqueue_body q p ?s2)\<lparr>cproc := None, cpu := c4\<rparr>)" "hart_ok {} c4"
    using requeue_ok [of p "?s2\<lparr>cpu := c3\<rparr>" q] c2(3) assms(3) wf q tk(2) yielded_ok [OF x]
      room [OF assms(2) q(2) p(1)] p(2) by auto
  obtain c5 where c5: "rel (PLock p) (?s1\<lparr>cpu := c3\<rparr>) = Inr (?s1\<lparr>cpu := c5\<rparr>)" "hart_ok {} c5"
    using rel_ok [of "{PLock p}" "?s1\<lparr>cpu := c3\<rparr>" "PLock p"] c2(3) by auto
  have expired: "upd_proc p (\<lambda>x. (demote (x\<lparr>pticks := pticks x + 1\<rparr>))\<lparr>state := RUNNABLE\<rparr>) s = ?s2"
    if "time_slice (queue ?x) \<le> pticks ?x + 1"
    using that by (intro upd_proc_cong) (simp add: yielded_def)
  have preempted: "upd_proc p (\<lambda>x. x\<lparr>pticks := pticks x + 1, state := RUNNABLE\<rparr>) s = ?s2"
    if "\<not> time_slice (queue ?x) \<le> pticks ?x + 1"
    using that by (intro upd_proc_cong) (simp add: yielded_def)
  show ?thesis
    using assms(3) c1(1) c2(1,2) c4 c5 tk q expired preempted
    by (auto simp: yield_def gives_up_def Let_def)
qed

lemma sched_inv_yield:
  assumes "sched_inv s" and "cproc s = Some p"
  shows "sched_inv (if gives_up p s
      then (enqueue_body (nat (queue (yielded (procs s ! p)))) p (upd_proc p yielded s))\<lparr>cproc := None\<rparr>
      else upd_proc p (\<lambda>x. x\<lparr>pticks := pticks x + 1\<rparr>) s)"
proof -
  have p: "p < NPROC" "state (procs s ! p) = RUNNING" and x: "proc_ok (procs s ! p)"
    using assms by (auto simp: sched_inv_def running_ok_def)
  obtain q where q: "queue (yielded (procs s ! p)) = int q" "q < 4"
    using proc_ok_level yielded_ok [OF x] by blast
  show ?thesis
    using sched_inv_enqueue [OF assms(1) p(1), of yielded q None] p(2) q yielded_ok [OF x] assms(2)
      sched_inv_upd [OF assms(1) p(1), of "\<lambda>x. x\<lparr>pticks := pticks x + 1\<rparr>"] x
    by (auto simp: gives_up_def proc_ok_def)
qed

end
