(* ===== verification/Kernel_Sched_Ops.thy ===== *)
theory Kernel_Sched_Ops
  imports Kernel_Sched_Inv
begin

text \<open>
  Sleeping, waking, killing and the clock interrupt under the invariant of the scheduler:
  each returns without a panic, leaves the locks as it found them and keeps the invariant,
  and each is given by its effect on the table and on the queues.
\<close>

section \<open>Sleeping\<close>

lemma sched_inv_leave:
  assumes "sched_inv s" and "cproc s = Some p" and "proc_ok (f (procs s ! p))"
    and "state (f (procs s ! p)) \<noteq> RUNNABLE" and "state (f (procs s ! p)) \<noteq> RUNNING"
  shows "sched_inv ((upd_proc p f s)\<lparr>cproc := None\<rparr>)"
proof -
  have "p < NPROC" "state (procs s ! p) = RUNNING"
    using assms(1,2) by (auto simp: sched_inv_def running_ok_def)
  then show ?thesis
    using assms
    by (auto simp: sched_inv_def ready_ok_def running_ok_def nth_upd_proc split: if_splits)
qed

definition asleep :: "channel \<Rightarrow> proc \<Rightarrow> proc" where
  "asleep ch x = x\<lparr>chan := ch, state := SLEEPING, pticks := 0\<rparr>"

lemma sleep_ok:
  assumes "quiet {lk} s" and "sched_inv s" and "cproc s = Some p" and "lk \<noteq> PLock p"
  shows "\<exists>c. sleep ch lk s = Inr ((upd_proc p (asleep ch) s)\<lparr>cproc := None, cpu := c\<rparr>) \<and>
    hart_ok {} c \<and> sched_inv ((upd_proc p (asleep ch) s)\<lparr>cproc := None\<rparr>)"
proof -
  have p: "p < NPROC" and len: "length (procs s) = NPROC" and x: "proc_ok (procs s ! p)"
    using assms(2,3) by (auto simp: sched_inv_def running_ok_def)
  obtain c1 where c1: "acq (PLock p) s = Inr (s\<lparr>cpu := c1\<rparr>)" "hart_ok {PLock p, lk} c1"
    using acq_ok [OF assms(1), of "PLock p"] assms(4) by auto
  obtain c2 where c2: "rel lk (s\<lparr>cpu := c1\<rparr>) = Inr (s\<lparr>cpu := c2\<rparr>)" "hart_ok {PLock p} c2"
    using rel_ok [of "{PLock p, lk}" "s\<lparr>cpu := c1\<rparr>" lk] c1(2) assms(4) by (auto simp: insert_Diff_if)
  obtain c3 where c3: "sched ((upd_proc p (asleep ch) s)\<lparr>cpu := c2\<rparr>) =
      Inr ((upd_proc p (asleep ch) s)\<lparr>cpu := c2, cproc := None, cpu := c3\<rparr>)" "hart_ok {} c3"
    using sched_ok [of p "(upd_proc p (asleep ch) s)\<lparr>cpu := c2\<rparr>"] c2(2) assms(3) p len
    by (auto simp: nth_upd_proc asleep_def)
  have "proc_ok (asleep ch (procs s ! p))"
    using x by (auto simp: proc_ok_def asleep_def time_slice_def)
  then have "sched_inv ((upd_proc p (asleep ch) s)\<lparr>cproc := None\<rparr>)"
    using assms by (intro sched_inv_leave) (auto simp: asleep_def)
  moreover have "asleep ch = (\<lambda>x. x\<lparr>chan := ch, state := SLEEPING, pticks := 0\<rparr>)"
    by (simp add: asleep_def fun_eq_iff)
  ultimately show ?thesis
    using assms(3) c1 c2 c3 by (auto simp: sleep_def)
qed

section \<open>Waking\<close>

lemma cproc_same [simp]: "cproc s = v \<Longrightarrow> s\<lparr>cproc := v\<rparr> = s"
  by auto

definition sleeps_on :: "channel \<Rightarrow> proc \<Rightarrow> bool" where
  "sleeps_on ch x \<longleftrightarrow> state x = SLEEPING \<and> chan x = ch"

definition woken :: "channel \<Rightarrow> proc \<Rightarrow> proc" where
  "woken ch x = (if sleeps_on ch x then x\<lparr>state := RUNNABLE\<rparr> else x)"

lemma make_runnable_ok:
  assumes "quiet L s" and "MlfqLock \<notin> L" and "sched_inv s" and "p < NPROC"
    and "state (procs s ! p) \<noteq> RUNNABLE" and "state (procs s ! p) \<noteq> RUNNING"
  defines "t \<equiv> enqueue_body (nat (queue (procs s ! p))) p (upd_proc p (\<lambda>x. x\<lparr>state := RUNNABLE\<rparr>) s)"
  shows "\<exists>c. make_runnable p s = Inr (t\<lparr>cpu := c\<rparr>) \<and> hart_ok L c" and "sched_inv t"
    and "r < 4 \<Longrightarrow> level r t = (if int r = queue (procs s ! p) then level r s @ [p] else level r s)"
proof -
  have wf: "queues_wf s" and len: "length (procs s) = NPROC" and x: "proc_ok (procs s ! p)"
    using assms(3,4) by (auto simp: sched_inv_def)
  obtain q where q: "queue (procs s ! p) = int q" "q < 4" using proc_ok_level [OF x] by blast
  have full: "length (level q s) < NPROC" using room [OF assms(3) q(2) assms(4)] assms(5) by simp
  show "\<exists>c. make_runnable p s = Inr (t\<lparr>cpu := c\<rparr>) \<and> hart_ok L c"
    using enqueue_ok [of L "upd_proc p (\<lambda>x. x\<lparr>state := RUNNABLE\<rparr>) s" q p] assms(1,2,4) wf full q len
    by (simp add: make_runnable_def t_def nth_upd_proc)
  have "cproc s \<noteq> Some p" using assms(3,4,6) by (auto simp: sched_inv_def running_ok_def)
  then show "sched_inv t"
    using sched_inv_enqueue [OF assms(3,4), of "\<lambda>x. x\<lparr>state := RUNNABLE\<rparr>" q "cproc s"] q assms(5) x
    by (simp add: t_def proc_ok_def)
  show "level r t = (if int r = queue (procs s ! p) then level r s @ [p] else level r s)" if "r < 4"
    using level_enqueue_body [of "upd_proc p (\<lambda>x. x\<lparr>state := RUNNABLE\<rparr>) s" q r p] wf q full that
    by (simp add: t_def)
qed

lemma wakeup_one_ok:
  assumes "quiet L s" and "MlfqLock \<notin> L" and "PLock p \<notin> L" and "sched_inv s" and "p < NPROC"
  defines "t \<equiv> enqueue_body (nat (queue (procs s ! p))) p (upd_proc p (\<lambda>x. x\<lparr>state := RUNNABLE\<rparr>) s)"
  shows "\<exists>c. wakeup_one ch p s =
      Inr ((if sleeps_on ch (procs s ! p) then t else s)\<lparr>cpu := c\<rparr>) \<and> hart_ok L c"
proof (cases "cproc s = Some p")
  case True
  then have "state (procs s ! p) = RUNNING"
    using assms(4,5) by (auto simp: sched_inv_def running_ok_def)
  moreover have "s = s\<lparr>cpu := cpu s\<rparr>" by simp
  ultimately show ?thesis
    using True assms(1) by (auto simp: wakeup_one_def sleeps_on_def quiet_def intro!: exI [of _ "cpu s"])
next
  case False
  let ?t = "if sleeps_on ch (procs s ! p) then t else s"
  have "\<exists>c. with_lock (PLock p) (\<lambda>s.
         if state (procs s ! p) = SLEEPING \<and> chan (procs s ! p) = ch then make_runnable p s
         else Inr s) s = Inr (?t\<lparr>cpu := c\<rparr>) \<and> hart_ok L c"
  proof (rule with_lock_eq [OF assms(1,3)])
    fix c
    assume c: "hart_ok (insert (PLock p) L) c"
    show "\<exists>c'. (if state (procs (s\<lparr>cpu := c\<rparr>) ! p) = SLEEPING \<and> chan (procs (s\<lparr>cpu := c\<rparr>) ! p) = ch
        then make_runnable p (s\<lparr>cpu := c\<rparr>) else Inr (s\<lparr>cpu := c\<rparr>)) = Inr (?t\<lparr>cpu := c'\<rparr>) \<and>
      hart_ok (insert (PLock p) L) c'"
      using make_runnable_ok(1) [of "insert (PLock p) L" "s\<lparr>cpu := c\<rparr>" p] assms(2,4,5) c
      by (auto simp: sleeps_on_def t_def)
  qed
  with False show ?thesis by (simp add: wakeup_one_def)
qed

text \<open>The first \<open>n\<close> passes of \<open>wakeup\<close>.\<close>

definition woken_upto :: "nat \<Rightarrow> channel \<Rightarrow> 'w kernel \<Rightarrow> 'w kernel \<Rightarrow> bool" where
  "woken_upto n ch s s' \<longleftrightarrow>
     procs s' = map (woken ch) (take n (procs s)) @ drop n (procs s) \<and>
     (\<forall>q < 4. level q s' = level q s @
        filter (\<lambda>p. sleeps_on ch (procs s ! p) \<and> queue (procs s ! p) = int q) [0..<n]) \<and>
     cproc s' = cproc s \<and> ticks s' = ticks s \<and> kout s' = kout s \<and> initproc s' = initproc s \<and>
     nextpid s' = nextpid s \<and> world s' = world s"

lemma woken_upto_Suc:
  assumes "woken_upto n ch s s1" and "n < length (procs s)" and "length (procs s) = NPROC"
    and "sched_inv s1"
  defines "t \<equiv> enqueue_body (nat (queue (procs s1 ! n))) n (upd_proc n (\<lambda>x. x\<lparr>state := RUNNABLE\<rparr>) s1)"
  shows "woken_upto (Suc n) ch s (if sleeps_on ch (procs s1 ! n) then t else s1)"
proof -
  have n: "procs s1 ! n = procs s ! n" "n < NPROC"
    using assms(1-3) by (auto simp: woken_upto_def nth_append)
  have lv: "level q t = (if int q = queue (procs s1 ! n) then level q s1 @ [n] else level q s1)"
    if "q < 4" "sleeps_on ch (procs s1 ! n)" for q
  proof -
    have st: "state (procs s1 ! n) = SLEEPING" using that(2) by (simp add: sleeps_on_def)
    obtain r where r: "queue (procs s1 ! n) = int r" "r < 4"
      using queue_level [OF assms(4) n(2)] by blast
    have "length (level r s1) < NPROC" using room [OF assms(4) r(2) n(2)] st by simp
    then show ?thesis
      using level_enqueue_body [of "upd_proc n (\<lambda>x. x\<lparr>state := RUNNABLE\<rparr>) s1" r q n] r that(1) assms(4)
      by (simp add: t_def sched_inv_def)
  qed
  have ps: "procs t = map (woken ch) (take (Suc n) (procs s)) @ drop (Suc n) (procs s)"
    if "sleeps_on ch (procs s1 ! n)"
    using assms(1,2) that n(1)
    by (simp add: t_def woken_upto_def procs_upd_proc list_update_append take_Suc_conv_app_nth
        Cons_nth_drop_Suc [symmetric] woken_def)
  have "procs s1 = map (woken ch) (take (Suc n) (procs s)) @ drop (Suc n) (procs s)"
    if "\<not> sleeps_on ch (procs s1 ! n)"
    using assms(1,2) that n(1)
    by (simp add: woken_upto_def take_Suc_conv_app_nth Cons_nth_drop_Suc [symmetric] woken_def)
  then show ?thesis
    using assms(1) ps lv n by (auto simp: woken_upto_def t_def)
qed

lemma wakeup_ok:
  assumes "quiet L s" and "MlfqLock \<notin> L" and "\<And>p. PLock p \<notin> L" and "sched_inv s"
  shows "\<exists>s'. wakeup ch s = Inr s' \<and> quiet L s' \<and> sched_inv s' \<and> woken_upto NPROC ch s s'"
proof -
  have len: "length (procs s) = NPROC" using assms(4) by (simp add: sched_inv_def)
  have "\<exists>s'. for_each (wakeup_one ch) [0..<n] s = Inr s' \<and> quiet L s' \<and> sched_inv s' \<and>
      woken_upto n ch s s'" if "n \<le> NPROC" for n
    using that
  proof (induction n)
    case 0
    then show ?case using assms by (simp add: woken_upto_def)
  next
    case (Suc n)
    then obtain s1 where s1: "for_each (wakeup_one ch) [0..<n] s = Inr s1" "quiet L s1"
        "sched_inv s1" "woken_upto n ch s s1" by auto
    let ?t = "enqueue_body (nat (queue (procs s1 ! n))) n (upd_proc n (\<lambda>x. x\<lparr>state := RUNNABLE\<rparr>) s1)"
    let ?s2 = "if sleeps_on ch (procs s1 ! n) then ?t else s1"
    obtain c where c: "wakeup_one ch n s1 = Inr (?s2\<lparr>cpu := c\<rparr>)" "hart_ok L c"
      using wakeup_one_ok [OF s1(2) assms(2,3) s1(3)] Suc.prems by (metis Suc_le_lessD)
    have "sched_inv ?s2"
      using make_runnable_ok(2) [OF s1(2) assms(2) s1(3)] Suc.prems s1(3) by (auto simp: sleeps_on_def)
    moreover have "woken_upto (Suc n) ch s ?s2"
      using woken_upto_Suc [OF s1(4) _ len s1(3)] Suc.prems len by simp
    ultimately show ?case
      using s1(1) c by (simp add: for_each_append woken_upto_def)
  qed
  from this [of NPROC] show ?thesis by (simp add: wakeup_def)
qed

section \<open>Killing\<close>

definition victim :: "int \<Rightarrow> 'w kernel \<Rightarrow> nat option" where
  "victim k s = find (\<lambda>p. pid (procs s ! p) = k) [0..<NPROC]"

definition marked :: "nat \<Rightarrow> 'w kernel \<Rightarrow> 'w kernel" where
  "marked p s =
    (let s1 = upd_proc p (\<lambda>x. x\<lparr>killed_flag := 1\<rparr>) s
     in if state (procs s ! p) = SLEEPING
        then enqueue_body (nat (queue (procs s ! p))) p (upd_proc p (\<lambda>x. x\<lparr>state := RUNNABLE\<rparr>) s1)
        else s1)"

lemma marked_cpu: "marked p (s\<lparr>cpu := c\<rparr>) = (marked p s)\<lparr>cpu := c\<rparr>"
  by (simp add: marked_def Let_def)

lemma sched_inv_killed: "sched_inv s \<Longrightarrow> sched_inv (upd_proc p (\<lambda>x. x\<lparr>killed_flag := v\<rparr>) s)"
  by (rule sched_inv_upd_same) simp_all

lemma kill_proc_ok:
  assumes "quiet L s" and "MlfqLock \<notin> L" and "sched_inv s" and "p < NPROC"
  shows "\<exists>c. kill_proc p s = Inr ((marked p s)\<lparr>cpu := c\<rparr>) \<and> hart_ok L c" and "sched_inv (marked p s)"
proof -
  let ?s = "upd_proc p (\<lambda>x. x\<lparr>killed_flag := 1\<rparr>) s"
  have i: "sched_inv ?s" by (rule sched_inv_killed [OF assms(3)])
  have x: "state (procs ?s ! p) = state (procs s ! p)" "queue (procs ?s ! p) = queue (procs s ! p)"
    using assms(3,4) by (auto simp: sched_inv_def nth_upd_proc)
  show "sched_inv (marked p s)"
    using make_runnable_ok(2) [of L ?s p] i x assms by (auto simp: marked_def Let_def)
  show "\<exists>c. kill_proc p s = Inr ((marked p s)\<lparr>cpu := c\<rparr>) \<and> hart_ok L c"
  proof (cases "state (procs s ! p) = SLEEPING")
    case True
    then show ?thesis
      using make_runnable_ok(1) [of L ?s p] i x assms by (auto simp: marked_def kill_proc_def Let_def)
  next
    case False
    have "?s = ?s\<lparr>cpu := cpu s\<rparr>" by (simp add: upd_proc_def)
    with False show ?thesis
      using x assms(1) by (auto simp: marked_def kill_proc_def Let_def quiet_def intro!: exI [of _ "cpu s"])
  qed
qed

lemma kkill_loop_ok:
  assumes "quiet L s" and "MlfqLock \<notin> L" and "\<And>p. PLock p \<notin> L" and "sched_inv s"
    and "set ps \<subseteq> {..<NPROC}"
  shows "\<exists>c. kkill_loop ps k s =
      Inr (case find (\<lambda>p. pid (procs s ! p) = k) ps of None \<Rightarrow> (-1, s\<lparr>cpu := c\<rparr>)
           | Some p \<Rightarrow> (0, (marked p s)\<lparr>cpu := c\<rparr>)) \<and> hart_ok L c"
  using assms(1,4,5)
proof (induction ps arbitrary: s)
  case Nil
  then show ?case by (auto simp: quiet_def intro!: exI [of _ "cpu s"])
next
  case (Cons p ps)
  obtain c1 where c1: "acq (PLock p) s = Inr (s\<lparr>cpu := c1\<rparr>)" "hart_ok (insert (PLock p) L) c1"
    using acq_ok [OF Cons.prems(1) assms(3)] by blast
  have L: "insert (PLock p) L - {PLock p} = L" using assms(3) by auto
  show ?case
  proof (cases "pid (procs s ! p) = k")
    case True
    obtain c2 where c2: "kill_proc p (s\<lparr>cpu := c1\<rparr>) = Inr ((marked p s)\<lparr>cpu := c2\<rparr>)"
        "hart_ok (insert (PLock p) L) c2"
      using kill_proc_ok(1) [of "insert (PLock p) L" "s\<lparr>cpu := c1\<rparr>" p] c1 Cons.prems assms(2)
      by (auto simp: marked_cpu)
    then obtain c3 where "rel (PLock p) ((marked p s)\<lparr>cpu := c2\<rparr>) = Inr ((marked p s)\<lparr>cpu := c3\<rparr>)"
        "hart_ok L c3"
      using rel_ok [of "insert (PLock p) L" "(marked p s)\<lparr>cpu := c2\<rparr>" "PLock p"] L by auto
    with c1 c2 True show ?thesis by auto
  next
    case False
    obtain c2 where c2: "rel (PLock p) (s\<lparr>cpu := c1\<rparr>) = Inr (s\<lparr>cpu := c2\<rparr>)" "hart_ok L c2"
      using rel_ok [of "insert (PLock p) L" "s\<lparr>cpu := c1\<rparr>" "PLock p"] c1 L by auto
    with c1 False show ?thesis
      using Cons.IH [of "s\<lparr>cpu := c2\<rparr>"] Cons.prems
      by (auto simp: marked_cpu cong: option.case_cong)
  qed
qed

lemma kkill_ok:
  assumes "quiet L s" and "MlfqLock \<notin> L" and "\<And>p. PLock p \<notin> L" and "sched_inv s"
  shows "\<exists>c. kkill k s = Inr (case victim k s of None \<Rightarrow> (-1, s\<lparr>cpu := c\<rparr>)
           | Some p \<Rightarrow> (0, (marked p s)\<lparr>cpu := c\<rparr>)) \<and> hart_ok L c"
  using kkill_loop_ok [OF assms, of "[0..<NPROC]" k] by (simp add: kkill_def victim_def lessThan_atLeast0)

section \<open>The clock\<close>

definition plot :: "32 word \<Rightarrow> proc \<Rightarrow> kmsg list" where
  "plot t x = (if pid x > 2 \<and> state x \<noteq> UNUSED \<and> state x \<noteq> ZOMBIE
     then [Mlfq_plot t (pid x) (queue x)] else [])"

lemma account_same [simp]:
  "state (account x) = state x" "queue (account x) = queue x" "pticks (account x) = pticks x"
  "pid (account x) = pid x" "chan (account x) = chan x"
  by (simp_all add: account_def)

definition accounted :: "'w kernel \<Rightarrow> 'w kernel" where
  "accounted s = s\<lparr>procs := map account (procs s),
     kout := kout s @ concat (map (\<lambda>x. plot (ticks s) (account x)) (procs s))\<rparr>"

lemma update_time_ok:
  assumes "quiet L s" and "\<And>p. PLock p \<notin> L" and "length (procs s) = NPROC"
  shows "\<exists>c. update_time s = Inr ((accounted s)\<lparr>cpu := c\<rparr>) \<and> hart_ok L c"
proof -
  let ?body = "\<lambda>p s. let s = upd_proc p account s; x = procs s ! p
     in Inr (if pid x > 2 \<and> state x \<noteq> UNUSED \<and> state x \<noteq> ZOMBIE
             then s\<lparr>kout := kout s @ [Mlfq_plot (ticks s) (pid x) (queue x)]\<rparr> else s)"
  have u: "update_time_one = (\<lambda>p. with_lock (PLock p) (?body p))"
    by (simp add: update_time_one_def fun_eq_iff)
  have b: "?body p t = Inr ((upd_proc p account t)\<lparr>kout := kout t @ plot (ticks t) (account (procs t ! p))\<rparr>)"
    if "p < length (procs t)" for p and t :: "'a kernel"
    using that by (simp add: plot_def Let_def nth_upd_proc upd_proc_def)
  show ?thesis
    using for_each_proc_out [OF assms(1,2) _ b, of NPROC] assms(3)
    by (simp add: update_time_def accounted_def u)
qed

lemma sched_inv_accounted: "sched_inv s \<Longrightarrow> sched_inv (accounted s)"
  by (auto simp: accounted_def sched_inv_def ready_ok_def running_ok_def proc_ok_def)

lemma sched_inv_boosted:
  assumes "sched_inv s"
  shows "sched_inv (boosted s)"
proof -
  have wf: "queues_wf s" and fit: "length (queued s) \<le> NPROC"
    using assms queued_fits by (auto simp: sched_inv_def)
  have len: "length (procs s) = NPROC" and run: "running_ok s"
    using assms by (auto simp: sched_inv_def)
  have mem: "p \<in> set (queued s) \<longleftrightarrow> p < NPROC \<and> state (procs s ! p) = RUNNABLE" for p
    using assms queue_level [OF assms, of p]
    by (auto simp: queued_def sched_inv_def ready_ok_def less_Suc_eq numeral_eq_Suc)
  have lv: "level q (boosted s) = (if q = 0 then queued s else [])" if "q < 4" for q
    using boosted_queues [OF wf fit] that by simp
  have nth: "procs (boosted s) ! p = reset_priority (procs s ! p)" if "p < NPROC" for p
    using len that by (simp add: boosted_frame)
  have "ready_ok (boosted s)"
    using lv mem nth queued_distinct [OF assms] by (auto simp: ready_ok_def reset_priority_def)
  moreover have "running_ok (boosted s)"
    using run nth by (auto simp: running_ok_def boosted_frame(2) reset_priority_def)
  ultimately show ?thesis
    using boosted_queues(1) [OF wf fit] nth len
    by (simp add: sched_inv_def boosted_frame(1) proc_ok_def reset_priority_def time_slice_def)
qed

text \<open>What a clock interrupt does: the clock advances, every process is accounted, the processes
  sleeping on the clock are woken, and every 48th tick the priorities are boosted.\<close>

lemma sched_inv_ticks [simp]: "sched_inv (s\<lparr>ticks := t\<rparr>) = sched_inv s"
  by (simp add: sched_inv_def ready_ok_def running_ok_def)

lemma clockintr_ok:
  assumes "quiet L s" and "MlfqLock \<notin> L" and "\<And>p. PLock p \<notin> L" and "TicksLock \<notin> L" and "sched_inv s"
  shows "\<exists>s1 c. woken_upto NPROC TicksChan (accounted (s\<lparr>ticks := ticks s + 1\<rparr>)) s1 \<and> sched_inv s1 \<and>
    clockintr s = Inr ((if (ticks s + 1) mod 48 = 0 then boosted s1 else s1)\<lparr>cpu := c\<rparr>) \<and> hart_ok L c"
proof -
  let ?s0 = "s\<lparr>ticks := ticks s + 1\<rparr>" and ?L = "insert TicksLock L"
  obtain c0 where c0: "acq TicksLock s = Inr (s\<lparr>cpu := c0\<rparr>)" "hart_ok ?L c0"
    using acq_ok [OF assms(1,4)] by blast
  obtain c1 where c1: "update_time (?s0\<lparr>cpu := c0\<rparr>) = Inr ((accounted ?s0)\<lparr>cpu := c1\<rparr>)" "hart_ok ?L c1"
    using update_time_ok [of ?L "?s0\<lparr>cpu := c0\<rparr>"] c0(2) assms(3,5)
    by (auto simp: accounted_def sched_inv_def)
  obtain s2 where s2: "wakeup TicksChan ((accounted ?s0)\<lparr>cpu := c1\<rparr>) = Inr s2" "quiet ?L s2"
      "sched_inv s2" "woken_upto NPROC TicksChan (accounted ?s0) s2"
    using wakeup_ok [of ?L "(accounted ?s0)\<lparr>cpu := c1\<rparr>" TicksChan] c1(2) assms(2,3,5)
      sched_inv_accounted [of ?s0] by (auto simp: woken_upto_def)
  have "?L - {TicksLock} = L" using assms(4) by auto
  then obtain c3 where c3: "rel TicksLock s2 = Inr (s2\<lparr>cpu := c3\<rparr>)" "hart_ok L c3"
    using rel_ok [OF s2(2), of TicksLock] by auto
  have lock: "with_lock TicksLock (\<lambda>s. let s = s\<lparr>ticks := ticks s + 1\<rparr>
      in seq (update_time s) (wakeup TicksChan)) s = Inr (s2\<lparr>cpu := c3\<rparr>)"
    using c0 c1 s2 c3 by (simp add: with_lock_def Let_def)
  have tk: "ticks s2 = ticks s + 1" using s2(4) by (simp add: woken_upto_def accounted_def)
  have bc: "boosted (s2\<lparr>cpu := c\<rparr>) = (boosted s2)\<lparr>cpu := c\<rparr>" for c
    by (simp add: boosted_def fold_enqueue_cpu)
  obtain c4 where "boost_priority (s2\<lparr>cpu := c3\<rparr>) = Inr ((boosted s2)\<lparr>cpu := c4\<rparr>)" "hart_ok L c4"
    using boost_priority_ok [of L "s2\<lparr>cpu := c3\<rparr>"] c3(2) assms(2,3) queued_fits [OF s2(3)] s2(3)
    by (auto simp: bc queued_def sched_inv_def)
  then show ?thesis
    using s2(3,4) lock c3(2) tk by (auto simp: clockintr_def)
qed

section \<open>Resuming a process\<close>

lemma resume_ok:
  assumes "quiet {PLock p} s"
  shows "\<exists>c. resume ie p s = Inr (s\<lparr>cpu := c\<rparr>) \<and> hart_ok {} c \<and> sie c = ie"
  using release_ok [of "{PLock p}" "(cpu s)\<lparr>intena := ie\<rparr>" "PLock p"] assms
  by (auto simp: resume_def rel_def quiet_def hart_ok_def)

lemma sleep_return_ok:
  assumes "quiet {PLock p} s"
  shows "\<exists>c. sleep_return ie p lk s = Inr ((upd_proc p (\<lambda>x. x\<lparr>chan := NoChan\<rparr>) s)\<lparr>cpu := c\<rparr>) \<and>
    hart_ok {lk} c \<and> intena c = ie"
proof -
  let ?s = "upd_proc p (\<lambda>x. x\<lparr>chan := NoChan\<rparr>) s"
  obtain c1 where c1: "release (PLock p) ((cpu s)\<lparr>intena := ie\<rparr>) = Inr c1" "hart_ok {} c1" "sie c1 = ie"
    using release_ok [of "{PLock p}" "(cpu s)\<lparr>intena := ie\<rparr>" "PLock p"] assms
    by (auto simp: quiet_def hart_ok_def)
  then show ?thesis
    using acquire_ok [OF c1(2), of lk] by (auto simp: sleep_return_def Let_def rel_def acq_def)
qed

lemma killed_ok:
  assumes "quiet L s" and "PLock p \<notin> L"
  shows "\<exists>c. killed p s = Inr (killed_flag (procs s ! p), s\<lparr>cpu := c\<rparr>) \<and> hart_ok L c"
proof -
  obtain c1 where c1: "acq (PLock p) s = Inr (s\<lparr>cpu := c1\<rparr>)" "hart_ok (insert (PLock p) L) c1"
    using acq_ok [OF assms] by blast
  have "insert (PLock p) L - {PLock p} = L" using assms by auto
  then show ?thesis
    using rel_ok [of "insert (PLock p) L" "s\<lparr>cpu := c1\<rparr>" "PLock p"] c1 by (auto simp: killed_def)
qed

end
