(* ===== verification/Kernel_Proc.thy ===== *)
theory Kernel_Proc
  imports Kernel_Sched_Ops
begin

text \<open>
  The life of a process: \<open>procinit\<close>, \<open>allocpid\<close>, \<open>allocproc\<close>, \<open>freeproc\<close>, \<open>userinit\<close>,
  \<open>growproc\<close>, \<open>kfork\<close>, \<open>reparent\<close>, \<open>kexit\<close> and \<open>kwait\<close> of
  \<^verbatim>\<open>xv6/kernel/proc.c\<close>.

  The calls into the memory and file code work on the field \<open>world\<close> and are the fields of
  \<open>env\<close>.  A call that may sleep (\<open>fileclose\<close>, \<open>begin_op\<close>, \<open>iput\<close>, \<open>end_op\<close>) ends the
  definition it stands in: \<open>kexit_files\<close> is \<open>kexit\<close> up to \<open>acquire(&wait_lock)\<close>, and
  \<open>kexit_last\<close> the rest, which does not sleep.
\<close>

section \<open>Calls into memory and files\<close>

record 'w env =
  kalloc_op :: "'w \<Rightarrow> 64 word \<times> 'w"
  kfree_op :: "64 word \<Rightarrow> 'w \<Rightarrow> 'w"
  proc_pagetable_op :: "64 word \<Rightarrow> 'w \<Rightarrow> 64 word \<times> 'w"
  proc_freepagetable_op :: "64 word \<Rightarrow> 64 word \<Rightarrow> 'w \<Rightarrow> 'w"
  uvmalloc_op :: "64 word \<Rightarrow> 64 word \<Rightarrow> 64 word \<Rightarrow> 'w \<Rightarrow> 64 word \<times> 'w"
  uvmdealloc_op :: "64 word \<Rightarrow> 64 word \<Rightarrow> 64 word \<Rightarrow> 'w \<Rightarrow> 64 word \<times> 'w"
  uvmcopy_op :: "64 word \<Rightarrow> 64 word \<Rightarrow> 64 word \<Rightarrow> 'w \<Rightarrow> int \<times> 'w"
  copy_trapframe_op :: "64 word \<Rightarrow> 64 word \<Rightarrow> 'w \<Rightarrow> 'w"
  filedup_op :: "nat \<Rightarrow> 'w \<Rightarrow> nat \<times> 'w"
  fileclose_op :: "nat \<Rightarrow> 'w \<Rightarrow> 'w"
  idup_op :: "nat option \<Rightarrow> 'w \<Rightarrow> nat option \<times> 'w"
  iput_op :: "nat option \<Rightarrow> 'w \<Rightarrow> 'w"
  begin_op_op :: "'w \<Rightarrow> 'w"
  end_op_op :: "'w \<Rightarrow> 'w"
  namei_op :: "string \<Rightarrow> 'w \<Rightarrow> nat option \<times> 'w"
  copyout_op :: "64 word \<Rightarrow> 64 word \<Rightarrow> int \<Rightarrow> 'w \<Rightarrow> int \<times> 'w"

definition on_world :: "('w \<Rightarrow> 'w) \<Rightarrow> 'w kernel \<Rightarrow> 'w kernel" where
  "on_world f s = s\<lparr>world := f (world s)\<rparr>"

definition call_world :: "('w \<Rightarrow> 'r \<times> 'w) \<Rightarrow> 'w kernel \<Rightarrow> 'r \<times> 'w kernel" where
  "call_world f s = (case f (world s) of (r, w) \<Rightarrow> (r, s\<lparr>world := w\<rparr>))"

section \<open>Allocation\<close>

definition PGSIZE :: "64 word" where "PGSIZE = 4096"
definition MAXVA :: "64 word" where "MAXVA = 274877906944"
definition TRAMPOLINE :: "64 word" where "TRAMPOLINE = MAXVA - PGSIZE"
definition TRAPFRAME :: "64 word" where "TRAPFRAME = TRAMPOLINE - PGSIZE"

definition KSTACK :: "nat \<Rightarrow> 64 word" where
  "KSTACK p = TRAMPOLINE - (of_nat p + 1) * 2 * PGSIZE"

definition procinit :: "'w kernel \<Rightarrow> 'w kernel" where
  "procinit s = s\<lparr>procs := map (\<lambda>p. (procs s ! p)\<lparr>state := UNUSED, kstack := KSTACK p\<rparr>) [0..<NPROC]\<rparr>"

definition allocpid :: "'w kernel \<Rightarrow> (int \<times> 'w kernel) res" where
  "allocpid s = seq (acq PidLock s) (\<lambda>s.
     let pid = nextpid s; s = s\<lparr>nextpid := nextpid s + 1\<rparr>
     in seq (rel PidLock s) (\<lambda>s. Inr (pid, s)))"

fun find_unused :: "nat list \<Rightarrow> 'w kernel \<Rightarrow> (nat option \<times> 'w kernel) res" where
  "find_unused [] s = Inr (None, s)"
| "find_unused (p # ps) s =
    seq (acq (PLock p) s) (\<lambda>s.
      if state (procs s ! p) = UNUSED then Inr (Some p, s)
      else seq (rel (PLock p) s) (find_unused ps))"

definition freeproc :: "'w env \<Rightarrow> nat \<Rightarrow> 'w kernel \<Rightarrow> 'w kernel" where
  "freeproc e p s =
    (let x = procs s ! p;
         s = (if trapframe x \<noteq> 0 then on_world (kfree_op e (trapframe x)) s else s);
         s = (if pagetable x \<noteq> 0 then on_world (proc_freepagetable_op e (pagetable x) (sz x)) s else s)
     in upd_proc p (\<lambda>x. x\<lparr>trapframe := 0, pagetable := 0, sz := 0, pid := 0, pname := [], chan := NoChan,
          killed_flag := 0, xstate := 0, state := UNUSED\<rparr>) s)"

definition fresh :: "32 word \<Rightarrow> int \<Rightarrow> proc \<Rightarrow> proc" where
  "fresh t i x = x\<lparr>pid := i, state := USED, creation_time := ucast t, ctime := ucast t, rtime := 0,
     etime := 0, iotime := 0, first_run_time := 0, queue := 0, pticks := 0\<rparr>"

definition allocproc :: "64 word \<Rightarrow> 'w env \<Rightarrow> 'w kernel \<Rightarrow> (nat option \<times> 'w kernel) res" where
  "allocproc forkret e s =
    seq (find_unused [0..<NPROC] s) (\<lambda>(r, s).
      case r of None \<Rightarrow> Inr (None, s)
      | Some p \<Rightarrow>
        seq (allocpid s) (\<lambda>(i, s).
          let s = upd_proc p (fresh (ticks s) i) s;
              (tf, s) = call_world (kalloc_op e) s;
              s = upd_proc p (\<lambda>x. x\<lparr>trapframe := tf\<rparr>) s
          in if tf = 0 then seq (rel (PLock p) (freeproc e p s)) (\<lambda>s. Inr (None, s))
             else
               let (pt, s) = call_world (proc_pagetable_op e tf) s;
                   s = upd_proc p (\<lambda>x. x\<lparr>pagetable := pt\<rparr>) s
               in if pt = 0 then seq (rel (PLock p) (freeproc e p s)) (\<lambda>s. Inr (None, s))
                  else Inr (Some p, upd_proc p (\<lambda>x. x\<lparr>pcontext :=
                         \<lparr>ra = forkret, sp = kstack x + PGSIZE, saved = replicate 12 0\<rparr>\<rparr>) s)))"

definition userinit :: "64 word \<Rightarrow> 'w env \<Rightarrow> 'w kernel \<Rightarrow> 'w kernel res" where
  "userinit forkret e s =
    seq (allocproc forkret e s) (\<lambda>(r, s).
      case r of None \<Rightarrow> Inl ''userinit: null process''
      | Some p \<Rightarrow>
        let s = s\<lparr>initproc := Some p\<rparr>;
            (ip, s) = call_world (namei_op e ''/'') s;
            s = upd_proc p (\<lambda>x. x\<lparr>cwd := ip\<rparr>) s;
            s = upd_proc p (\<lambda>x. x\<lparr>state := RUNNABLE\<rparr>) s
        in seq (enqueue (queue (procs s ! p)) p s) (rel (PLock p)))"

definition growproc :: "'w env \<Rightarrow> int \<Rightarrow> nat \<Rightarrow> 'w kernel \<Rightarrow> int \<times> 'w kernel" where
  "growproc e n p s =
    (let x = procs s ! p; sz0 = sz x
     in if n > 0 then
          if sz0 + of_int n > TRAPFRAME then (-1, s)
          else case call_world (uvmalloc_op e (pagetable x) sz0 (sz0 + of_int n)) s of (sz1, s) \<Rightarrow>
                 if sz1 = 0 then (-1, s) else (0, upd_proc p (\<lambda>x. x\<lparr>sz := sz1\<rparr>) s)
        else if n < 0 then
          case call_world (uvmdealloc_op e (pagetable x) sz0 (sz0 + of_int n)) s of (sz1, s) \<Rightarrow>
            (0, upd_proc p (\<lambda>x. x\<lparr>sz := sz1\<rparr>) s)
        else (0, upd_proc p (\<lambda>x. x\<lparr>sz := sz0\<rparr>) s))"

section \<open>Fork\<close>

fun dup_files :: "'w env \<Rightarrow> nat option list \<Rightarrow> nat option list \<Rightarrow> 'w \<Rightarrow> nat option list \<times> 'w" where
  "dup_files e (Some f # fs) (_ # gs) w =
    (let (g, w) = filedup_op e f w; (gs, w) = dup_files e fs gs w in (Some g # gs, w))"
| "dup_files e (None # fs) (g # gs) w = (let (gs, w) = dup_files e fs gs w in (g # gs, w))"
| "dup_files e _ gs w = (gs, w)"

text \<open>The string \<open>safestrcpy\<close> leaves in a buffer of \<open>n\<close> bytes.\<close>

definition name_copy :: "string \<Rightarrow> nat \<Rightarrow> string" where
  "name_copy s n = take (n - 1) s"

text \<open>What the child gets from the parent after its memory.\<close>

definition kfork_copy :: "'w env \<Rightarrow> nat \<Rightarrow> nat \<Rightarrow> 'w kernel \<Rightarrow> 'w kernel" where
  "kfork_copy e p np s =
     (let s = upd_proc np (\<lambda>x. x\<lparr>sz := sz (procs s ! p)\<rparr>) s;
          s = on_world (copy_trapframe_op e (trapframe (procs s ! np)) (trapframe (procs s ! p))) s;
          (fs, s) = call_world (dup_files e (ofile (procs s ! p)) (ofile (procs s ! np))) s;
          s = upd_proc np (\<lambda>x. x\<lparr>ofile := fs\<rparr>) s;
          (cd, s) = call_world (idup_op e (cwd (procs s ! p))) s;
          s = upd_proc np (\<lambda>x. x\<lparr>cwd := cd\<rparr>) s
      in upd_proc np (\<lambda>x. x\<lparr>pname := name_copy (pname (procs s ! p)) 16\<rparr>) s)"

definition kfork :: "64 word \<Rightarrow> 'w env \<Rightarrow> nat \<Rightarrow> 'w kernel \<Rightarrow> (int \<times> 'w kernel) res" where
  "kfork forkret e p s =
    seq (allocproc forkret e s) (\<lambda>(r, s).
      case r of None \<Rightarrow> Inr (-1, s)
      | Some np \<Rightarrow>
        let (c, s) = call_world (uvmcopy_op e (pagetable (procs s ! p)) (pagetable (procs s ! np))
                       (sz (procs s ! p))) s
        in if c < 0 then seq (rel (PLock np) (freeproc e np s)) (\<lambda>s. Inr (-1, s))
           else
             let s = kfork_copy e p np s; i = pid (procs s ! np)
             in seq (rel (PLock np) s) (\<lambda>s.
                seq (with_lock WaitLock (\<lambda>s. Inr (upd_proc np (\<lambda>x. x\<lparr>parent := Some p\<rparr>) s)) s) (\<lambda>s.
                seq (with_lock (PLock np) (make_runnable np) s) (\<lambda>s. Inr (i, s)))))"

section \<open>Exit\<close>

text \<open>The channel a pointer to a process is.\<close>

definition proc_chan :: "nat option \<Rightarrow> channel" where
  "proc_chan r = (case r of None \<Rightarrow> NoChan | Some p \<Rightarrow> ProcChan p)"

definition reparent_one :: "nat \<Rightarrow> nat \<Rightarrow> 'w kernel \<Rightarrow> 'w kernel res" where
  "reparent_one p pp s =
    (if parent (procs s ! pp) = Some p
     then let s = upd_proc pp (\<lambda>x. x\<lparr>parent := initproc s\<rparr>) s in wakeup (proc_chan (initproc s)) s
     else Inr s)"

definition reparent :: "nat \<Rightarrow> 'w kernel \<Rightarrow> 'w kernel res" where
  "reparent p = for_each (reparent_one p) [0..<NPROC]"

fun close_files :: "'w env \<Rightarrow> nat option list \<Rightarrow> 'w \<Rightarrow> 'w" where
  "close_files e [] w = w"
| "close_files e (None # fs) w = close_files e fs w"
| "close_files e (Some f # fs) w = close_files e fs (fileclose_op e f w)"

definition kexit_files :: "'w env \<Rightarrow> nat \<Rightarrow> 'w kernel \<Rightarrow> 'w kernel res" where
  "kexit_files e p s =
    (if initproc s = Some p then Inl ''init exiting''
     else
       let s = on_world (close_files e (ofile (procs s ! p))) s;
           s = upd_proc p (\<lambda>x. x\<lparr>ofile := map (\<lambda>_. None) (ofile x)\<rparr>) s;
           s = on_world (\<lambda>w. end_op_op e (iput_op e (cwd (procs s ! p)) (begin_op_op e w))) s
       in Inr (upd_proc p (\<lambda>x. x\<lparr>cwd := None\<rparr>) s))"

text \<open>The line \<open>kexit\<close> prints: the differences of 64-bit times cut to \<open>int\<close>.\<close>

definition to_int :: "64 word \<Rightarrow> int" where
  "to_int w = sint (ucast w :: 32 word)"

definition metrics :: "proc \<Rightarrow> kmsg list" where
  "metrics x =
    (if pid x > 2 then
       let turnaround = to_int (etime x - creation_time x);
           waiting = to_int (word_of_int turnaround - rtime x - iotime x);
           response = to_int (first_run_time x - creation_time x)
       in [Metrics (pid x) turnaround waiting response]
     else [])"

definition zombify :: "int \<Rightarrow> 32 word \<Rightarrow> proc \<Rightarrow> proc" where
  "zombify status t x = x\<lparr>xstate := status, state := ZOMBIE, etime := ucast t\<rparr>"

definition kexit_last :: "int \<Rightarrow> nat \<Rightarrow> 'w kernel \<Rightarrow> 'w kernel res" where
  "kexit_last status p s =
    seq (acq WaitLock s) (\<lambda>s.
    seq (reparent p s) (\<lambda>s.
    seq (wakeup (proc_chan (parent (procs s ! p))) s) (\<lambda>s.
    seq (acq (PLock p) s) (\<lambda>s.
      let s = upd_proc p (zombify status (ticks s)) s;
          s = s\<lparr>kout := kout s @ metrics (procs s ! p)\<rparr>
      in seq (rel WaitLock s) sched))))"

section \<open>Wait\<close>

text \<open>
  One pass of the \<open>for (;;)\<close> loop of \<open>kwait\<close>, entered with \<open>wait_lock\<close> held: it returns a
  result with the lock released, or goes to sleep.
\<close>

datatype wait_scan = Reaped int | Kids bool

fun kwait_scan :: "'w env \<Rightarrow> 64 word \<Rightarrow> nat \<Rightarrow> nat list \<Rightarrow> bool \<Rightarrow> 'w kernel \<Rightarrow> (wait_scan \<times> 'w kernel) res" where
  "kwait_scan e addr p [] havekids s = Inr (Kids havekids, s)"
| "kwait_scan e addr p (pp # pps) havekids s =
    (if parent (procs s ! pp) = Some p then
       seq (acq (PLock pp) s) (\<lambda>s.
         if state (procs s ! pp) = ZOMBIE then
           let i = pid (procs s ! pp);
               (c, s) = (if addr \<noteq> 0
                         then call_world (copyout_op e (pagetable (procs s ! p)) addr (xstate (procs s ! pp))) s
                         else (0, s))
           in if c < 0 then
                seq (rel (PLock pp) s) (\<lambda>s. seq (rel WaitLock s) (\<lambda>s. Inr (Reaped (-1), s)))
              else
                let s = freeproc e pp (upd_proc pp (\<lambda>x. x\<lparr>parent := None\<rparr>) s)
                in seq (rel (PLock pp) s) (\<lambda>s. seq (rel WaitLock s) (\<lambda>s. Inr (Reaped i, s)))
         else seq (rel (PLock pp) s) (kwait_scan e addr p pps True))
     else kwait_scan e addr p pps havekids s)"

definition kwait_pass :: "'w env \<Rightarrow> 64 word \<Rightarrow> nat \<Rightarrow> 'w kernel \<Rightarrow> (int option \<times> 'w kernel) res" where
  "kwait_pass e addr p s =
    seq (kwait_scan e addr p [0..<NPROC] False s) (\<lambda>(r, s).
      case r of Reaped i \<Rightarrow> Inr (Some i, s)
      | Kids havekids \<Rightarrow>
          seq (if havekids then killed p s else Inr (1, s)) (\<lambda>(k, s).
            if k \<noteq> 0 then seq (rel WaitLock s) (\<lambda>s. Inr (Some (-1), s))
            else seq (sleep (ProcChan p) WaitLock s) (\<lambda>s. Inr (None, s))))"

definition kwait_start :: "'w env \<Rightarrow> 64 word \<Rightarrow> nat \<Rightarrow> 'w kernel \<Rightarrow> (int option \<times> 'w kernel) res" where
  "kwait_start e addr p s = seq (acq WaitLock s) (kwait_pass e addr p)"

end
