(* ===== verification/Kernel_Proc_Inv.thy ===== *)
theory Kernel_Proc_Inv
  imports Kernel_Proc
begin

text \<open>
  The operations on the life of a process under the invariant of the scheduler: what each
  does to the table, that it gives its locks back and that it does not panic.
\<close>

section \<open>Normal form of updates\<close>

lemma world_last [simp]:
  "s\<lparr>world := w, procs := x_procs\<rparr> = s\<lparr>procs := x_procs, world := w\<rparr>"
  "s\<lparr>world := w, cproc := x_cproc\<rparr> = s\<lparr>cproc := x_cproc, world := w\<rparr>"
  "s\<lparr>world := w, ticks := x_ticks\<rparr> = s\<lparr>ticks := x_ticks, world := w\<rparr>"
  "s\<lparr>world := w, qcount := x_qcount\<rparr> = s\<lparr>qcount := x_qcount, world := w\<rparr>"
  "s\<lparr>world := w, mlfq := x_mlfq\<rparr> = s\<lparr>mlfq := x_mlfq, world := w\<rparr>"
  "s\<lparr>world := w, initproc := x_initproc\<rparr> = s\<lparr>initproc := x_initproc, world := w\<rparr>"
  "s\<lparr>world := w, nextpid := x_nextpid\<rparr> = s\<lparr>nextpid := x_nextpid, world := w\<rparr>"
  "s\<lparr>world := w, kout := x_kout\<rparr> = s\<lparr>kout := x_kout, world := w\<rparr>"
  by simp_all

lemma upd_proc_world [simp]:
  "upd_proc p f (s\<lparr>world := w\<rparr>) = (upd_proc p f s)\<lparr>world := w\<rparr>"
  "upd_proc p f (s\<lparr>nextpid := n\<rparr>) = (upd_proc p f s)\<lparr>nextpid := n\<rparr>"
  "upd_proc p f (s\<lparr>initproc := i\<rparr>) = (upd_proc p f s)\<lparr>initproc := i\<rparr>"
  "upd_proc p f (s\<lparr>kout := k\<rparr>) = (upd_proc p f s)\<lparr>kout := k\<rparr>"
  by (simp_all add: upd_proc_def)

lemma sched_inv_frame [simp]:
  "sched_inv (s\<lparr>world := w\<rparr>) = sched_inv s" "sched_inv (s\<lparr>nextpid := n\<rparr>) = sched_inv s"
  "sched_inv (s\<lparr>initproc := i\<rparr>) = sched_inv s" "sched_inv (s\<lparr>kout := k\<rparr>) = sched_inv s"
  "sched_inv (s\<lparr>kout := k, cproc := r\<rparr>) = sched_inv (s\<lparr>cproc := r\<rparr>)"
  by (simp_all add: sched_inv_def ready_ok_def running_ok_def)

lemma on_world_cpu: "on_world f (s\<lparr>cpu := c\<rparr>) = (on_world f s)\<lparr>cpu := c\<rparr>"
  by (simp add: on_world_def)

section \<open>Allocation and release of a slot\<close>

lemma find_unused_ok:
  assumes "\<And>p. PLock p \<notin> L"
  shows "quiet L s \<Longrightarrow> \<exists>c. find_unused ps s =
      Inr (find (\<lambda>p. state (procs s ! p) = UNUSED) ps, s\<lparr>cpu := c\<rparr>) \<and>
    hart_ok (case find (\<lambda>p. state (procs s ! p) = UNUSED) ps of None \<Rightarrow> L
       | Some p \<Rightarrow> insert (PLock p) L) c"
proof (induction ps arbitrary: s)
  case Nil
  then show ?case by (auto simp: quiet_def intro!: exI [of _ "cpu s"])
next
  case (Cons p ps)
  obtain c1 where c1: "acq (PLock p) s = Inr (s\<lparr>cpu := c1\<rparr>)" "hart_ok (insert (PLock p) L) c1"
    using acq_ok [OF Cons.prems assms] by blast
  have "insert (PLock p) L - {PLock p} = L" using assms by auto
  then obtain c2 where c2: "rel (PLock p) (s\<lparr>cpu := c1\<rparr>) = Inr (s\<lparr>cpu := c2\<rparr>)" "hart_ok L c2"
    using rel_ok [of "insert (PLock p) L" "s\<lparr>cpu := c1\<rparr>" "PLock p"] c1(2) by auto
  show ?case using c1 c2 Cons.IH [of "s\<lparr>cpu := c2\<rparr>"] by auto
qed

lemma allocpid_ok:
  assumes "quiet L s" and "PidLock \<notin> L"
  shows "\<exists>c. allocpid s = Inr (nextpid s, s\<lparr>nextpid := nextpid s + 1, cpu := c\<rparr>) \<and> hart_ok L c"
proof -
  obtain c1 where c1: "acq PidLock s = Inr (s\<lparr>cpu := c1\<rparr>)" "hart_ok (insert PidLock L) c1"
    using acq_ok [OF assms] by blast
  have "insert PidLock L - {PidLock} = L" using assms by auto
  then obtain c2 where "rel PidLock (s\<lparr>nextpid := nextpid s + 1, cpu := c1\<rparr>) =
      Inr (s\<lparr>nextpid := nextpid s + 1, cpu := c2\<rparr>)" "hart_ok L c2"
    using rel_ok [of "insert PidLock L" "s\<lparr>nextpid := nextpid s + 1, cpu := c1\<rparr>" PidLock] c1(2) by auto
  with c1 show ?thesis by (auto simp: allocpid_def Let_def)
qed

definition cleared :: "proc \<Rightarrow> proc" where
  "cleared x = x\<lparr>trapframe := 0, pagetable := 0, sz := 0, pid := 0, pname := [], chan := NoChan,
     killed_flag := 0, xstate := 0, state := UNUSED\<rparr>"

definition released_world :: "'w env \<Rightarrow> proc \<Rightarrow> 'w \<Rightarrow> 'w" where
  "released_world e x w =
    (let w = (if trapframe x \<noteq> 0 then kfree_op e (trapframe x) w else w)
     in if pagetable x \<noteq> 0 then proc_freepagetable_op e (pagetable x) (sz x) w else w)"

lemma freeproc_eq:
  "freeproc e p s = (upd_proc p cleared s)\<lparr>world := released_world e (procs s ! p) (world s)\<rparr>"
proof -
  have "(\<lambda>x. x\<lparr>trapframe := 0, pagetable := 0, sz := 0, pid := 0, pname := [], chan := NoChan,
     killed_flag := 0, xstate := 0, state := UNUSED\<rparr>) = cleared" by (simp add: cleared_def fun_eq_iff)
  then show ?thesis
    by (simp add: freeproc_def released_world_def Let_def on_world_def upd_proc_def)
qed

lemma sched_inv_cleared:
  assumes "sched_inv s" and "p < NPROC" and "state (procs s ! p) \<noteq> RUNNABLE" and "state (procs s ! p) \<noteq> RUNNING"
  shows "sched_inv (upd_proc p cleared s)"
  using assms by (intro sched_inv_upd) (auto simp: cleared_def sched_inv_def proc_ok_def)

text \<open>The slot \<open>allocproc\<close> takes, and what it holds after.\<close>

definition free_slot :: "'w kernel \<Rightarrow> nat option" where
  "free_slot s = find (\<lambda>p. state (procs s ! p) = UNUSED) [0..<NPROC]"

lemma free_slot_SomeD: "free_slot s = Some p \<Longrightarrow> p < NPROC \<and> state (procs s ! p) = UNUSED"
  by (auto simp: free_slot_def find_Some_iff)

definition born :: "32 word \<Rightarrow> int \<Rightarrow> 64 word \<Rightarrow> 64 word \<Rightarrow> 64 word \<Rightarrow> proc \<Rightarrow> proc" where
  "born t i forkret tf pt x = (fresh t i x)\<lparr>trapframe := tf, pagetable := pt,
     pcontext := \<lparr>ra = forkret, sp = kstack x + PGSIZE, saved = replicate 12 0\<rparr>\<rparr>"

lemma born_fields [simp]:
  "state (born t i fr tf pt x) = USED" "pid (born t i fr tf pt x) = i" "queue (born t i fr tf pt x) = 0"
  "pticks (born t i fr tf pt x) = 0" "killed_flag (born t i fr tf pt x) = killed_flag x"
  "trapframe (born t i fr tf pt x) = tf" "pagetable (born t i fr tf pt x) = pt"
  by (simp_all add: born_def fresh_def)

lemma sched_inv_unused:
  assumes "sched_inv s" and "p < NPROC" and "state (procs s ! p) = UNUSED" and "proc_ok (f (procs s ! p))"
    and "state (f (procs s ! p)) \<noteq> RUNNABLE" and "state (f (procs s ! p)) \<noteq> RUNNING"
  shows "sched_inv (upd_proc p f s)"
  using assms by (intro sched_inv_upd) auto

lemma upd_proc_fun_cong: "(\<And>x. f x = g x) \<Longrightarrow> upd_proc p f s = upd_proc p g s"
  by (simp add: upd_proc_def)

text \<open>A failed allocation leaves the slot free.\<close>

definition spoiled :: "32 word \<Rightarrow> proc \<Rightarrow> proc" where
  "spoiled t x = cleared (fresh t 0 x)"

lemma cleared_fresh [simp]:
  "cleared ((fresh t i x)\<lparr>trapframe := tf\<rparr>) = spoiled t x"
  "cleared ((fresh t i x)\<lparr>trapframe := tf, pagetable := pt\<rparr>) = spoiled t x"
  by (simp_all add: spoiled_def cleared_def fresh_def)

lemma proc_ok_fresh:
  "proc_ok (spoiled t x)" "proc_ok (born t i fr tf pt x)"
  by (simp_all add: spoiled_def born_def cleared_def fresh_def proc_ok_def time_slice_def)

lemma allocproc_ok:
  assumes "quiet L s" and "\<And>p. PLock p \<notin> L" and "PidLock \<notin> L" and "sched_inv s"
  shows "case free_slot s of
      None \<Rightarrow> \<exists>c. allocproc fr e s = Inr (None, s\<lparr>cpu := c\<rparr>) \<and> hart_ok L c
    | Some p \<Rightarrow> \<exists>c w tf pt. hart_ok (if tf \<noteq> 0 \<and> pt \<noteq> 0 then insert (PLock p) L else L) c \<and>
        tf = fst (kalloc_op e (world s)) \<and>
        pt = fst (proc_pagetable_op e tf (snd (kalloc_op e (world s)))) \<and>
        allocproc fr e s =
          (if tf \<noteq> 0 \<and> pt \<noteq> 0
           then Inr (Some p, (upd_proc p (born (ticks s) (nextpid s) fr tf pt) s)
                 \<lparr>nextpid := nextpid s + 1, world := w, cpu := c\<rparr>)
           else Inr (None, (upd_proc p (spoiled (ticks s)) s)
                 \<lparr>nextpid := nextpid s + 1, world := w, cpu := c\<rparr>))"
proof (cases "free_slot s")
  case None
  then show ?thesis
    using find_unused_ok [OF assms(2,1), of "[0..<NPROC]"] by (auto simp: allocproc_def free_slot_def)
next
  case (Some p)
  let ?L = "insert (PLock p) L"
  have p: "p < length (procs s)"
    using free_slot_SomeD [OF Some] assms(4) by (simp add: sched_inv_def)
  obtain c1 where c1: "find_unused [0..<NPROC] s = Inr (Some p, s\<lparr>cpu := c1\<rparr>)" "hart_ok ?L c1"
    using find_unused_ok [OF assms(2,1), of "[0..<NPROC]"] Some by (auto simp: free_slot_def)
  obtain c2 where c2: "allocpid (s\<lparr>cpu := c1\<rparr>) =
      Inr (nextpid s, s\<lparr>nextpid := nextpid s + 1, cpu := c2\<rparr>)" "hart_ok ?L c2"
    using allocpid_ok [of ?L "s\<lparr>cpu := c1\<rparr>"] c1(2) assms(3) by auto
  have L: "?L - {PLock p} = L" using assms(2) by auto
  have r: "\<exists>c'. rel (PLock p) (t\<lparr>cpu := c2\<rparr>) = Inr (t\<lparr>cpu := c'\<rparr>) \<and> hart_ok L c'" for t :: "'a kernel"
    using rel_ok [of ?L "t\<lparr>cpu := c2\<rparr>" "PLock p"] c2(2) L by auto
  obtain tf w1 where k: "kalloc_op e (world s) = (tf, w1)" by fastforce
  obtain pt w2 where m: "proc_pagetable_op e tf w1 = (pt, w2)" by fastforce
  note defs = allocproc_def c1 c2 k m Let_def call_world_def freeproc_eq
  show ?thesis
  proof (cases "tf \<noteq> 0 \<and> pt \<noteq> 0")
    case True
    have "allocproc fr e s = Inr (Some p, (upd_proc p (born (ticks s) (nextpid s) fr tf pt) s)
        \<lparr>nextpid := nextpid s + 1, world := w2, cpu := c2\<rparr>)"
      using True p by (simp add: defs born_def fresh_def upd_proc_def)
    with c2(2) Some True k m show ?thesis by (auto intro!: exI [of _ c2])
  next
    case False
    define w where "w = released_world e ((fresh (ticks s) (nextpid s) (procs s ! p))
        \<lparr>trapframe := tf, pagetable := if tf = 0 then pagetable (procs s ! p) else 0\<rparr>)
        (if tf = 0 then w1 else w2)"
    let ?t = "(upd_proc p (spoiled (ticks s)) s)\<lparr>nextpid := nextpid s + 1, world := w\<rparr>"
    obtain c3 where c3: "rel (PLock p) (?t\<lparr>cpu := c2\<rparr>) = Inr (?t\<lparr>cpu := c3\<rparr>)" "hart_ok L c3"
      using r by blast
    have f: "(fresh t i x)\<lparr>trapframe := 0, pagetable := pagetable x\<rparr> = (fresh t i x)\<lparr>trapframe := 0\<rparr>"
      for t i x by (simp add: fresh_def)
    have "allocproc fr e s = Inr (None, ?t\<lparr>cpu := c3\<rparr>)"
      using c3(1) False p by (auto simp: defs nth_upd_proc w_def f)
    with c3(2) Some False k m show ?thesis by (auto intro!: exI [of _ c3])
  qed
qed

section \<open>Fork\<close>

text \<open>The child made ready, from the release of its lock to the end of \<open>kfork\<close>.\<close>

lemma publish_ok:
  fixes p :: nat
  assumes "quiet {PLock np} s" and "sched_inv s" and "np < NPROC" and "state (procs s ! np) = USED"
    and "queue (procs s ! np) = 0"
  defines "t \<equiv> enqueue_body 0 np (upd_proc np (\<lambda>x. x\<lparr>parent := Some p, state := RUNNABLE\<rparr>) s)"
  shows "\<exists>c. seq (rel (PLock np) s) (\<lambda>s.
      seq (with_lock WaitLock (\<lambda>s. Inr (upd_proc np (\<lambda>x. x\<lparr>parent := Some p\<rparr>) s)) s) (\<lambda>s.
      seq (with_lock (PLock np) (make_runnable np) s) (\<lambda>s. Inr (i, s)))) = Inr (i, t\<lparr>cpu := c\<rparr>) \<and>
    hart_ok {} c" and "sched_inv t"
    and "r < 4 \<Longrightarrow> level r t = (if r = 0 then level 0 s @ [np] else level r s)"
proof -
  let ?s = "upd_proc np (\<lambda>x. x\<lparr>parent := Some p\<rparr>) s"
  have i: "sched_inv ?s" using assms(2) by (rule sched_inv_upd_same) simp_all
  have x: "procs ?s ! np = (procs s ! np)\<lparr>parent := Some p\<rparr>"
    using assms(2,3) by (simp add: sched_inv_def nth_upd_proc)
  have t: "t = enqueue_body 0 np (upd_proc np (\<lambda>x. x\<lparr>state := RUNNABLE\<rparr>) ?s)" by (simp add: t_def)
  obtain c1 where c1: "rel (PLock np) s = Inr (s\<lparr>cpu := c1\<rparr>)" "hart_ok {} c1"
    using rel_ok [OF assms(1), of "PLock np"] by auto
  have "\<exists>c. with_lock WaitLock (\<lambda>s. Inr (upd_proc np (\<lambda>x. x\<lparr>parent := Some p\<rparr>) s)) (s\<lparr>cpu := c1\<rparr>) =
      Inr (?s\<lparr>cpu := c\<rparr>) \<and> hart_ok {} c"
    using c1(2) by (intro with_lock_eq) auto
  then obtain c2 where c2: "with_lock WaitLock (\<lambda>s. Inr (upd_proc np (\<lambda>x. x\<lparr>parent := Some p\<rparr>) s))
      (s\<lparr>cpu := c1\<rparr>) = Inr (?s\<lparr>cpu := c2\<rparr>)" "hart_ok {} c2" by blast
  have m: "\<exists>c'. make_runnable np (?s\<lparr>cpu := c\<rparr>) = Inr (t\<lparr>cpu := c'\<rparr>) \<and> hart_ok {PLock np} c'"
    if "hart_ok {PLock np} c" for c
    using make_runnable_ok(1) [of "{PLock np}" "?s\<lparr>cpu := c\<rparr>" np] that i x assms(3-5) t by simp
  have "\<exists>c. with_lock (PLock np) (make_runnable np) (?s\<lparr>cpu := c2\<rparr>) = Inr (t\<lparr>cpu := c\<rparr>) \<and> hart_ok {} c"
    using c2(2) m by (intro with_lock_eq) auto
  then show "\<exists>c. seq (rel (PLock np) s) (\<lambda>s.
      seq (with_lock WaitLock (\<lambda>s. Inr (upd_proc np (\<lambda>x. x\<lparr>parent := Some p\<rparr>) s)) s) (\<lambda>s.
      seq (with_lock (PLock np) (make_runnable np) s) (\<lambda>s. Inr (i, s)))) = Inr (i, t\<lparr>cpu := c\<rparr>) \<and>
    hart_ok {} c"
    using c1 c2 by auto
  show "sched_inv t" and "r < 4 \<Longrightarrow> level r t = (if r = 0 then level 0 s @ [np] else level r s)"
    using make_runnable_ok(2,3) [OF _ _ i assms(3)] x assms(1,3-5) t by (auto simp: quiet_def)
qed

text \<open>The record of a child: what it has from the parent \<open>x\<close>, and what is its own.\<close>

definition child_of :: "nat \<Rightarrow> proc \<Rightarrow> 32 word \<Rightarrow> int \<Rightarrow> proc \<Rightarrow> bool" where
  "child_of p x t i y \<longleftrightarrow> state y = RUNNABLE \<and> pid y = i \<and> parent y = Some p \<and> sz y = sz x \<and>
     pname y = take 15 (pname x) \<and> queue y = 0 \<and> pticks y = 0 \<and> creation_time y = ucast t \<and>
     rtime y = 0 \<and> iotime y = 0 \<and> etime y = 0 \<and> first_run_time y = 0 \<and> trapframe y \<noteq> 0 \<and> pagetable y \<noteq> 0"

definition spare :: "32 word \<Rightarrow> proc \<Rightarrow> proc \<Rightarrow> bool" where
  "spare t x y \<longleftrightarrow> state y = UNUSED \<and> pid y = 0 \<and> killed_flag y = 0 \<and> parent y = parent x \<and>
     rtime y = 0 \<and> iotime y = 0 \<and> creation_time y = ucast t \<and> proc_ok y"

definition forked :: "nat \<Rightarrow> 'w kernel \<Rightarrow> int \<Rightarrow> 'w kernel \<Rightarrow> bool" where
  "forked p s r s' \<longleftrightarrow>
     cproc s' = cproc s \<and> ticks s' = ticks s \<and> kout s' = kout s \<and> initproc s' = initproc s \<and>
     (case free_slot s of
        None \<Rightarrow> r = -1 \<and> procs s' = procs s \<and> nextpid s' = nextpid s \<and> (\<forall>q < 4. level q s' = level q s)
      | Some np \<Rightarrow> nextpid s' = nextpid s + 1 \<and> (\<exists>y. procs s' = (procs s)[np := y] \<and>
          (r = -1 \<and> spare (ticks s) (procs s ! np) y \<and> (\<forall>q < 4. level q s' = level q s) \<or>
           r = nextpid s \<and> child_of p (procs s ! p) (ticks s) (nextpid s) y \<and>
             killed_flag y = killed_flag (procs s ! np) \<and>
             (\<forall>q < 4. level q s' = (if q = 0 then level 0 s @ [np] else level q s)))))"

lemma spare_cleared:
  "spare t x (spoiled t x)" "spare t x (cleared (born t i fr tf pt x))"
  by (simp_all add: spare_def spoiled_def cleared_def born_def fresh_def proc_ok_def time_slice_def)

lemma sched_inv_spare:
  assumes "sched_inv s" and "p < NPROC" and "state (procs s ! p) = UNUSED" and "spare t (procs s ! p) (f (procs s ! p))"
  shows "sched_inv (upd_proc p f s)"
  using assms by (intro sched_inv_unused) (auto simp: spare_def)

lemma kfork_copy_ok:
  assumes "p \<noteq> np" and "p < length (procs s)" and "np < length (procs s)"
  shows "\<exists>fs cd w. kfork_copy e p np s =
    (upd_proc np (\<lambda>x. x\<lparr>sz := sz (procs s ! p), ofile := fs, cwd := cd, pname := take 15 (pname (procs s ! p))\<rparr>) s)
      \<lparr>world := w\<rparr>"
  using assms
  by (simp add: kfork_copy_def Let_def on_world_def call_world_def nth_upd_proc name_copy_def
      split: prod.split) metis

lemma kfork_born_ok:
  assumes "sched_inv s" and "cproc s = Some p" and "free_slot s = Some np" and "hart_ok {PLock np} c1"
    and "tf \<noteq> 0" and "pt \<noteq> 0"
    and al: "allocproc fr e s = Inr (Some np, (upd_proc np (born (ticks s) (nextpid s) fr tf pt) s)
      \<lparr>nextpid := nextpid s + 1, world := w1, cpu := c1\<rparr>)"
  shows "\<exists>r s'. kfork fr e p s = Inr (r, s') \<and> quiet {} s' \<and> sched_inv s' \<and> forked p s r s'"
proof -
  let ?b = "born (ticks s) (nextpid s) fr tf pt"
  let ?s1 = "(upd_proc np ?b s)\<lparr>nextpid := nextpid s + 1\<rparr>"
  have np: "np < NPROC" "state (procs s ! np) = UNUSED" using free_slot_SomeD [OF assms(3)] by auto
  have p: "p < NPROC" "p \<noteq> np" and len: "length (procs s) = NPROC"
    using assms(1,2) np by (auto simp: sched_inv_def running_ok_def)
  obtain r w2 where u: "uvmcopy_op e (pagetable (procs ?s1 ! p)) (pagetable (procs ?s1 ! np))
      (sz (procs ?s1 ! p)) w1 = (r, w2)" by fastforce
  show ?thesis
  proof (cases "r < 0")
    case True
    let ?t = "(upd_proc np (\<lambda>x. cleared (?b x)) s)
      \<lparr>nextpid := nextpid s + 1, world := released_world e (procs ?s1 ! np) w2\<rparr>"
    have "sched_inv ?t"
      using sched_inv_spare [OF assms(1) np, where f = "\<lambda>x. cleared (?b x)" and t = "ticks s"] spare_cleared(2) by simp
    moreover obtain c2 where c2: "rel (PLock np) (?t\<lparr>cpu := c1\<rparr>) = Inr (?t\<lparr>cpu := c2\<rparr>)" "hart_ok {} c2"
      using rel_ok [of "{PLock np}" "?t\<lparr>cpu := c1\<rparr>" "PLock np"] assms(4) by auto
    moreover have "forked p s (-1) (?t\<lparr>cpu := c2\<rparr>)"
      using assms(3) spare_cleared(2) by (auto simp: forked_def procs_upd_proc)
    moreover have "kfork fr e p s = Inr (-1, ?t\<lparr>cpu := c2\<rparr>)"
      using True u c2(1) by (simp add: kfork_def al call_world_def freeproc_eq)
    ultimately show ?thesis by auto
  next
    case False
    let ?g = "\<lambda>fs cd x. x\<lparr>sz := sz (procs s ! p), ofile := fs, cwd := cd, pname := take 15 (pname (procs s ! p))\<rparr>"
    obtain fs cd w where k: "kfork_copy e p np (?s1\<lparr>world := w2, cpu := c1\<rparr>) =
      (upd_proc np (\<lambda>x. ?g fs cd (?b x)) s)\<lparr>nextpid := nextpid s + 1, world := w, cpu := c1\<rparr>"
      using kfork_copy_ok [of p np "?s1\<lparr>world := w2, cpu := c1\<rparr>" e] p np len
      by (auto simp: nth_upd_proc)
    let ?s2 = "(upd_proc np (\<lambda>x. ?g fs cd (?b x)) s)\<lparr>nextpid := nextpid s + 1, world := w, cpu := c1\<rparr>"
    have x: "procs ?s2 ! np = ?g fs cd (?b (procs s ! np))" using np len by (simp add: nth_upd_proc)
    have "sched_inv ?s2"
      using sched_inv_unused [OF assms(1) np, where f = "\<lambda>x. ?g fs cd (?b x)"] proc_ok_fresh(2)
      by (simp add: born_def fresh_def proc_ok_def)
    note pub = publish_ok [OF _ this np(1), where p = p]
    let ?t = "enqueue_body 0 np (upd_proc np (\<lambda>x. x\<lparr>parent := Some p, state := RUNNABLE\<rparr>) ?s2)"
    obtain c2 where "kfork fr e p s = Inr (nextpid s, ?t\<lparr>cpu := c2\<rparr>)" "hart_ok {} c2"
      using pub(1) [of "nextpid s"] assms(4) False u k x by (auto simp: kfork_def al call_world_def)
    moreover have "sched_inv ?t" and "\<forall>q < 4. level q ?t = (if q = 0 then level 0 s @ [np] else level q s)"
      using pub(2,3) assms(4) x by simp_all
    moreover have "child_of p (procs s ! p) (ticks s) (nextpid s)
        ((?g fs cd (?b (procs s ! np)))\<lparr>parent := Some p, state := RUNNABLE\<rparr>)"
      using assms(5,6) by (simp add: child_of_def born_def fresh_def)
    ultimately have "forked p s (nextpid s) (?t\<lparr>cpu := c2\<rparr>)"
      using assms(3) np len by (auto simp: forked_def procs_upd_proc)
    then show ?thesis using \<open>kfork fr e p s = _\<close> \<open>hart_ok {} c2\<close> \<open>sched_inv ?t\<close> by auto
  qed
qed

lemma kfork_ok:
  assumes "quiet {} s" and "sched_inv s" and "cproc s = Some p"
  shows "\<exists>r s'. kfork fr e p s = Inr (r, s') \<and> quiet {} s' \<and> sched_inv s' \<and> forked p s r s'"
proof (cases "free_slot s")
  case None
  then show ?thesis
    using allocproc_ok [of "{}" s fr e] assms by (auto simp: kfork_def forked_def)
next
  case (Some np)
  have np: "np < NPROC" "state (procs s ! np) = UNUSED" using free_slot_SomeD [OF Some] by auto
  obtain c1 w1 tf pt where a: "hart_ok (if tf \<noteq> 0 \<and> pt \<noteq> 0 then {PLock np} else {}) c1"
    "allocproc fr e s = (if tf \<noteq> 0 \<and> pt \<noteq> 0
       then Inr (Some np, (upd_proc np (born (ticks s) (nextpid s) fr tf pt) s)
             \<lparr>nextpid := nextpid s + 1, world := w1, cpu := c1\<rparr>)
       else Inr (None, (upd_proc np (spoiled (ticks s)) s)
             \<lparr>nextpid := nextpid s + 1, world := w1, cpu := c1\<rparr>))"
    using allocproc_ok [of "{}" s fr e] assms Some by auto
  show ?thesis
  proof (cases "tf \<noteq> 0 \<and> pt \<noteq> 0")
    case False
    then show ?thesis
      using a Some np sched_inv_spare [OF assms(2) np, where f = "spoiled (ticks s)" and t = "ticks s"] spare_cleared(1)
      by (auto simp: kfork_def forked_def procs_upd_proc)
  next
    case True
    then show ?thesis using kfork_born_ok [OF assms(2,3) Some] a by auto
  qed
qed

end
