(* ===== verification/Kernel_Exit_Inv.thy ===== *)
theory Kernel_Exit_Inv
  imports Kernel_Proc_Inv
begin

text \<open>
  \<open>reparent\<close>, \<open>kexit\<close> and \<open>kwait\<close> under the invariant of the scheduler: what each does to
  the table, that it gives its locks back and that it does not panic.
\<close>

section \<open>Exit\<close>

lemma woken_fields [simp]:
  "parent (woken ch x) = parent x" "pid (woken ch x) = pid x" "chan (woken ch x) = chan x"
  "queue (woken ch x) = queue x" "pticks (woken ch x) = pticks x"
  "rtime (woken ch x) = rtime x" "iotime (woken ch x) = iotime x" "creation_time (woken ch x) = creation_time x"
  "etime (woken ch x) = etime x" "first_run_time (woken ch x) = first_run_time x"
  "woken ch (woken ch x) = woken ch x"
  by (simp_all add: woken_def sleeps_on_def)

lemma woken_parent [simp]: "woken ch (x\<lparr>parent := r\<rparr>) = (woken ch x)\<lparr>parent := r\<rparr>"
  by (simp add: woken_def sleeps_on_def)

definition orphan :: "nat \<Rightarrow> nat \<Rightarrow> 'w kernel \<Rightarrow> bool" where
  "orphan n p s \<longleftrightarrow> (\<exists>i < n. parent (procs s ! i) = Some p)"

definition adopted :: "nat \<Rightarrow> nat \<Rightarrow> 'w kernel \<Rightarrow> nat \<Rightarrow> proc" where
  "adopted n p s i =
    (let x = (if orphan n p s then woken (proc_chan (initproc s)) (procs s ! i) else procs s ! i)
     in if i < n \<and> parent x = Some p then x\<lparr>parent := initproc s\<rparr> else x)"

definition same_rest :: "'w kernel \<Rightarrow> 'w kernel \<Rightarrow> bool" where
  "same_rest s s' \<longleftrightarrow> cproc s' = cproc s \<and> ticks s' = ticks s \<and> kout s' = kout s \<and>
     initproc s' = initproc s \<and> nextpid s' = nextpid s \<and> world s' = world s"

lemma adopted_cpu [simp]: "adopted n p (s\<lparr>cpu := c\<rparr>) i = adopted n p s i"
proof -
  have "orphan n p (s\<lparr>cpu := c\<rparr>) = orphan n p s" by (simp add: orphan_def)
  then show ?thesis by (simp add: adopted_def Let_def)
qed

lemma reparent_one_ok:
  assumes "quiet {WaitLock} s1" and "sched_inv s1" and "length (procs s) = NPROC" and "n < NPROC"
    and "same_rest s s1" and "\<forall>i < NPROC. procs s1 ! i = adopted n p s i"
  shows "\<exists>s'. reparent_one p n s1 = Inr s' \<and> quiet {WaitLock} s' \<and> sched_inv s' \<and> same_rest s s' \<and>
    (\<forall>i < NPROC. procs s' ! i = adopted (Suc n) p s i)"
proof -
  have x: "procs s1 ! n = adopted n p s n" using assms(4,6) by blast
  have par: "parent (procs s1 ! n) = parent (procs s ! n)" by (simp add: x adopted_def Let_def)
  show ?thesis
  proof (cases "parent (procs s ! n) = Some p")
    case False
    then have "adopted (Suc n) p s i = adopted n p s i" for i
      by (auto simp: adopted_def orphan_def less_Suc_eq Let_def)
    with False par assms show ?thesis by (auto simp: reparent_one_def)
  next
    case True
    let ?t = "upd_proc n (\<lambda>x. x\<lparr>parent := initproc s\<rparr>) s1" and ?ch = "proc_chan (initproc s)"
    have i: "sched_inv ?t" using assms(2) by (rule sched_inv_upd_same) simp_all
    have len: "length (procs s1) = NPROC" using assms(2) by (simp add: sched_inv_def)
    obtain s' where s': "wakeup ?ch ?t = Inr s'" "quiet {WaitLock} s'" "sched_inv s'" "woken_upto NPROC ?ch ?t s'"
      using wakeup_ok [of "{WaitLock}" ?t ?ch] i assms(1) by auto
    have "procs s' ! i = adopted (Suc n) p s i" if "i < NPROC" for i
      using s'(4) that len assms(6) True
      by (auto simp: woken_upto_def nth_upd_proc adopted_def orphan_def less_Suc_eq Let_def)
    moreover have "same_rest s s'" using s'(4) assms(5) by (simp add: same_rest_def woken_upto_def)
    moreover have "reparent_one p n s1 = Inr s'"
      using True par s'(1) assms(5) by (simp add: reparent_one_def Let_def same_rest_def)
    ultimately show ?thesis using s' by blast
  qed
qed

lemma reparent_ok:
  assumes "quiet {WaitLock} s" and "sched_inv s"
  shows "\<exists>s'. reparent p s = Inr s' \<and> quiet {WaitLock} s' \<and> sched_inv s' \<and> same_rest s s' \<and>
    (\<forall>i < NPROC. procs s' ! i = adopted NPROC p s i)"
proof -
  have len: "length (procs s) = NPROC" using assms(2) by (simp add: sched_inv_def)
  have "\<exists>s'. for_each (reparent_one p) [0..<n] s = Inr s' \<and> quiet {WaitLock} s' \<and> sched_inv s' \<and>
      same_rest s s' \<and> (\<forall>i < NPROC. procs s' ! i = adopted n p s i)" if "n \<le> NPROC" for n
    using that
  proof (induction n)
    case 0
    then show ?case using assms by (simp add: same_rest_def adopted_def orphan_def Let_def)
  next
    case (Suc n)
    then obtain s1 where "for_each (reparent_one p) [0..<n] s = Inr s1" "quiet {WaitLock} s1" "sched_inv s1"
        "same_rest s s1" "\<forall>i < NPROC. procs s1 ! i = adopted n p s i" by auto
    with reparent_one_ok [OF this(2,3) len _ this(4,5)] Suc.prems show ?case
      by (auto simp: for_each_append)
  qed
  from this [of NPROC] show ?thesis by (simp add: reparent_def)
qed

text \<open>The table when a process has exited.\<close>

definition exit_entry :: "int \<Rightarrow> nat \<Rightarrow> 'w kernel \<Rightarrow> nat \<Rightarrow> proc" where
  "exit_entry status p s i =
    (if i = p then zombify status (ticks s) (adopted NPROC p s p)
     else woken (proc_chan (parent (adopted NPROC p s p))) (adopted NPROC p s i))"

text \<open>The first half of \<open>kexit_last\<close>: the children are given away and the parent is woken.\<close>

lemma kexit_wake_ok:
  assumes "quiet {} s" and "sched_inv s" and "cproc s = Some p"
  shows "\<exists>s2. seq (acq WaitLock s) (\<lambda>s. seq (reparent p s) (\<lambda>s.
      wakeup (proc_chan (parent (procs s ! p))) s)) = Inr s2 \<and> quiet {WaitLock} s2 \<and> sched_inv s2 \<and>
    same_rest s s2 \<and>
    (\<forall>i < NPROC. procs s2 ! i = (if i = p then adopted NPROC p s p
       else woken (proc_chan (parent (adopted NPROC p s p))) (adopted NPROC p s i)))"
proof -
  obtain c0 where c0: "acq WaitLock s = Inr (s\<lparr>cpu := c0\<rparr>)" "hart_ok {WaitLock} c0"
    using acq_ok [OF assms(1), of WaitLock] by auto
  obtain s1 where s1: "reparent p (s\<lparr>cpu := c0\<rparr>) = Inr s1" "quiet {WaitLock} s1" "sched_inv s1"
      "same_rest s s1" "\<forall>i < NPROC. procs s1 ! i = adopted NPROC p s i"
    using reparent_ok [of "s\<lparr>cpu := c0\<rparr>" p] c0(2) assms(2) by (auto simp: same_rest_def)
  have p: "p < NPROC" using assms(2,3) by (auto simp: sched_inv_def running_ok_def)
  let ?ch = "proc_chan (parent (procs s1 ! p))"
  obtain s2 where s2: "wakeup ?ch s1 = Inr s2" "quiet {WaitLock} s2" "sched_inv s2" "woken_upto NPROC ?ch s1 s2"
    using wakeup_ok [of "{WaitLock}" s1 ?ch] s1 by auto
  have len1: "length (procs s1) = NPROC" using s1(3) by (simp add: sched_inv_def)
  have e2: "procs s2 ! i = woken ?ch (adopted NPROC p s i)" if "i < NPROC" for i
    using s2(4) s1(5) that len1 by (simp add: woken_upto_def)
  have "state (procs s2 ! p) = RUNNING"
    using s2(3,4) s1(4) assms(3) p by (simp add: sched_inv_def running_ok_def same_rest_def woken_upto_def)
  then have "woken ?ch (adopted NPROC p s p) = adopted NPROC p s p"
    using e2 [OF p] by (auto simp: woken_def split: if_splits)
  then show ?thesis
    using c0(1) s1 s2 e2 p by (auto simp: same_rest_def woken_upto_def)
qed

lemma kexit_last_ok:
  assumes "quiet {} s" and "sched_inv s" and "cproc s = Some p"
  shows "\<exists>s'. kexit_last status p s = Inr s' \<and> quiet {} s' \<and> sched_inv s' \<and> cproc s' = None \<and>
    (\<forall>i < NPROC. procs s' ! i = exit_entry status p s i) \<and>
    kout s' = kout s @ metrics (exit_entry status p s p) \<and>
    ticks s' = ticks s \<and> nextpid s' = nextpid s \<and> initproc s' = initproc s"
proof -
  obtain s2 where s2: "seq (acq WaitLock s) (\<lambda>s. seq (reparent p s) (\<lambda>s.
      wakeup (proc_chan (parent (procs s ! p))) s)) = Inr s2" "quiet {WaitLock} s2" "sched_inv s2"
      "same_rest s s2" "\<forall>i < NPROC. procs s2 ! i = (if i = p then adopted NPROC p s p
       else woken (proc_chan (parent (adopted NPROC p s p))) (adopted NPROC p s i))"
    using kexit_wake_ok [OF assms] by blast
  have p: "p < NPROC" using assms(2,3) by (auto simp: sched_inv_def running_ok_def)
  have cp: "cproc s2 = Some p" using s2(4) assms(3) by (simp add: same_rest_def)
  have len: "length (procs s2) = NPROC" and ok: "proc_ok (procs s2 ! p)"
    using s2(3) p by (auto simp: sched_inv_def)
  obtain c3 where c3: "acq (PLock p) s2 = Inr (s2\<lparr>cpu := c3\<rparr>)" "hart_ok {PLock p, WaitLock} c3"
    using acq_ok [OF s2(2), of "PLock p"] by auto
  define t where "t = (upd_proc p (zombify status (ticks s)) s2)\<lparr>kout := kout s @ metrics (exit_entry status p s p)\<rparr>"
  have tp: "procs t ! i = exit_entry status p s i" if "i < NPROC" for i
    using that p len s2(5) by (auto simp: t_def nth_upd_proc exit_entry_def)
  obtain c4 where c4: "rel WaitLock (t\<lparr>cpu := c3\<rparr>) = Inr (t\<lparr>cpu := c4\<rparr>)" "hart_ok {PLock p} c4"
    using rel_ok [of "{PLock p, WaitLock}" "t\<lparr>cpu := c3\<rparr>" WaitLock] c3(2) by (auto simp: insert_Diff_if)
  obtain c5 where c5: "sched (t\<lparr>cpu := c4\<rparr>) = Inr (t\<lparr>cproc := None, cpu := c5\<rparr>)" "hart_ok {} c5"
    using sched_ok [of p "t\<lparr>cpu := c4\<rparr>"] c4(2) cp p len
    by (auto simp: t_def nth_upd_proc zombify_def)
  have "sched_inv (t\<lparr>cproc := None\<rparr>)"
    using sched_inv_leave [OF s2(3) cp, of "zombify status (ticks s)"] ok
    by (simp add: t_def zombify_def proc_ok_def)
  moreover have "kexit_last status p s = Inr (t\<lparr>cproc := None, cpu := c5\<rparr>)"
  proof -
    have "t\<lparr>cpu := c3\<rparr> = (upd_proc p (zombify status (ticks s)) s2)\<lparr>kout := kout s @
        metrics (procs (upd_proc p (zombify status (ticks s)) s2) ! p), cpu := c3\<rparr>"
      using tp [OF p] by (simp add: t_def)
    moreover have "kexit_last status p s = seq (seq (acq WaitLock s) (\<lambda>s. seq (reparent p s) (\<lambda>s.
        wakeup (proc_chan (parent (procs s ! p))) s))) (\<lambda>s. seq (acq (PLock p) s) (\<lambda>s.
          let s = upd_proc p (zombify status (ticks s)) s;
              s = s\<lparr>kout := kout s @ metrics (procs s ! p)\<rparr>
          in seq (rel WaitLock s) sched))"
      by (simp add: kexit_last_def seq_assoc)
    ultimately show ?thesis
      using s2(4) c3(1) c4(1) c5(1) by (simp add: s2(1) Let_def same_rest_def)
  qed
  ultimately show ?thesis
    using c5(2) tp s2(4) by (auto simp: t_def same_rest_def)
qed

section \<open>Wait\<close>

definition child :: "nat \<Rightarrow> 'w kernel \<Rightarrow> nat \<Rightarrow> bool" where
  "child p s i \<longleftrightarrow> parent (procs s ! i) = Some p"

definition zombie_child :: "nat \<Rightarrow> 'w kernel \<Rightarrow> nat \<Rightarrow> bool" where
  "zombie_child p s i \<longleftrightarrow> child p s i \<and> state (procs s ! i) = ZOMBIE"

definition reaped :: "proc \<Rightarrow> proc" where
  "reaped x = cleared (x\<lparr>parent := None\<rparr>)"

lemma child_cpu [simp]:
  "child p (s\<lparr>cpu := c\<rparr>) = child p s" "zombie_child p (s\<lparr>cpu := c\<rparr>) = zombie_child p s"
  by (simp_all add: child_def zombie_child_def fun_eq_iff)

lemma kwait_scan_ok:
  assumes "length (procs s) = NPROC" and "set pps \<subseteq> {..<NPROC}" and "quiet {WaitLock} s"
  shows "\<exists>c. case find (zombie_child p s) pps of
      None \<Rightarrow> kwait_scan e addr p pps hk s = Inr (Kids (hk \<or> list_ex (child p s) pps), s\<lparr>cpu := c\<rparr>) \<and>
        hart_ok {WaitLock} c
    | Some pp \<Rightarrow> hart_ok {} c \<and> (\<exists>w.
        addr \<noteq> 0 \<and> kwait_scan e addr p pps hk s = Inr (Reaped (-1), s\<lparr>world := w, cpu := c\<rparr>) \<or>
        kwait_scan e addr p pps hk s =
          Inr (Reaped (pid (procs s ! pp)), (upd_proc pp reaped s)\<lparr>world := w, cpu := c\<rparr>))"
  using assms
proof (induction pps arbitrary: hk s)
  case Nil
  then show ?case by (auto simp: quiet_def intro!: exI [of _ "cpu s"])
next
  case (Cons pp pps)
  show ?case
  proof (cases "child p s pp")
    case False
    then have "parent (procs s ! pp) \<noteq> Some p" "\<not> zombie_child p s pp"
      by (simp_all add: child_def zombie_child_def)
    with False show ?thesis using Cons.IH [of s hk] Cons.prems by (simp cong: option.case_cong)
  next
    case True
    then have par: "parent (procs s ! pp) = Some p" by (simp add: child_def)
    obtain c1 where c1: "acq (PLock pp) s = Inr (s\<lparr>cpu := c1\<rparr>)" "hart_ok {PLock pp, WaitLock} c1"
      using acq_ok [OF Cons.prems(3), of "PLock pp"] by auto
    show ?thesis
    proof (cases "state (procs s ! pp) = ZOMBIE")
      case False
      obtain c2 where c2: "rel (PLock pp) (s\<lparr>cpu := c1\<rparr>) = Inr (s\<lparr>cpu := c2\<rparr>)" "hart_ok {WaitLock} c2"
        using rel_ok [of "{PLock pp, WaitLock}" "s\<lparr>cpu := c1\<rparr>" "PLock pp"] c1(2) by auto
      show ?thesis
        using True False par c1 c2 Cons.IH [of "s\<lparr>cpu := c2\<rparr>" True] Cons.prems
        by (simp add: zombie_child_def [of p s pp] cong: option.case_cong)
    next
      case zombie: True
      have r2: "\<exists>c. seq (rel (PLock pp) (t\<lparr>cpu := c1\<rparr>)) (\<lambda>s. seq (rel WaitLock s) (\<lambda>s. Inr (x, s))) =
          Inr (x, t\<lparr>cpu := c\<rparr>) \<and> hart_ok {} c" for t :: "'a kernel" and x :: wait_scan
      proof -
        obtain c2 where "rel (PLock pp) (t\<lparr>cpu := c1\<rparr>) = Inr (t\<lparr>cpu := c2\<rparr>)" "hart_ok {WaitLock} c2"
          using rel_ok [of "{PLock pp, WaitLock}" "t\<lparr>cpu := c1\<rparr>" "PLock pp"] c1(2) by auto
        then show ?thesis using rel_ok [of "{WaitLock}" "t\<lparr>cpu := c2\<rparr>" WaitLock] by auto
      qed
      have z: "zombie_child p s pp" using True zombie by (simp add: zombie_child_def)
      obtain r w where rw: "(if addr \<noteq> 0 then copyout_op e (pagetable (procs s ! p)) addr
          (xstate (procs s ! pp)) (world s) else (0, world s)) = (r, w)" by fastforce
      then have cw: "(if addr \<noteq> 0 then call_world (copyout_op e (pagetable (procs s ! p)) addr
          (xstate (procs s ! pp))) (s\<lparr>cpu := c1\<rparr>) else (0, s\<lparr>cpu := c1\<rparr>)) = (r, s\<lparr>world := w, cpu := c1\<rparr>)"
        by (auto simp: call_world_def split: if_splits)
      have re: "upd_proc pp (\<lambda>x. cleared (x\<lparr>parent := None\<rparr>)) s = upd_proc pp reaped s"
        by (simp add: upd_proc_def reaped_def)
      show ?thesis
      proof (cases "r < 0")
        case True
        with rw have "addr \<noteq> 0" by (auto split: if_splits)
        then show ?thesis
          using True r2 [of "s\<lparr>world := w\<rparr>" "Reaped (-1)"] z zombie par c1 cw by auto
      next
        case False
        let ?w = "released_world e ((procs s ! pp)\<lparr>parent := None\<rparr>) w"
        have "kwait_scan e addr p (pp # pps) hk s = seq (rel (PLock pp) ((upd_proc pp reaped s)\<lparr>world := ?w, cpu := c1\<rparr>))
            (\<lambda>t. seq (rel WaitLock t) (\<lambda>t. Inr (Reaped (pid (procs s ! pp)), t)))"
          using False zombie par c1 cw Cons.prems 
          by (cases "addr = 0") (simp_all add: freeproc_eq nth_upd_proc re Let_def)
        then show ?thesis
          using r2 [of "(upd_proc pp reaped s)\<lparr>world := ?w\<rparr>" "Reaped (pid (procs s ! pp))"] z by auto
      qed
    qed
  qed
qed

text \<open>What one pass of \<open>kwait\<close> does: it reaps the first exited child, or has nothing to wait for, or
  has been killed, or sleeps.\<close>

definition waited :: "64 word \<Rightarrow> nat \<Rightarrow> 'w kernel \<Rightarrow> int option \<Rightarrow> 'w kernel \<Rightarrow> bool" where
  "waited addr p s r s' \<longleftrightarrow>
    (case find (zombie_child p s) [0..<NPROC] of
       Some pp \<Rightarrow> cproc s' = Some p \<and>
         (addr \<noteq> 0 \<and> r = Some (-1) \<and> procs s' = procs s \<or>
          r = Some (pid (procs s ! pp)) \<and> procs s' = (procs s)[pp := reaped (procs s ! pp)])
     | None \<Rightarrow>
         if (\<forall>i < NPROC. \<not> child p s i) \<or> killed_flag (procs s ! p) \<noteq> 0
         then r = Some (-1) \<and> cproc s' = Some p \<and> procs s' = procs s
         else r = None \<and> cproc s' = None \<and> procs s' = (procs s)[p := asleep (ProcChan p) (procs s ! p)]) \<and>
    ticks s' = ticks s \<and> nextpid s' = nextpid s \<and> initproc s' = initproc s \<and> kout s' = kout s \<and>
    (\<forall>q < 4. level q s' = level q s)"

lemma kwait_pass_ok:
  assumes "quiet {WaitLock} s" and "sched_inv s" and "cproc s = Some p"
  shows "\<exists>r s'. kwait_pass e addr p s = Inr (r, s') \<and> quiet {} s' \<and> sched_inv s' \<and> waited addr p s r s'"
proof -
  have len: "length (procs s) = NPROC" using assms(2) by (simp add: sched_inv_def)
  have "set [0..<NPROC] \<subseteq> {..<NPROC}" by auto
  note scan = kwait_scan_ok [OF len this assms(1), where p = p and e = e and addr = addr and hk = False]
  have any: "list_ex (child p s) [0..<NPROC] \<longleftrightarrow> \<not> (\<forall>i < NPROC. \<not> child p s i)"
    by (auto simp: list_ex_iff)
  show ?thesis
  proof (cases "find (zombie_child p s) [0..<NPROC]")
    case (Some pp)
    then have pp: "pp < NPROC" "state (procs s ! pp) = ZOMBIE"
      by (auto simp: find_Some_iff zombie_child_def)
    have "sched_inv (upd_proc pp reaped s)"
      using assms(2) pp by (intro sched_inv_upd) (auto simp: reaped_def cleared_def sched_inv_def proc_ok_def)
    then show ?thesis
      using scan Some assms(2,3) by (fastforce simp: kwait_pass_def waited_def procs_upd_proc)
  next
    case None
    then obtain c where c: "kwait_scan e addr p [0..<NPROC] False s =
        Inr (Kids (list_ex (child p s) [0..<NPROC]), s\<lparr>cpu := c\<rparr>)" "hart_ok {WaitLock} c"
      using scan by auto
    obtain c1 where c1: "(if list_ex (child p s) [0..<NPROC] then killed p (s\<lparr>cpu := c\<rparr>) else Inr (1, s\<lparr>cpu := c\<rparr>)) =
        Inr (if list_ex (child p s) [0..<NPROC] then killed_flag (procs s ! p) else 1, s\<lparr>cpu := c1\<rparr>)"
        "hart_ok {WaitLock} c1"
      using killed_ok [of "{WaitLock}" "s\<lparr>cpu := c\<rparr>" p] c(2) by (cases "list_ex (child p s) [0..<NPROC]") auto
    obtain c2 where c2: "rel WaitLock (s\<lparr>cpu := c1\<rparr>) = Inr (s\<lparr>cpu := c2\<rparr>)" "hart_ok {} c2"
      using rel_ok [of "{WaitLock}" "s\<lparr>cpu := c1\<rparr>" WaitLock] c1(2) by auto
    obtain c3 where c3: "sleep (ProcChan p) WaitLock (s\<lparr>cpu := c1\<rparr>) =
        Inr ((upd_proc p (asleep (ProcChan p)) s)\<lparr>cproc := None, cpu := c3\<rparr>)" "hart_ok {} c3"
        "sched_inv ((upd_proc p (asleep (ProcChan p)) s)\<lparr>cproc := None\<rparr>)"
      using sleep_ok [of WaitLock "s\<lparr>cpu := c1\<rparr>" p "ProcChan p"] c1(2) assms by auto
    show ?thesis
      using c c1 c2 c3 None assms(2,3)
      by (auto simp: kwait_pass_def waited_def procs_upd_proc any split: if_splits)
  qed
qed

end
