(* ===== verification/Kernel_System.thy ===== *)
theory Kernel_System
  imports Kernel_Exit_Inv
begin

text \<open>
  The process subsystem as a whole: the kernel of the MLFQ build runs as a sequence of steps,
  each a piece of kernel code that runs without a context switch on the one hart, and the
  invariants that hold after every sequence of steps from the boot state.
\<close>

section \<open>Invariants of the table\<close>

text \<open>Process numbers are unique and never reused; a free slot has none.\<close>

definition pids_ok :: "'w kernel \<Rightarrow> bool" where
  "pids_ok s \<longleftrightarrow> 0 < nextpid s \<and>
     (\<forall>i < NPROC. if state (procs s ! i) = UNUSED then pid (procs s ! i) = 0
        else 0 < pid (procs s ! i) \<and> pid (procs s ! i) < nextpid s) \<and>
     (\<forall>i < NPROC. \<forall>j < NPROC. state (procs s ! i) \<noteq> UNUSED \<and> pid (procs s ! i) = pid (procs s ! j) \<longrightarrow> i = j)"

text \<open>A parent is a process that has not exited; a free slot has no parent; init stays.\<close>

definition alive :: "'w kernel \<Rightarrow> nat \<Rightarrow> bool" where
  "alive s i \<longleftrightarrow> i < NPROC \<and> state (procs s ! i) \<noteq> UNUSED \<and> state (procs s ! i) \<noteq> ZOMBIE"

definition family_ok :: "'w kernel \<Rightarrow> bool" where
  "family_ok s \<longleftrightarrow> (\<exists>i. initproc s = Some i \<and> alive s i) \<and>
     (\<forall>i < NPROC. \<forall>q. parent (procs s ! i) = Some q \<longrightarrow> alive s q) \<and>
     (\<forall>i < NPROC. state (procs s ! i) = UNUSED \<longrightarrow> parent (procs s ! i) = None)"

text \<open>No process sleeps in \<open>kwait\<close> while a child of it has exited.\<close>

definition wait_ok :: "'w kernel \<Rightarrow> bool" where
  "wait_ok s \<longleftrightarrow> (\<forall>i < NPROC. \<forall>j < NPROC. state (procs s ! i) = SLEEPING \<and> chan (procs s ! i) = ProcChan i \<and>
     parent (procs s ! j) = Some i \<longrightarrow> state (procs s ! j) \<noteq> ZOMBIE)"

definition life_ok :: "'w kernel \<Rightarrow> bool" where
  "life_ok s \<longleftrightarrow> pids_ok s \<and> family_ok s \<and> wait_ok s"

text \<open>The time a process has run and slept is within its age.\<close>

definition times_ok :: "'w kernel \<Rightarrow> bool" where
  "times_ok s \<longleftrightarrow> (\<forall>i < NPROC. unat (rtime (procs s ! i)) + unat (iotime (procs s ! i)) +
     unat (creation_time (procs s ! i)) \<le> unat (ticks s))"

section \<open>Steps that keep them\<close>

definition keeps_life :: "proc \<Rightarrow> proc \<Rightarrow> bool" where
  "keeps_life x y \<longleftrightarrow> pid y = pid x \<and> parent y = parent x \<and> (state y = UNUSED \<longleftrightarrow> state x = UNUSED) \<and>
     (state y = ZOMBIE \<longleftrightarrow> state x = ZOMBIE) \<and>
     (\<forall>p. state y = SLEEPING \<and> chan y = ProcChan p \<longrightarrow> state x = SLEEPING \<and> chan x = ProcChan p)"

definition keeps_time :: "proc \<Rightarrow> proc \<Rightarrow> bool" where
  "keeps_time x y \<longleftrightarrow> rtime y = rtime x \<and> iotime y = iotime x \<and> creation_time y = creation_time x"

lemma keeps_life_refl [simp]: "keeps_life x x" by (simp add: keeps_life_def)
lemma keeps_time_refl [simp]: "keeps_time x x" by (simp add: keeps_time_def)

definition kept :: "'w kernel \<Rightarrow> 'w kernel \<Rightarrow> bool" where
  "kept s s' \<longleftrightarrow> (\<forall>i < NPROC. keeps_life (procs s ! i) (procs s' ! i)) \<and> nextpid s' = nextpid s \<and>
     initproc s' = initproc s"

definition kept_time :: "'w kernel \<Rightarrow> 'w kernel \<Rightarrow> bool" where
  "kept_time s s' \<longleftrightarrow> (\<forall>i < NPROC. keeps_time (procs s ! i) (procs s' ! i)) \<and> ticks s' = ticks s"

lemma kept_trans: "kept s t \<Longrightarrow> kept t u \<Longrightarrow> kept s u"
  by (auto simp: kept_def keeps_life_def)

lemma pids_cong:
  assumes "\<And>i. i < NPROC \<Longrightarrow> pid (procs s' ! i) = pid (procs s ! i)"
    and "\<And>i. i < NPROC \<Longrightarrow> state (procs s' ! i) = UNUSED \<longleftrightarrow> state (procs s ! i) = UNUSED"
    and "nextpid s' = nextpid s"
  shows "pids_ok s' = pids_ok s"
  using assms unfolding pids_ok_def by simp

lemma family_cong:
  assumes "\<And>i. i < NPROC \<Longrightarrow> parent (procs s' ! i) = parent (procs s ! i)"
    and "\<And>i. i < NPROC \<Longrightarrow> state (procs s' ! i) = UNUSED \<longleftrightarrow> state (procs s ! i) = UNUSED"
    and "\<And>i. i < NPROC \<Longrightarrow> state (procs s' ! i) = ZOMBIE \<longleftrightarrow> state (procs s ! i) = ZOMBIE"
    and "initproc s' = initproc s"
  shows "family_ok s' = family_ok s"
proof -
  have "alive s' i = alive s i" for i using assms(2,3) by (auto simp: alive_def)
  then show ?thesis using assms unfolding family_ok_def by simp
qed

lemma life_kept:
  assumes "life_ok s" and "kept s s'"
  shows "life_ok s'"
proof -
  have k: "keeps_life (procs s ! i) (procs s' ! i)" if "i < NPROC" for i
    using assms(2) that by (simp add: kept_def)
  have n: "nextpid s' = nextpid s" "initproc s' = initproc s" using assms(2) by (simp_all add: kept_def)
  have "pids_ok s' = pids_ok s"
    using k n(1) by (intro pids_cong) (simp_all add: keeps_life_def)
  moreover have "family_ok s' = family_ok s"
    using k n(2) by (intro family_cong) (simp_all add: keeps_life_def)
  moreover have "wait_ok s'"
    using assms(1) k unfolding life_ok_def wait_ok_def keeps_life_def by metis
  ultimately show ?thesis using assms(1) by (simp add: life_ok_def)
qed

lemma times_kept: "times_ok s \<Longrightarrow> kept_time s s' \<Longrightarrow> times_ok s'"
  by (simp add: times_ok_def kept_time_def keeps_time_def)

text \<open>A change of one entry of the table.\<close>

lemma kept_upd:
  assumes "length (procs s) = NPROC" and "keeps_life (procs s ! p) (f (procs s ! p))"
    and "procs s' = procs (upd_proc p f s)" and "nextpid s' = nextpid s" and "initproc s' = initproc s"
  shows "kept s s'"
  using assms by (auto simp: kept_def nth_upd_proc)

lemma kept_time_upd:
  assumes "length (procs s) = NPROC" and "keeps_time (procs s ! p) (f (procs s ! p))"
    and "procs s' = procs (upd_proc p f s)" and "ticks s' = ticks s"
  shows "kept_time s s'"
  using assms by (auto simp: kept_time_def nth_upd_proc)

lemma kept_woken:
  assumes "length (procs s) = NPROC" and "woken_upto NPROC ch s s'"
  shows "kept s s'" and "kept_time s s'"
  using assms by (auto simp: kept_def kept_time_def woken_upto_def keeps_life_def keeps_time_def
      woken_def sleeps_on_def)

lemma kept_marked:
  assumes "length (procs s) = NPROC"
  shows "kept s (marked p s)" and "kept_time s (marked p s)"
  using assms by (auto simp: kept_def kept_time_def marked_def Let_def nth_upd_proc keeps_life_def keeps_time_def)

lemma life_forked:
  assumes "life_ok s" and "sched_inv s" and "cproc s = Some p" and "forked p s r s'"
  shows "life_ok s'"
proof (cases "free_slot s")
  case None
  then have "kept s s'" using assms(4) by (simp add: forked_def kept_def)
  with assms(1) show ?thesis by (rule life_kept)
next
  case (Some np)
  have np: "np < NPROC" "state (procs s ! np) = UNUSED" and len: "length (procs s) = NPROC"
    using free_slot_SomeD [OF Some] assms(2) by (auto simp: sched_inv_def)
  have p: "alive s p" "p \<noteq> np" using assms(2,3) np by (auto simp: alive_def sched_inv_def running_ok_def)
  obtain y where y: "procs s' = (procs s)[np := y]"
      "spare (ticks s) (procs s ! np) y \<or> child_of p (procs s ! p) (ticks s) (nextpid s) y"
      and n: "nextpid s' = nextpid s + 1" "initproc s' = initproc s"
    using assms(4) Some by (auto simp: forked_def)
  have nth: "procs s' ! i = (if i = np then y else procs s ! i)" if "i < NPROC" for i
    using y(1) that len by simp
  have al: "alive s i \<Longrightarrow> alive s' i" for i using nth np by (auto simp: alive_def)
  have "pids_ok s'"
    using assms(1) y(2) n nth np
    by (auto simp: life_ok_def pids_ok_def spare_def child_of_def split: if_splits)
  moreover have "family_ok s'"
    using assms(1) y(2) n nth np p al
    by (auto simp: life_ok_def family_ok_def spare_def child_of_def split: if_splits)
  moreover have "wait_ok s'"
    using assms(1) y(2) nth np
    by (auto simp: life_ok_def wait_ok_def spare_def child_of_def split: if_splits)
  ultimately show ?thesis by (simp add: life_ok_def)
qed

lemma unat_ucast_ticks: "unat (ucast t :: 64 word) = unat (t :: 32 word)"
proof -
  have "unat t < 2 ^ 64" using unsigned_less [of t, where ?'a = nat] by simp
  then show ?thesis by (simp add: unsigned_ucast_eq take_bit_nat_eq_self)
qed

lemma times_forked:
  assumes "times_ok s" and "sched_inv s" and "forked p s r s'"
  shows "times_ok s'"
proof (cases "free_slot s")
  case None
  then show ?thesis using assms by (simp add: forked_def times_ok_def)
next
  case (Some np)
  have "np < NPROC" and len: "length (procs s) = NPROC"
    using free_slot_SomeD [OF Some] assms(2) by (auto simp: sched_inv_def)
  moreover obtain y where "procs s' = (procs s)[np := y]" "ticks s' = ticks s"
      "spare (ticks s) (procs s ! np) y \<or> child_of p (procs s ! p) (ticks s) (nextpid s) y"
    using assms(3) Some by (auto simp: forked_def)
  ultimately show ?thesis
    using assms(1) by (auto simp: times_ok_def spare_def child_of_def nth_list_update unat_ucast_ticks)
qed

lemma adopted_fields:
  "pid (adopted n p s i) = pid (procs s ! i)"
  "state (adopted n p s i) = state (if orphan n p s then woken (proc_chan (initproc s)) (procs s ! i)
     else procs s ! i)"
  "chan (adopted n p s i) = chan (procs s ! i)"
  "parent (adopted n p s i) =
     (if i < n \<and> parent (procs s ! i) = Some p then initproc s else parent (procs s ! i))"
  "rtime (adopted n p s i) = rtime (procs s ! i)" "iotime (adopted n p s i) = iotime (procs s ! i)"
  "creation_time (adopted n p s i) = creation_time (procs s ! i)"
  by (auto simp: adopted_def Let_def)

lemma woken_state:
  "state (woken ch x) = UNUSED \<longleftrightarrow> state x = UNUSED" "state (woken ch x) = ZOMBIE \<longleftrightarrow> state x = ZOMBIE"
  "state (woken ch x) = SLEEPING \<longleftrightarrow> state x = SLEEPING \<and> chan x \<noteq> ch"
  by (auto simp: woken_def sleeps_on_def)

text \<open>The table after an exit, field by field.\<close>

lemma exit_entry_fields:
  assumes "i < NPROC"
  shows "pid (exit_entry status p s i) = pid (procs s ! i)"
    "parent (exit_entry status p s i) =
       (if parent (procs s ! i) = Some p then initproc s else parent (procs s ! i))"
    "rtime (exit_entry status p s i) = rtime (procs s ! i)"
    "iotime (exit_entry status p s i) = iotime (procs s ! i)"
    "creation_time (exit_entry status p s i) = creation_time (procs s ! i)"
    "chan (exit_entry status p s i) = chan (procs s ! i)"
    "i \<noteq> p \<Longrightarrow> state (exit_entry status p s i) = UNUSED \<longleftrightarrow> state (procs s ! i) = UNUSED"
    "i \<noteq> p \<Longrightarrow> state (exit_entry status p s i) = ZOMBIE \<longleftrightarrow> state (procs s ! i) = ZOMBIE"
    "state (exit_entry status p s p) = ZOMBIE"
  using assms by (simp_all add: exit_entry_def adopted_fields zombify_def woken_state)

text \<open>Who still sleeps after an exit: not the parent, and not init if it has adopted.\<close>

lemma exit_entry_sleeps:
  assumes "i < NPROC" and "state (exit_entry status p s i) = SLEEPING"
    and "chan (exit_entry status p s i) = ProcChan i"
  shows "i \<noteq> p" and "state (procs s ! i) = SLEEPING" and "chan (procs s ! i) = ProcChan i"
    and "p < NPROC \<Longrightarrow> parent (exit_entry status p s p) \<noteq> Some i"
    and "j < NPROC \<Longrightarrow> parent (procs s ! j) = Some p \<Longrightarrow> initproc s \<noteq> Some i"
  using assms
  by (auto simp: exit_entry_def adopted_fields zombify_def woken_state proc_chan_def orphan_def
      split: if_splits)

lemma life_exited:
  assumes "life_ok s" and "sched_inv s" and "cproc s = Some p" and "initproc s \<noteq> Some p"
    and "\<forall>i < NPROC. procs s' ! i = exit_entry status p s i" and "nextpid s' = nextpid s"
    and "initproc s' = initproc s"
  shows "life_ok s'"
proof -
  have p: "p < NPROC" "state (procs s ! p) = RUNNING" using assms(2,3) by (auto simp: sched_inv_def running_ok_def)
  note f = exit_entry_fields [where status = status and s = s and p = p]
  have e: "procs s' ! i = exit_entry status p s i" if "i < NPROC" for i using assms(5) that by blast
  have un: "state (procs s' ! i) = UNUSED \<longleftrightarrow> state (procs s ! i) = UNUSED" if "i < NPROC" for i
    using that p by (cases "i = p") (auto simp: e f)
  have al: "alive s i \<Longrightarrow> i \<noteq> p \<Longrightarrow> alive s' i" for i
    by (auto simp: alive_def e f)
  have pd: "pid (procs s' ! i) = pid (procs s ! i)" if "i < NPROC" for i using that by (simp add: e f)
  have par: "parent (procs s' ! i) = (if parent (procs s ! i) = Some p then initproc s else parent (procs s ! i))"
    if "i < NPROC" for i using that by (simp add: e f)
  have "pids_ok s'"
    using assms(1,6) un pd unfolding life_ok_def pids_ok_def by simp
  moreover have "family_ok s'"
  proof -
    obtain ip where ip: "initproc s = Some ip" "alive s' ip"
      using assms(1,4) al by (auto simp: life_ok_def family_ok_def)
    then show ?thesis
      using assms(1,7) un al par unfolding life_ok_def family_ok_def by auto
  qed
  moreover have "wait_ok s'"
    unfolding wait_ok_def
  proof (intro allI impI)
    fix i j
    assume ij: "i < NPROC" "j < NPROC" "state (procs s' ! i) = SLEEPING \<and> chan (procs s' ! i) = ProcChan i \<and>
      parent (procs s' ! j) = Some i"
    then have "state (exit_entry status p s i) = SLEEPING" "chan (exit_entry status p s i) = ProcChan i"
      by (simp_all add: e)
    note sl = exit_entry_sleeps [OF ij(1) this]
    have j: "j \<noteq> p" using sl(4) ij p by (auto simp: e)
    have "parent (procs s ! j) = Some i" using ij sl(1) sl(5) [OF ij(2)] by (auto simp: e f split: if_splits)
    then show "state (procs s' ! j) \<noteq> ZOMBIE"
      using assms(1) ij sl(2,3) j by (auto simp: life_ok_def wait_ok_def e f)
  qed
  ultimately show ?thesis by (simp add: life_ok_def)
qed

lemma times_exited:
  assumes "times_ok s" and "\<forall>i < NPROC. procs s' ! i = exit_entry status p s i" and "ticks s' = ticks s"
  shows "times_ok s'"
  using assms by (auto simp: times_ok_def exit_entry_fields)

lemma life_reaped:
  assumes "life_ok s" and "length (procs s) = NPROC" and "pp < NPROC" and "state (procs s ! pp) = ZOMBIE"
    and "procs s' = (procs s)[pp := reaped (procs s ! pp)]" and "nextpid s' = nextpid s"
    and "initproc s' = initproc s"
  shows "life_ok s'"
proof -
  have e: "procs s' ! i = (if i = pp then reaped (procs s ! pp) else procs s ! i)" if "i < NPROC" for i
    using assms(2,5) that by simp
  have r: "state (reaped x) = UNUSED" "pid (reaped x) = 0" "parent (reaped x) = None" for x
    by (simp_all add: reaped_def cleared_def)
  have al: "alive s i \<Longrightarrow> alive s' i" for i using assms(4) by (auto simp: alive_def e)
  have "pids_ok s'"
    using assms(1,3,6) by (auto simp: life_ok_def pids_ok_def e r split: if_splits)
  moreover have "family_ok s'"
    using assms(1,7) al by (auto simp: life_ok_def family_ok_def e r split: if_splits)
  moreover have "wait_ok s'"
    using assms(1) by (auto simp: life_ok_def wait_ok_def e r split: if_splits)
  ultimately show ?thesis by (simp add: life_ok_def)
qed

lemma life_waiting:
  assumes "life_ok s" and "length (procs s) = NPROC" and "p < NPROC" and "state (procs s ! p) = RUNNING"
    and "find (zombie_child p s) [0..<NPROC] = None"
    and "procs s' = (procs s)[p := asleep (ProcChan p) (procs s ! p)]" and "nextpid s' = nextpid s"
    and "initproc s' = initproc s"
  shows "life_ok s'"
proof -
  have e: "procs s' ! i = (if i = p then asleep (ProcChan p) (procs s ! p) else procs s ! i)"
    if "i < NPROC" for i using assms(2,6) that by simp
  have r: "state (asleep c x) = SLEEPING" "pid (asleep c x) = pid x" "parent (asleep c x) = parent x"
    "chan (asleep c x) = c" for c x by (simp_all add: asleep_def)
  have nz: "\<not> zombie_child p s i" if "i < NPROC" for i
    using assms(5) that by (auto simp: find_None_iff)
  have "pids_ok s' = pids_ok s"
    using assms(3,4,7) by (intro pids_cong) (auto simp: e r)
  moreover have "family_ok s' = family_ok s"
    using assms(3,4,8) by (intro family_cong) (auto simp: e r)
  moreover have "wait_ok s'"
    unfolding wait_ok_def
  proof (intro allI impI)
    fix i j
    assume ij: "i < NPROC" "j < NPROC" "state (procs s' ! i) = SLEEPING \<and> chan (procs s' ! i) = ProcChan i \<and>
      parent (procs s' ! j) = Some i"
    then have par: "parent (procs s ! j) = Some i" by (auto simp: e r split: if_splits)
    show "state (procs s' ! j) \<noteq> ZOMBIE"
    proof (cases "i = p")
      case True
      then show ?thesis using nz [OF ij(2)] par ij(2) by (auto simp: e r zombie_child_def child_def)
    next
      case False
      then have "state (procs s ! j) \<noteq> ZOMBIE" using assms(1) ij par by (auto simp: life_ok_def wait_ok_def e)
      then show ?thesis using ij(2) by (auto simp: e r)
    qed
  qed
  ultimately show ?thesis using assms(1) by (simp add: life_ok_def)
qed

lemma life_waited:
  assumes "life_ok s" and "sched_inv s" and "cproc s = Some p" and "waited addr p s r s'"
  shows "life_ok s'"
proof -
  have len: "length (procs s) = NPROC" and p: "p < NPROC" "state (procs s ! p) = RUNNING"
    using assms(2,3) by (auto simp: sched_inv_def running_ok_def)
  have n: "nextpid s' = nextpid s" "initproc s' = initproc s"
    using assms(4) by (auto simp: waited_def)
  have same: "life_ok s'" if "procs s' = procs s"
    using assms(1) that n by (intro life_kept [of s s']) (auto simp: kept_def)
  show ?thesis
  proof (cases "find (zombie_child p s) [0..<NPROC]")
    case None
    then show ?thesis
      using assms(4) same life_waiting [OF assms(1) len p None _ n] by (auto simp: waited_def split: if_splits)
  next
    case (Some pp)
    then have "pp < NPROC" "state (procs s ! pp) = ZOMBIE" by (auto simp: find_Some_iff zombie_child_def)
    then show ?thesis
      using assms(4) Some same life_reaped [OF assms(1) len _ _ _ n] by (auto simp: waited_def)
  qed
qed

lemma keeps_time_upd: "i < length xs \<Longrightarrow> keeps_time (xs ! k) y \<Longrightarrow> keeps_time (xs ! i) (xs[k := y] ! i)"
  by (cases "i = k") simp_all

lemma keeps_life_upd: "i < length xs \<Longrightarrow> keeps_life (xs ! k) y \<Longrightarrow> keeps_life (xs ! i) (xs[k := y] ! i)"
  by (cases "i = k") simp_all

lemma times_waited:
  assumes "times_ok s" and "length (procs s) = NPROC" and "waited addr p s r s'"
  shows "times_ok s'"
proof -
  have r: "keeps_time x (reaped x)" "keeps_time x (asleep c x)" for x c
    by (simp_all add: keeps_time_def reaped_def cleared_def asleep_def)
  have "kept_time s s'"
    using assms(2,3) r by (auto simp: waited_def kept_time_def keeps_time_upd split: option.splits if_splits)
  with assms(1) show ?thesis by (rule times_kept)
qed

text \<open>The clock interrupt.\<close>

lemma kept_accounted: "length (procs s) = NPROC \<Longrightarrow> kept s (accounted s)"
  by (auto simp: kept_def accounted_def keeps_life_def account_def)

lemma kept_boosted:
  assumes "length (procs s) = NPROC"
  shows "kept s (boosted s)" and "kept_time s (boosted s)"
  using assms by (auto simp: kept_def kept_time_def boosted_frame keeps_life_def keeps_time_def reset_priority_def)

lemma times_accounted:
  assumes "times_ok s" and "length (procs s) = NPROC" and "ticks s + 1 \<noteq> 0"
  shows "times_ok (accounted (s\<lparr>ticks := ticks s + 1\<rparr>))"
proof -
  have t: "unat (ticks s + 1) = unat (ticks s) + 1" using unatSuc [of "ticks s"] assms(3) by (simp add: add.commute)
  have bound: "unat (w + 1) = unat w + 1" if "unat w \<le> unat (ticks s)" for w :: "64 word"
  proof -
    have "unat w + 1 < 2 ^ 64"
      using that unsigned_less [of "ticks s", where ?'a = nat] by simp
    then show ?thesis by (simp add: unat_word_ariths)
  qed
  show ?thesis
    unfolding times_ok_def
  proof (intro allI impI)
    fix i
    assume i: "i < NPROC"
    let ?x = "procs s ! i"
    have "unat (rtime ?x) + unat (iotime ?x) + unat (creation_time ?x) \<le> unat (ticks s)"
      using assms(1) i by (simp add: times_ok_def)
    then show "unat (rtime (procs (accounted (s\<lparr>ticks := ticks s + 1\<rparr>)) ! i)) +
        unat (iotime (procs (accounted (s\<lparr>ticks := ticks s + 1\<rparr>)) ! i)) +
        unat (creation_time (procs (accounted (s\<lparr>ticks := ticks s + 1\<rparr>)) ! i))
      \<le> unat (ticks (accounted (s\<lparr>ticks := ticks s + 1\<rparr>)))"
      using i assms(2) bound [of "rtime ?x"] bound [of "iotime ?x"]
      by (auto simp: accounted_def account_def t)
  qed
qed

end
