(* ===== verification/Kernel_Run.thy ===== *)
theory Kernel_Run
  imports Kernel_System
begin

text \<open>
  Runs of the kernel of the MLFQ build on one hart.  A step is a piece of kernel code that a
  process, the scheduler thread or an interrupt handler runs without a context switch; it is
  entered with no lock held, or with the lock of the process just switched to.  A run is a
  sequence of steps from the state \<open>userinit\<close> leaves.
\<close>

section \<open>Steps\<close>

datatype event =
    Schedule
  | Resume bool
  | Awake bool lock
  | Tick
  | Yield
  | Sleep channel lock
  | Wakeup channel
  | Kill int
  | SetKilled
  | Fork
  | CloseFiles
  | Exit int
  | Wait "64 word"
  | WaitAgain bool "64 word"
  | Grow int

definition on_proc :: "(nat \<Rightarrow> 'w kernel \<Rightarrow> 'w kernel res) \<Rightarrow> 'w kernel \<Rightarrow> 'w kernel res" where
  "on_proc f s = (case cproc s of None \<Rightarrow> Inl ''no process'' | Some p \<Rightarrow> f p s)"

definition state_of :: "('r \<times> 'w kernel) res \<Rightarrow> 'w kernel res" where
  "state_of r = seq r (\<lambda>(_, s). Inr s)"

definition kernel_step :: "64 word \<Rightarrow> 'w env \<Rightarrow> event \<Rightarrow> 'w kernel \<Rightarrow> 'w kernel res" where
  "kernel_step forkret e ev s =
    (case ev of
       Schedule \<Rightarrow> state_of (scheduler_mlfq s)
     | Resume ie \<Rightarrow> on_proc (resume ie) s
     | Awake ie lk \<Rightarrow> on_proc (\<lambda>p s. seq (sleep_return ie p lk s) (rel lk)) s
     | Tick \<Rightarrow> clockintr s
     | Yield \<Rightarrow> yield s
     | Sleep ch lk \<Rightarrow> seq (acq lk s) (sleep ch lk)
     | Wakeup ch \<Rightarrow> wakeup ch s
     | Kill k \<Rightarrow> state_of (kkill k s)
     | SetKilled \<Rightarrow> on_proc setkilled s
     | Fork \<Rightarrow> on_proc (\<lambda>p s. state_of (kfork forkret e p s)) s
     | CloseFiles \<Rightarrow> on_proc (kexit_files e) s
     | Exit status \<Rightarrow> on_proc (kexit_last status) s
     | Wait addr \<Rightarrow> on_proc (\<lambda>p s. state_of (kwait_start e addr p s)) s
     | WaitAgain ie addr \<Rightarrow> on_proc (\<lambda>p s.
         seq (sleep_return ie p WaitLock s) (\<lambda>s. state_of (kwait_pass e addr p s))) s
     | Grow n \<Rightarrow> on_proc (\<lambda>p s. Inr (snd (growproc e n p s))) s)"

text \<open>
  Where each step may run.  Code under a lock other than the process and queue locks sleeps on
  a channel of its own; only \<open>kwait\<close> sleeps on the address of a process.
\<close>

definition outer :: "lock \<Rightarrow> bool" where
  "outer lk \<longleftrightarrow> (case lk of PLock _ \<Rightarrow> False | MlfqLock \<Rightarrow> False | _ \<Rightarrow> True)"

definition is_proc_chan :: "channel \<Rightarrow> bool" where
  "is_proc_chan ch \<longleftrightarrow> (case ch of ProcChan _ \<Rightarrow> True | _ \<Rightarrow> False)"

definition switched :: "'w kernel \<Rightarrow> bool" where
  "switched s \<longleftrightarrow> (case cproc s of None \<Rightarrow> False | Some p \<Rightarrow> locked (cpu s) = {PLock p})"

definition enabled :: "event \<Rightarrow> 'w kernel \<Rightarrow> bool" where
  "enabled ev s \<longleftrightarrow>
    (case ev of
       Schedule \<Rightarrow> cproc s = None \<and> locked (cpu s) = {}
     | Resume ie \<Rightarrow> switched s
     | Awake ie lk \<Rightarrow> switched s \<and> outer lk
     | WaitAgain ie addr \<Rightarrow> switched s
     | Tick \<Rightarrow> locked (cpu s) = {}
     | Wakeup ch \<Rightarrow> locked (cpu s) = {}
     | Sleep ch lk \<Rightarrow> cproc s \<noteq> None \<and> locked (cpu s) = {} \<and> outer lk \<and> \<not> is_proc_chan ch
     | CloseFiles \<Rightarrow> cproc s \<noteq> None \<and> locked (cpu s) = {} \<and> initproc s \<noteq> cproc s
     | Exit status \<Rightarrow> cproc s \<noteq> None \<and> locked (cpu s) = {} \<and> initproc s \<noteq> cproc s
     | _ \<Rightarrow> cproc s \<noteq> None \<and> locked (cpu s) = {})"

section \<open>Boot\<close>

text \<open>The zeroed memory the kernel starts from.\<close>

definition zero_proc :: proc where
  "zero_proc = \<lparr>state = UNUSED, chan = NoChan, killed_flag = 0, xstate = 0, pid = 0, creation_time = 0,
     ctime = 0, rtime = 0, etime = 0, iotime = 0, first_run_time = 0, parent = None, kstack = 0, sz = 0,
     pagetable = 0, trapframe = 0, pcontext = \<lparr>ra = 0, sp = 0, saved = replicate 12 0\<rparr>,
     ofile = replicate NOFILE None, cwd = None, pname = [], queue = 0, pticks = 0\<rparr>"

definition zero_kernel :: "'w \<Rightarrow> 'w kernel" where
  "zero_kernel w = \<lparr>procs = replicate NPROC zero_proc,
     cpu = \<lparr>noff = 0, intena = False, sie = False, locked = {}\<rparr>, cproc = None, ticks = 0,
     qcount = replicate 4 0, mlfq = replicate 4 (replicate NPROC 0), initproc = None, nextpid = 1,
     kout = [], world = w\<rparr>"

definition boot :: "64 word \<Rightarrow> 'w env \<Rightarrow> 'w \<Rightarrow> 'w kernel res" where
  "boot forkret e w = userinit forkret e (procinit (zero_kernel w))"

text \<open>\<open>run forkret e w n s\<close>: a run reaches \<open>s\<close> after \<open>n\<close> ticks.\<close>

inductive run :: "64 word \<Rightarrow> 'w env \<Rightarrow> 'w \<Rightarrow> nat \<Rightarrow> 'w kernel \<Rightarrow> bool" for forkret e w where
  start: "boot forkret e w = Inr s \<Longrightarrow> run forkret e w 0 s"
| step: "run forkret e w n s \<Longrightarrow> enabled ev s \<Longrightarrow> kernel_step forkret e ev s = Inr s' \<Longrightarrow>
    run forkret e w (if ev = Tick then Suc n else n) s'"

inductive_cases run_SucE: "run forkret e w (Suc n) s"

section \<open>Every step keeps the invariants\<close>

definition at_rest :: "'w kernel \<Rightarrow> bool" where
  "at_rest s \<longleftrightarrow> quiet {} s \<or> (\<exists>p. cproc s = Some p \<and> quiet {PLock p} s)"

definition kernel_ok :: "'w kernel \<Rightarrow> bool" where
  "kernel_ok s \<longleftrightarrow> sched_inv s \<and> life_ok s \<and> at_rest s"

lemma at_rest_quiet: "at_rest s \<Longrightarrow> locked (cpu s) = {} \<Longrightarrow> quiet {} s"
  by (auto simp: at_rest_def quiet_def hart_ok_def)

lemma at_rest_switched: "at_rest s \<Longrightarrow> switched s \<Longrightarrow> \<exists>p. cproc s = Some p \<and> quiet {PLock p} s"
  by (auto simp: at_rest_def quiet_def hart_ok_def switched_def split: option.splits)

text \<open>A step that advances neither the clock nor the accounts.\<close>

definition steady :: "'w kernel \<Rightarrow> 'w kernel \<Rightarrow> bool" where
  "steady s s' \<longleftrightarrow> kernel_ok s' \<and> ticks s' = ticks s \<and> (times_ok s \<longrightarrow> times_ok s')"

lemma steadyI:
  assumes "life_ok s" and "sched_inv s'" and "at_rest s'" and "kept s s'" and "kept_time s s'"
  shows "steady s s'"
  using assms life_kept times_kept by (auto simp: steady_def kernel_ok_def kept_time_def)

lemma kept_refl [simp]: "kept s s" "kept_time s s" "kept s (s\<lparr>cpu := c\<rparr>)" "kept_time s (s\<lparr>cpu := c\<rparr>)"
  by (simp_all add: kept_def kept_time_def)

lemma sched_inv_cpu [simp]: "sched_inv (s\<lparr>cpu := c\<rparr>) = sched_inv s"
  by (simp add: sched_inv_def ready_ok_def running_ok_def)

lemma at_rest_cpu: "hart_ok {} c \<Longrightarrow> at_rest (s\<lparr>cpu := c\<rparr>)"
  by (simp add: at_rest_def)

lemma kept_upd_eq:
  assumes "length (procs s) = NPROC" and "procs s' = (procs s)[p := y]" and "keeps_life (procs s ! p) y"
    and "nextpid s' = nextpid s" and "initproc s' = initproc s"
  shows "kept s s'"
  using assms by (auto simp: kept_def keeps_life_upd)

lemma kept_time_upd_eq:
  assumes "length (procs s) = NPROC" and "procs s' = (procs s)[p := y]" and "keeps_time (procs s ! p) y"
    and "ticks s' = ticks s"
  shows "kept_time s s'"
  using assms by (auto simp: kept_time_def keeps_time_upd)

text \<open>A step that changes one entry of the table.\<close>

lemma steady_upd:
  assumes "life_ok s" and "sched_inv s" and "sched_inv s'" and "at_rest s'"
    and "procs s' = (procs s)[p := y]" and "keeps_life (procs s ! p) y" and "keeps_time (procs s ! p) y"
    and "nextpid s' = nextpid s" and "initproc s' = initproc s" and "ticks s' = ticks s"
  shows "steady s s'"
  using assms
  by (intro steadyI kept_upd_eq [where p = p and y = y] kept_time_upd_eq [where p = p and y = y])
    (auto simp: sched_inv_def)

lemma run_proc_upd:
  assumes "p < length (procs s)"
  shows "\<exists>y. run_proc p s = s\<lparr>procs := (procs s)[p := y], cproc := Some p\<rparr> \<and> state y = RUNNING \<and>
    pid y = pid (procs s ! p) \<and> parent y = parent (procs s ! p) \<and> keeps_time (procs s ! p) y"
proof -
  define z where "z = (procs s ! p)\<lparr>state := RUNNING\<rparr>"
  have o: "s\<lparr>cproc := a, procs := b\<rparr> = s\<lparr>procs := b, cproc := a\<rparr>" for a b by simp
  define y where "y = (if first_run_time z = 0 then z\<lparr>first_run_time := ucast (ticks s)\<rparr> else z)"
  have "run_proc p s = s\<lparr>procs := (procs s)[p := y], cproc := Some p\<rparr>"
    using assms by (auto simp: run_proc_def Let_def upd_proc_def y_def z_def o)
  moreover have "state y = RUNNING" "pid y = pid (procs s ! p)" "parent y = parent (procs s ! p)"
    "keeps_time (procs s ! p) y"
    by (simp_all add: y_def z_def keeps_time_def)
  ultimately show ?thesis by blast
qed

lemma step_schedule:
  assumes "kernel_ok s" and "enabled Schedule s"
  shows "\<exists>s'. kernel_step fr e Schedule s = Inr s' \<and> steady s s'"
proof -
  have i: "sched_inv s" "life_ok s" and q: "quiet {} s" and cp: "cproc s = None" and len: "length (procs s) = NPROC"
    using assms at_rest_quiet [of s] by (auto simp: kernel_ok_def enabled_def sched_inv_def)
  obtain c where c: "scheduler_mlfq s = Inr (case best_level s of None \<Rightarrow> (False, s\<lparr>cpu := c\<rparr>)
         | Some q \<Rightarrow> (True, (run_proc (hd (level q s)) (dequeue_body q s))\<lparr>cpu := c\<rparr>))"
      "hart_ok (case best_level s of None \<Rightarrow> {} | Some q \<Rightarrow> {PLock (hd (level q s))}) c"
    using scheduler_mlfq_ok [OF q i(1)] by blast
  show ?thesis
  proof (cases "best_level s")
    case None
    then have "steady s (s\<lparr>cpu := c\<rparr>)" using i c(2) by (intro steadyI) (auto intro: at_rest_cpu)
    then show ?thesis using None c(1) by (auto simp: kernel_step_def state_of_def)
  next
    case (Some r)
    let ?p = "hd (level r s)" and ?s' = "(run_proc (hd (level r s)) (dequeue_body r s))\<lparr>cpu := c\<rparr>"
    have r: "r < 4" "level r s \<noteq> []" using best_level_Some [OF Some] by auto
    then have l: "level r s = ?p # tl (level r s)" by simp
    have p: "?p < NPROC" "state (procs s ! ?p) = RUNNABLE"
      using levelD [OF i(1) r(1), of ?p] r(2) by auto
    obtain y where y: "run_proc ?p (dequeue_body r s) =
        (dequeue_body r s)\<lparr>procs := (procs s)[?p := y], cproc := Some ?p\<rparr>" "state y = RUNNING"
        "pid y = pid (procs s ! ?p)" "parent y = parent (procs s ! ?p)" "keeps_time (procs s ! ?p) y"
      using run_proc_upd [of ?p "dequeue_body r s"] p len by auto
    have "steady s ?s'"
      using i len sched_inv_run [OF i(1) r(1) l cp] c(2) Some y p
      by (intro steady_upd [where p = ?p and y = y]) (auto simp: at_rest_def keeps_life_def)
    then show ?thesis using Some c(1) by (auto simp: kernel_step_def state_of_def)
  qed
qed

lemma step_resume:
  assumes "kernel_ok s" and "enabled (Resume ie) s"
  shows "\<exists>s'. kernel_step fr e (Resume ie) s = Inr s' \<and> steady s s'"
proof -
  obtain p where p: "cproc s = Some p" "quiet {PLock p} s"
    using assms at_rest_switched [of s] by (auto simp: kernel_ok_def enabled_def)
  then obtain c where c: "resume ie p s = Inr (s\<lparr>cpu := c\<rparr>)" "hart_ok {} c"
    using resume_ok by blast
  then have "steady s (s\<lparr>cpu := c\<rparr>)"
    using assms(1) by (intro steadyI) (auto simp: kernel_ok_def intro: at_rest_cpu)
  then show ?thesis using p c by (auto simp: kernel_step_def on_proc_def)
qed

lemma steady_nochan:
  assumes "life_ok s" and "sched_inv s" and "state (procs s ! p) \<noteq> SLEEPING" and "hart_ok {} c"
  shows "steady s ((upd_proc p (\<lambda>x. x\<lparr>chan := NoChan\<rparr>) s)\<lparr>cpu := c\<rparr>)"
  using assms sched_inv_upd_same [OF assms(2), of "\<lambda>x. x\<lparr>chan := NoChan\<rparr>" p]
  by (intro steady_upd [where p = p and y = "(procs s ! p)\<lparr>chan := NoChan\<rparr>"])
    (auto simp: procs_upd_proc keeps_life_def keeps_time_def intro: at_rest_cpu)

lemma step_awake:
  assumes "kernel_ok s" and "enabled (Awake ie lk) s"
  shows "\<exists>s'. kernel_step fr e (Awake ie lk) s = Inr s' \<and> steady s s'"
proof -
  obtain p where p: "cproc s = Some p" "quiet {PLock p} s" and i: "sched_inv s" "life_ok s"
    using assms at_rest_switched [of s] by (auto simp: kernel_ok_def enabled_def)
  let ?s = "upd_proc p (\<lambda>x. x\<lparr>chan := NoChan\<rparr>) s"
  obtain c where c: "sleep_return ie p lk s = Inr (?s\<lparr>cpu := c\<rparr>)" "hart_ok {lk} c"
    using sleep_return_ok [OF p(2)] by blast
  obtain c' where c': "rel lk (?s\<lparr>cpu := c\<rparr>) = Inr (?s\<lparr>cpu := c'\<rparr>)" "hart_ok {} c'"
    using rel_ok [of "{lk}" "?s\<lparr>cpu := c\<rparr>" lk] c(2) by auto
  have "state (procs s ! p) = RUNNING" using i p by (auto simp: sched_inv_def running_ok_def)
  then have "steady s (?s\<lparr>cpu := c'\<rparr>)" using steady_nochan [OF i(2,1) _ c'(2)] by simp
  then show ?thesis using p c c' by (auto simp: kernel_step_def on_proc_def)
qed

lemma step_yield:
  assumes "kernel_ok s" and "enabled Yield s"
  shows "\<exists>s'. kernel_step fr e Yield s = Inr s' \<and> steady s s'"
proof -
  obtain p where p: "cproc s = Some p" "quiet {} s" and i: "sched_inv s" "life_ok s"
    using assms at_rest_quiet [of s] by (auto simp: kernel_ok_def enabled_def)
  have run: "state (procs s ! p) = RUNNING" using i p by (auto simp: sched_inv_def running_ok_def)
  define t where "t = (if gives_up p s
      then (enqueue_body (nat (queue (yielded (procs s ! p)))) p (upd_proc p yielded s))\<lparr>cproc := None\<rparr>
      else upd_proc p (\<lambda>x. x\<lparr>pticks := pticks x + 1\<rparr>) s)"
  define y where "y = (if gives_up p s then yielded (procs s ! p)
      else (procs s ! p)\<lparr>pticks := pticks (procs s ! p) + 1\<rparr>)"
  obtain c where c: "yield s = Inr (t\<lparr>cpu := c\<rparr>)" "hart_ok {} c"
    using yield_ok [OF p(2) i(1) p(1)] by (auto simp: t_def)
  have "procs t = (procs s)[p := y]" "nextpid t = nextpid s" "initproc t = initproc s" "ticks t = ticks s"
    by (simp_all add: t_def y_def procs_upd_proc)
  moreover have "keeps_life (procs s ! p) y" "keeps_time (procs s ! p) y"
    using run by (auto simp: y_def keeps_life_def keeps_time_def yielded_def demote_def Let_def)
  moreover have "sched_inv t" using sched_inv_yield [OF i(1) p(1)] by (simp add: t_def)
  ultimately have "steady s (t\<lparr>cpu := c\<rparr>)"
    using i c(2) by (intro steady_upd [where p = p and y = y]) (auto intro: at_rest_cpu)
  then show ?thesis using c by (auto simp: kernel_step_def)
qed

lemma step_sleep:
  assumes "kernel_ok s" and "enabled (Sleep ch lk) s"
  shows "\<exists>s'. kernel_step fr e (Sleep ch lk) s = Inr s' \<and> steady s s'"
proof -
  obtain p where p: "cproc s = Some p" "quiet {} s" and i: "sched_inv s" "life_ok s"
    and lk: "outer lk" "\<not> is_proc_chan ch"
    using assms at_rest_quiet [of s] by (auto simp: kernel_ok_def enabled_def)
  have run: "state (procs s ! p) = RUNNING" using i p by (auto simp: sched_inv_def running_ok_def)
  obtain c where c: "acq lk s = Inr (s\<lparr>cpu := c\<rparr>)" "hart_ok {lk} c"
    using acq_ok [OF p(2), of lk] by auto
  have "lk \<noteq> PLock p" using lk by (auto simp: outer_def)
  then obtain c' where c': "sleep ch lk (s\<lparr>cpu := c\<rparr>) =
      Inr ((upd_proc p (asleep ch) s)\<lparr>cproc := None, cpu := c'\<rparr>)" "hart_ok {} c'"
      "sched_inv ((upd_proc p (asleep ch) s)\<lparr>cproc := None\<rparr>)"
    using sleep_ok [of lk "s\<lparr>cpu := c\<rparr>" p ch] c i p by auto
  have "keeps_life (procs s ! p) (asleep ch (procs s ! p))"
    using run lk by (auto simp: keeps_life_def asleep_def is_proc_chan_def)
  then have "steady s ((upd_proc p (asleep ch) s)\<lparr>cproc := None, cpu := c'\<rparr>)"
    using i c' by (intro steady_upd [where p = p and y = "asleep ch (procs s ! p)"])
      (auto simp: procs_upd_proc keeps_time_def asleep_def intro: at_rest_cpu)
  then show ?thesis using c c' by (auto simp: kernel_step_def)
qed

lemma step_wakeup:
  assumes "kernel_ok s" and "enabled (Wakeup ch) s"
  shows "\<exists>s'. kernel_step fr e (Wakeup ch) s = Inr s' \<and> steady s s'"
proof -
  have q: "quiet {} s" and i: "sched_inv s" "life_ok s" and len: "length (procs s) = NPROC"
    using assms at_rest_quiet [of s] by (auto simp: kernel_ok_def enabled_def sched_inv_def)
  obtain s' where s': "wakeup ch s = Inr s'" "quiet {} s'" "sched_inv s'" "woken_upto NPROC ch s s'"
    using wakeup_ok [OF q] i by auto
  then have "steady s s'"
    using i kept_woken [OF len s'(4)] by (intro steadyI) (auto simp: at_rest_def)
  with s'(1) show ?thesis by (auto simp: kernel_step_def)
qed

lemma step_kill:
  assumes "kernel_ok s" and "enabled (Kill k) s"
  shows "\<exists>s'. kernel_step fr e (Kill k) s = Inr s' \<and> steady s s'"
proof -
  have q: "quiet {} s" and i: "sched_inv s" "life_ok s" and len: "length (procs s) = NPROC"
    using assms at_rest_quiet [of s] by (auto simp: kernel_ok_def enabled_def sched_inv_def)
  obtain c where c: "kkill k s = Inr (case victim k s of None \<Rightarrow> (-1, s\<lparr>cpu := c\<rparr>)
           | Some p \<Rightarrow> (0, (marked p s)\<lparr>cpu := c\<rparr>))" "hart_ok {} c"
    using kkill_ok [OF q] i by auto
  show ?thesis
  proof (cases "victim k s")
    case None
    then have "steady s (s\<lparr>cpu := c\<rparr>)" using i c(2) by (intro steadyI) (auto intro: at_rest_cpu)
    then show ?thesis using None c(1) by (auto simp: kernel_step_def state_of_def)
  next
    case (Some p)
    then have p: "p < NPROC" by (auto simp: victim_def find_Some_iff)
    have "kept s ((marked p s)\<lparr>cpu := c\<rparr>)" "kept_time s ((marked p s)\<lparr>cpu := c\<rparr>)"
      using kept_marked [OF len, of p] by (auto simp: kept_def kept_time_def)
    moreover have "sched_inv (marked p s)" using kill_proc_ok(2) [OF q _ i(1) p] by simp
    ultimately have "steady s ((marked p s)\<lparr>cpu := c\<rparr>)"
      using i c(2) by (intro steadyI) (auto intro: at_rest_cpu)
    then show ?thesis using Some c(1) by (auto simp: kernel_step_def state_of_def)
  qed
qed

lemma step_setkilled:
  assumes "kernel_ok s" and "enabled SetKilled s"
  shows "\<exists>s'. kernel_step fr e SetKilled s = Inr s' \<and> steady s s'"
proof -
  obtain p where p: "cproc s = Some p" "quiet {} s" and i: "sched_inv s" "life_ok s"
    using assms at_rest_quiet [of s] by (auto simp: kernel_ok_def enabled_def)
  let ?t = "upd_proc p (\<lambda>x. x\<lparr>killed_flag := 1\<rparr>) s"
  have "\<exists>c. setkilled p s = Inr (?t\<lparr>cpu := c\<rparr>) \<and> hart_ok {} c"
    unfolding setkilled_def using p(2) by (intro with_lock_eq) auto
  then obtain c where c: "setkilled p s = Inr (?t\<lparr>cpu := c\<rparr>)" "hart_ok {} c" by blast
  have "steady s (?t\<lparr>cpu := c\<rparr>)"
    using i c(2) sched_inv_killed [OF i(1)]
    by (intro steady_upd [where p = p and y = "(procs s ! p)\<lparr>killed_flag := 1\<rparr>"])
      (auto simp: procs_upd_proc keeps_life_def keeps_time_def intro: at_rest_cpu)
  then show ?thesis using p c by (auto simp: kernel_step_def on_proc_def)
qed

lemma step_fork:
  assumes "kernel_ok s" and "enabled Fork s"
  shows "\<exists>s'. kernel_step fr e Fork s = Inr s' \<and> steady s s'"
proof -
  obtain p where p: "cproc s = Some p" "quiet {} s" and i: "sched_inv s" "life_ok s"
    using assms at_rest_quiet [of s] by (auto simp: kernel_ok_def enabled_def)
  obtain r s' where s': "kfork fr e p s = Inr (r, s')" "quiet {} s'" "sched_inv s'" "forked p s r s'"
    using kfork_ok [OF p(2) i(1) p(1)] by blast
  have "ticks s' = ticks s" using s'(4) by (simp add: forked_def)
  then have "steady s s'"
    using life_forked [OF i(2,1) p(1) s'(4)] times_forked [OF _ i(1) s'(4)] s'
    by (auto simp: steady_def kernel_ok_def at_rest_def)
  then show ?thesis using p s'(1) by (auto simp: kernel_step_def on_proc_def state_of_def)
qed

lemma step_closefiles:
  assumes "kernel_ok s" and "enabled CloseFiles s"
  shows "\<exists>s'. kernel_step fr e CloseFiles s = Inr s' \<and> steady s s'"
proof -
  obtain p where p: "cproc s = Some p" "quiet {} s" "initproc s \<noteq> Some p" and i: "sched_inv s" "life_ok s"
    using assms at_rest_quiet [of s] by (auto simp: kernel_ok_def enabled_def)
  let ?f = "\<lambda>x. x\<lparr>ofile := map (\<lambda>_. None) (ofile x), cwd := None\<rparr>"
  obtain w where w: "kexit_files e p s = Inr ((upd_proc p ?f s)\<lparr>world := w\<rparr>)"
    using p(3) by (auto simp: kexit_files_def Let_def on_world_def)
  have "steady s ((upd_proc p ?f s)\<lparr>world := w\<rparr>)"
    using i p(2) sched_inv_upd_same [OF i(1), of ?f p]
    by (intro steady_upd [where p = p and y = "?f (procs s ! p)"])
      (auto simp: procs_upd_proc keeps_life_def keeps_time_def at_rest_def)
  then show ?thesis using p w by (auto simp: kernel_step_def on_proc_def)
qed

lemma step_exit:
  assumes "kernel_ok s" and "enabled (Exit status) s"
  shows "\<exists>s'. kernel_step fr e (Exit status) s = Inr s' \<and> steady s s'"
proof -
  obtain p where p: "cproc s = Some p" "quiet {} s" "initproc s \<noteq> Some p" and i: "sched_inv s" "life_ok s"
    using assms at_rest_quiet [of s] by (auto simp: kernel_ok_def enabled_def)
  obtain s' where s': "kexit_last status p s = Inr s'" "quiet {} s'" "sched_inv s'"
      "\<forall>i < NPROC. procs s' ! i = exit_entry status p s i" "ticks s' = ticks s"
      "nextpid s' = nextpid s" "initproc s' = initproc s"
    using kexit_last_ok [OF p(2) i(1) p(1)] by blast
  then have "steady s s'"
    using life_exited [OF i(2,1) p(1,3) s'(4,6,7)] times_exited [OF _ s'(4,5)]
    by (auto simp: steady_def kernel_ok_def at_rest_def)
  then show ?thesis using p s'(1) by (auto simp: kernel_step_def on_proc_def)
qed

lemma steady_waited:
  assumes "sched_inv s" and "life_ok s" and "cproc s = Some p" and "waited addr p s r s'"
    and "quiet {} s'" and "sched_inv s'"
  shows "steady s s'"
  using assms life_waited [OF assms(2,1,3,4)] times_waited [OF _ _ assms(4)]
  by (auto simp: steady_def kernel_ok_def at_rest_def waited_def sched_inv_def)

lemma waited_cpu [simp]: "waited addr p (s\<lparr>cpu := c\<rparr>) r s' = waited addr p s r s'"
  by (auto simp: waited_def cong: option.case_cong)

lemma step_wait:
  assumes "kernel_ok s" and "enabled (Wait addr) s"
  shows "\<exists>s'. kernel_step fr e (Wait addr) s = Inr s' \<and> steady s s'"
proof -
  obtain p where p: "cproc s = Some p" "quiet {} s" and i: "sched_inv s" "life_ok s"
    using assms at_rest_quiet [of s] by (auto simp: kernel_ok_def enabled_def)
  obtain c where c: "acq WaitLock s = Inr (s\<lparr>cpu := c\<rparr>)" "hart_ok {WaitLock} c"
    using acq_ok [OF p(2), of WaitLock] by auto
  obtain r s' where s': "kwait_pass e addr p (s\<lparr>cpu := c\<rparr>) = Inr (r, s')" "quiet {} s'" "sched_inv s'"
      "waited addr p (s\<lparr>cpu := c\<rparr>) r s'"
    using kwait_pass_ok [of "s\<lparr>cpu := c\<rparr>" p e addr] c i p by auto
  have "waited addr p s r s'" using s'(4) by simp
  then show ?thesis
    using steady_waited [OF i p(1)] s' p c by (auto simp: kernel_step_def on_proc_def state_of_def kwait_start_def)
qed

lemma steady_trans: "steady s t \<Longrightarrow> steady t u \<Longrightarrow> steady s u"
  by (simp add: steady_def)

lemma step_waitagain:
  assumes "kernel_ok s" and "enabled (WaitAgain ie addr) s"
  shows "\<exists>s'. kernel_step fr e (WaitAgain ie addr) s = Inr s' \<and> steady s s'"
proof -
  obtain p where p: "cproc s = Some p" "quiet {PLock p} s" and i: "sched_inv s" "life_ok s"
    using assms at_rest_switched [of s] by (auto simp: kernel_ok_def enabled_def)
  let ?s = "upd_proc p (\<lambda>x. x\<lparr>chan := NoChan\<rparr>) s"
  obtain c where c: "sleep_return ie p WaitLock s = Inr (?s\<lparr>cpu := c\<rparr>)" "hart_ok {WaitLock} c"
    using sleep_return_ok [OF p(2)] by blast
  obtain c0 where c0: "rel WaitLock (?s\<lparr>cpu := c\<rparr>) = Inr (?s\<lparr>cpu := c0\<rparr>)" "hart_ok {} c0"
    using rel_ok [of "{WaitLock}" "?s\<lparr>cpu := c\<rparr>" WaitLock] c(2) by auto
  have "state (procs s ! p) = RUNNING" using i p by (auto simp: sched_inv_def running_ok_def)
  then have st: "steady s (?s\<lparr>cpu := c0\<rparr>)" using steady_nochan [OF i(2,1) _ c0(2)] by simp
  then have j: "sched_inv ?s" "life_ok (?s\<lparr>cpu := c0\<rparr>)" by (auto simp: steady_def kernel_ok_def)
  obtain r s' where s': "kwait_pass e addr p (?s\<lparr>cpu := c\<rparr>) = Inr (r, s')" "quiet {} s'" "sched_inv s'"
      "waited addr p (?s\<lparr>cpu := c\<rparr>) r s'"
    using kwait_pass_ok [of "?s\<lparr>cpu := c\<rparr>" p e addr] c j p by auto
  have "waited addr p (?s\<lparr>cpu := c0\<rparr>) r s'" using s'(4) by simp
  then have "steady (?s\<lparr>cpu := c0\<rparr>) s'"
    using steady_waited [of "?s\<lparr>cpu := c0\<rparr>" p addr r s'] j s' p by simp
  then show ?thesis
    using steady_trans [OF st] s' p c by (auto simp: kernel_step_def on_proc_def state_of_def)
qed

lemma step_grow:
  assumes "kernel_ok s" and "enabled (Grow n) s"
  shows "\<exists>s'. kernel_step fr e (Grow n) s = Inr s' \<and> steady s s'"
proof -
  obtain p where p: "cproc s = Some p" "quiet {} s" and i: "sched_inv s" "life_ok s"
    using assms at_rest_quiet [of s] by (auto simp: kernel_ok_def enabled_def)
  have same: "sched_inv (upd_proc p (\<lambda>x. x\<lparr>sz := z\<rparr>) s)" for z
    by (rule sched_inv_upd_same [OF i(1)]) simp_all
  have "steady s ((upd_proc p (\<lambda>x. x\<lparr>sz := z\<rparr>) s)\<lparr>world := w\<rparr>)" for z w
    using i p(2) same by (intro steady_upd [where p = p and y = "(procs s ! p)\<lparr>sz := z\<rparr>"])
      (auto simp: procs_upd_proc keeps_life_def keeps_time_def at_rest_def)
  moreover have "steady s (s\<lparr>world := w\<rparr>)" for w
    using i p(2) by (intro steadyI) (auto simp: at_rest_def kept_def kept_time_def)
  moreover have "\<exists>z w. snd (growproc e n p s) = (upd_proc p (\<lambda>x. x\<lparr>sz := z\<rparr>) s)\<lparr>world := w\<rparr> \<or>
      snd (growproc e n p s) = s\<lparr>world := w\<rparr>"
    by (auto simp: growproc_def Let_def call_world_def split: prod.splits)
      (metis kernel.surjective kernel.update_convs(10))+
  ultimately have "steady s (snd (growproc e n p s))" by metis
  then show ?thesis using p by (auto simp: kernel_step_def on_proc_def)
qed

lemma step_tick:
  assumes "kernel_ok s" and "enabled Tick s"
  shows "\<exists>s'. kernel_step fr e Tick s = Inr s' \<and> kernel_ok s' \<and> ticks s' = ticks s + 1 \<and>
    (times_ok s \<and> ticks s + 1 \<noteq> 0 \<longrightarrow> times_ok s')"
proof -
  have q: "quiet {} s" and i: "sched_inv s" "life_ok s" and len: "length (procs s) = NPROC"
    using assms at_rest_quiet [of s] by (auto simp: kernel_ok_def enabled_def sched_inv_def)
  let ?a = "accounted (s\<lparr>ticks := ticks s + 1\<rparr>)"
  obtain s1 c where s1: "woken_upto NPROC TicksChan ?a s1" "sched_inv s1"
      "clockintr s = Inr ((if (ticks s + 1) mod 48 = 0 then boosted s1 else s1)\<lparr>cpu := c\<rparr>)" "hart_ok {} c"
    using clockintr_ok [OF q] i by auto
  define t where "t = (if (ticks s + 1) mod 48 = 0 then boosted s1 else s1)"
  have la: "length (procs ?a) = NPROC" and l1: "length (procs s1) = NPROC"
    using len s1(2) by (simp_all add: accounted_def sched_inv_def)
  have "kept s ?a" using kept_accounted [of "s\<lparr>ticks := ticks s + 1\<rparr>"] len by (simp add: kept_def)
  moreover have "kept ?a s1" "kept_time ?a s1" using kept_woken [OF la s1(1)] by simp_all
  moreover have k1: "kept s1 t" "kept_time s1 t" using kept_boosted [OF l1] by (simp_all add: t_def)
  ultimately have "life_ok t" using life_kept i(2) by metis
  moreover have "sched_inv t" using sched_inv_boosted [OF s1(2)] s1(2) by (simp add: t_def)
  ultimately have "kernel_ok (t\<lparr>cpu := c\<rparr>)"
    using s1(4) life_kept [of t "t\<lparr>cpu := c\<rparr>"] by (simp add: kernel_ok_def at_rest_cpu)
  moreover have "ticks t = ticks s + 1"
    using k1(2) s1(1) by (simp add: kept_time_def woken_upto_def accounted_def)
  moreover have "times_ok t" if "times_ok s" "ticks s + 1 \<noteq> 0"
    using times_accounted [OF that(1) len that(2)] \<open>kept_time ?a s1\<close> k1(2) times_kept by metis
  ultimately show ?thesis
    using s1(3) times_kept [of t "t\<lparr>cpu := c\<rparr>"] by (auto simp: kernel_step_def t_def)
qed

lemmas steady_steps = step_schedule step_resume step_awake step_yield step_sleep step_wakeup step_kill
  step_setkilled step_fork step_closefiles step_exit step_wait step_waitagain step_grow

lemma step_ok:
  assumes "kernel_ok s" and "enabled ev s"
  shows "\<exists>s'. kernel_step fr e ev s = Inr s' \<and> kernel_ok s' \<and>
    ticks s' = ticks s + (if ev = Tick then 1 else 0) \<and>
    (times_ok s \<and> (ev = Tick \<longrightarrow> ticks s + 1 \<noteq> 0) \<longrightarrow> times_ok s')"
proof (cases "ev = Tick")
  case True
  then show ?thesis using step_tick [OF assms(1)] assms(2) by auto
next
  case False
  then have "\<exists>s'. kernel_step fr e ev s = Inr s' \<and> steady s s'"
    using assms by (cases ev) (simp_all add: steady_steps)
  with False show ?thesis by (auto simp: steady_def)
qed

section \<open>Boot\<close>

lemma zero_procs:
  "procs (procinit (zero_kernel w)) = map (\<lambda>p. zero_proc\<lparr>kstack := KSTACK p\<rparr>) [0..<NPROC]"
proof -
  have "zero_proc\<lparr>state := UNUSED, kstack := k\<rparr> = zero_proc\<lparr>kstack := k\<rparr>" for k by (simp add: zero_proc_def)
  then show ?thesis by (simp add: procinit_def zero_kernel_def)
qed

lemma zero_queues:
  "qcount (procinit (zero_kernel w)) = replicate 4 0" "cproc (procinit (zero_kernel w)) = None"
  "mlfq (procinit (zero_kernel w)) = replicate 4 (replicate NPROC 0)"
  "q < 4 \<Longrightarrow> level q (procinit (zero_kernel w)) = []"
  by (simp_all add: procinit_def zero_kernel_def level_def)

lemma zero_inv: "sched_inv (procinit (zero_kernel w))" "quiet {} (procinit (zero_kernel w))"
proof -
  have nth: "procs (procinit (zero_kernel w)) ! p = zero_proc\<lparr>kstack := KSTACK p\<rparr>" if "p < NPROC" for p
    using that by (simp add: zero_procs)
  show "quiet {} (procinit (zero_kernel w))"
    by (simp add: quiet_def hart_ok_def procinit_def zero_kernel_def)
  have "queues_wf (procinit (zero_kernel w))" by (simp add: queues_wf_def zero_queues)
  moreover have "ready_ok (procinit (zero_kernel w))"
    using nth by (auto simp: ready_ok_def zero_queues(4) zero_proc_def)
  moreover have "running_ok (procinit (zero_kernel w))"
    using nth by (auto simp: running_ok_def zero_queues zero_proc_def)
  moreover have "length (procs (procinit (zero_kernel w))) = NPROC" by (simp add: zero_procs)
  ultimately show "sched_inv (procinit (zero_kernel w))"
    using nth by (auto simp: sched_inv_def proc_ok_def zero_proc_def time_slice_def)
qed

text \<open>The first process: slot 0, number 1, alone at the highest level.\<close>

lemma zero_slot: "free_slot (procinit (zero_kernel w)) = Some 0"
proof -
  have "[0..<NPROC] = 0 # [1..<NPROC]" by (simp add: NPROC_def upt_conv_Cons)
  then show ?thesis by (simp add: free_slot_def zero_procs zero_proc_def NPROC_def)
qed

lemma userinit_born_ok:
  assumes "sched_inv s" and "free_slot s = Some p" and "hart_ok {PLock p} c1"
    and al: "allocproc fr e s = Inr (Some p, (upd_proc p (born (ticks s) (nextpid s) fr tf pt) s)
      \<lparr>nextpid := nextpid s + 1, world := w1, cpu := c1\<rparr>)"
  shows "\<exists>s' y. userinit fr e s = Inr s' \<and> quiet {} s' \<and> sched_inv s' \<and> procs s' = (procs s)[p := y] \<and>
    state y = RUNNABLE \<and> pid y = nextpid s \<and> parent y = parent (procs s ! p) \<and> creation_time y = ucast (ticks s) \<and>
    rtime y = 0 \<and> iotime y = 0 \<and> initproc s' = Some p \<and> nextpid s' = nextpid s + 1 \<and> ticks s' = ticks s"
proof -
  have p: "p < NPROC" "state (procs s ! p) = UNUSED" and len: "length (procs s) = NPROC"
    using free_slot_SomeD [OF assms(2)] assms(1) by (auto simp: sched_inv_def)
  let ?b = "born (ticks s) (nextpid s) fr tf pt"
  obtain ip w2 where n: "namei_op e ''/'' w1 = (ip, w2)" by fastforce
  let ?s1 = "(upd_proc p (\<lambda>x. (?b x)\<lparr>cwd := ip\<rparr>) s)\<lparr>nextpid := nextpid s + 1, initproc := Some p, world := w2\<rparr>"
  let ?t = "enqueue_body 0 p (upd_proc p (\<lambda>x. x\<lparr>state := RUNNABLE\<rparr>) ?s1)"
  have x: "procs ?s1 ! p = (?b (procs s ! p))\<lparr>cwd := ip\<rparr>" using p len by (simp add: nth_upd_proc)
  have "proc_ok ((?b x)\<lparr>cwd := ip\<rparr>)" for x
    using proc_ok_fresh(2) [of "ticks s" "nextpid s" fr tf pt x] by (simp add: proc_ok_def)
  then have i: "sched_inv ?s1"
    using sched_inv_unused [OF assms(1) p, where f = "\<lambda>x. (?b x)\<lparr>cwd := ip\<rparr>"] by simp
  obtain c2 where c2: "make_runnable p (?s1\<lparr>cpu := c1\<rparr>) = Inr (?t\<lparr>cpu := c2\<rparr>)" "hart_ok {PLock p} c2"
    using make_runnable_ok(1) [of "{PLock p}" "?s1\<lparr>cpu := c1\<rparr>" p] i assms(3) p x by auto
  obtain c3 where c3: "rel (PLock p) (?t\<lparr>cpu := c2\<rparr>) = Inr (?t\<lparr>cpu := c3\<rparr>)" "hart_ok {} c3"
    using rel_ok [of "{PLock p}" "?t\<lparr>cpu := c2\<rparr>" "PLock p"] c2(2) by auto
  have "sched_inv ?t"
    using make_runnable_ok(2) [of "{PLock p}" "?s1\<lparr>cpu := c1\<rparr>" p] i assms(3) p x by simp
  moreover have "userinit fr e s = Inr (?t\<lparr>cpu := c3\<rparr>)"
    using al n c2(1) c3(1) by (simp add: userinit_def call_world_def make_runnable_def Let_def)
  moreover have "procs ?t = (procs s)[p := (?b (procs s ! p))\<lparr>cwd := ip, state := RUNNABLE\<rparr>]"
    using p len by (simp add: procs_upd_proc)
  ultimately show ?thesis using c3(2) by (auto simp: born_def fresh_def)
qed

lemma boot_ok:
  assumes "fst (kalloc_op e w) \<noteq> 0" and "fst (proc_pagetable_op e (fst (kalloc_op e w)) (snd (kalloc_op e w))) \<noteq> 0"
  shows "\<exists>s. boot fr e w = Inr s"
proof -
  let ?z = "procinit (zero_kernel w)"
  have "world ?z = w" by (simp add: procinit_def zero_kernel_def)
  then obtain c w1 tf pt where a: "hart_ok {PLock 0} c" "allocproc fr e ?z = Inr (Some 0,
      (upd_proc 0 (born (ticks ?z) (nextpid ?z) fr tf pt) ?z)\<lparr>nextpid := nextpid ?z + 1, world := w1, cpu := c\<rparr>)"
    using allocproc_ok [of "{}" ?z fr e] zero_inv [of w] zero_slot [of w] assms by auto
  show ?thesis using userinit_born_ok [OF zero_inv(1) zero_slot a] by (auto simp: boot_def)
qed

lemma boot_inv:
  assumes "boot fr e w = Inr s"
  shows "kernel_ok s \<and> ticks s = 0 \<and> times_ok s"
proof -
  let ?z = "procinit (zero_kernel w)"
  obtain c w1 tf pt where a: "hart_ok (if tf \<noteq> 0 \<and> pt \<noteq> 0 then {PLock 0} else {}) c"
    "allocproc fr e ?z = (if tf \<noteq> 0 \<and> pt \<noteq> 0
       then Inr (Some 0, (upd_proc 0 (born (ticks ?z) (nextpid ?z) fr tf pt) ?z)
             \<lparr>nextpid := nextpid ?z + 1, world := w1, cpu := c\<rparr>)
       else Inr (None, (upd_proc 0 (spoiled (ticks ?z)) ?z)
             \<lparr>nextpid := nextpid ?z + 1, world := w1, cpu := c\<rparr>))"
    using allocproc_ok [of "{}" ?z fr e] zero_inv [of w] zero_slot [of w] by auto
  have t: "tf \<noteq> 0 \<and> pt \<noteq> 0"
    using assms a(2) by (auto simp: boot_def userinit_def split: if_splits)
  have al: "hart_ok {PLock 0} c" "allocproc fr e ?z = Inr (Some 0,
      (upd_proc 0 (born (ticks ?z) (nextpid ?z) fr tf pt) ?z)\<lparr>nextpid := nextpid ?z + 1, world := w1, cpu := c\<rparr>)"
    using a t by simp_all
  obtain y where s: "quiet {} s" "sched_inv s" "procs s = (procs ?z)[0 := y]" "state y = RUNNABLE"
      "pid y = nextpid ?z" "parent y = parent (procs ?z ! 0)" "creation_time y = ucast (ticks ?z)" "rtime y = 0"
      "iotime y = 0" "initproc s = Some 0" "nextpid s = nextpid ?z + 1" "ticks s = ticks ?z"
    using userinit_born_ok [OF zero_inv(1) zero_slot al] assms by (auto simp: boot_def)
  have z: "nextpid ?z = 1" "ticks ?z = 0" "parent (procs ?z ! 0) = None"
    by (simp_all add: procinit_def zero_kernel_def zero_proc_def NPROC_def)
  have nth: "procs s ! i = (if i = 0 then y else zero_proc\<lparr>kstack := KSTACK i\<rparr>)" if "i < NPROC" for i
    using s(3) that by (simp add: zero_procs)
  have "life_ok s"
    using nth s z by (auto simp: life_ok_def pids_ok_def family_ok_def wait_ok_def alive_def zero_proc_def NPROC_def)
  moreover have "times_ok s"
    using nth s z by (auto simp: times_ok_def zero_proc_def)
  ultimately show ?thesis using s z by (simp add: kernel_ok_def at_rest_def)
qed

section \<open>Runs\<close>

lemma run_inv:
  assumes "run fr e w n s"
  shows "kernel_ok s \<and> ticks s = of_nat n \<and> (n < 2 ^ 32 \<longrightarrow> times_ok s)"
  using assms
proof (induction rule: run.induct)
  case (start s)
  then show ?case using boot_inv [OF start] by auto
next
  case (step n s ev s')
  have "ticks s + 1 \<noteq> 0" if "Suc n < 2 ^ 32"
  proof -
    have "of_nat (Suc n) \<noteq> (0 :: 32 word)"
      using that nat_dvd_not_less [of "Suc n" "2 ^ 32"] by (simp only: word_of_nat_eq_0_iff) simp
    then show ?thesis using step.IH by (simp add: add.commute)
  qed
  then show ?case
    using step_ok [of s ev fr e] step by (auto simp: add.commute)
qed

lemmas run_kernel_ok = run_inv [THEN conjunct1]

text \<open>A list of steps, each taken where it may be.\<close>

fun play :: "64 word \<Rightarrow> 'w env \<Rightarrow> event list \<Rightarrow> 'w kernel \<Rightarrow> 'w kernel res" where
  "play fr e [] s = Inr s"
| "play fr e (ev # evs) s =
    (if enabled ev s then seq (kernel_step fr e ev s) (play fr e evs) else Inl ''not enabled'')"

lemma play_run:
  "run fr e w n s \<Longrightarrow> play fr e evs s = Inr s' \<Longrightarrow> run fr e w (n + length (filter (\<lambda>ev. ev = Tick) evs)) s'"
proof (induction evs arbitrary: n s)
  case Nil
  then show ?case by simp
next
  case (Cons ev evs)
  then obtain s1 where s1: "enabled ev s" "kernel_step fr e ev s = Inr s1" "play fr e evs s1 = Inr s'"
    by (auto simp: seq_eq_Inr split: if_splits)
  then show ?case using Cons.IH [OF run.step [OF Cons.prems(1) s1(1,2)] s1(3)] by (simp split: if_splits)
qed

end
