(* ===== verification/Kernel_Demo.thy ===== *)
theory Kernel_Demo
  imports Kernel_Run
begin

text \<open>
  A concrete run of the kernel, evaluated step by step.
\<close>

text \<open>Memory and file code that always succeeds and changes nothing, for examples.\<close>

definition calm_env :: "unit env" where
  "calm_env = \<lparr>kalloc_op = \<lambda>w. (4096, w), kfree_op = \<lambda>_ w. w, proc_pagetable_op = \<lambda>_ w. (8192, w),
     proc_freepagetable_op = \<lambda>_ _ w. w, uvmalloc_op = \<lambda>_ _ z w. (z, w), uvmdealloc_op = \<lambda>_ _ z w. (z, w),
     uvmcopy_op = \<lambda>_ _ _ w. (0, w), copy_trapframe_op = \<lambda>_ _ w. w, filedup_op = \<lambda>f w. (f, w),
     fileclose_op = \<lambda>_ w. w, idup_op = \<lambda>i w. (i, w), iput_op = \<lambda>_ w. w, begin_op_op = \<lambda>w. w,
     end_op_op = \<lambda>w. w, namei_op = \<lambda>_ w. (Some 1, w), copyout_op = \<lambda>_ _ _ w. (0, w)\<rparr>"

lemma calm_boot: "\<exists>s. run 0 calm_env () 0 s"
proof -
  obtain s where "boot 0 calm_env () = Inr s" using boot_ok [of calm_env "()" 0] by (auto simp: calm_env_def)
  then show ?thesis using run.start [of 0 calm_env "()"] by blast
qed

text \<open>
  A run in which init forks twice and gives up the processor, the first child exits, and the
  second runs.
\<close>

definition demo_events :: "event list" where
  "demo_events = [Schedule, Resume True, Fork, Fork, Yield, Schedule, Resume True, Exit 7, Schedule, Resume True]"

definition demo_state :: "unit kernel \<Rightarrow> bool" where
  "demo_state s \<longleftrightarrow> cproc s = Some 2 \<and> locked (cpu s) = {} \<and> initproc s = Some 0 \<and> pid (procs s ! 2) = 3 \<and>
     state (procs s ! 1) = ZOMBIE \<and> parent (procs s ! 1) = Some 0 \<and> free_slot s = Some 3"

lemma demo_eval:
  "(case boot 0 calm_env () of Inl _ \<Rightarrow> False
    | Inr s \<Rightarrow> (case play 0 calm_env demo_events s of Inl _ \<Rightarrow> False | Inr s' \<Rightarrow> demo_state s'))"
  by code_simp

lemma demo_run: "\<exists>s. run 0 calm_env () 0 s \<and> demo_state s"
proof -
  obtain s s' where "boot 0 calm_env () = Inr s" "play 0 calm_env demo_events s = Inr s'" "demo_state s'"
    using demo_eval by (auto split: sum.splits)
  then show ?thesis
    using play_run [OF run.start, of 0 calm_env "()" s demo_events s'] by (auto simp: demo_events_def)
qed

lemma run_switched_out: "run fr e w n s \<Longrightarrow> \<exists>ev. enabled ev s"
proof -
  assume "run fr e w n s"
  then have "at_rest s" using run_kernel_ok [of fr e w n s] by (auto simp: kernel_ok_def)
  then show ?thesis
    by (auto simp: at_rest_def enabled_def switched_def quiet_def hart_ok_def
        intro: exI [of _ Tick] exI [of _ "Resume True"])
qed

lemma calm_init: "\<exists>s p. run 0 calm_env () 0 s \<and> initproc s = Some p \<and> alive s p"
  using calm_boot run_kernel_ok [of 0 calm_env "()" 0] by (fastforce simp: kernel_ok_def life_ok_def family_ok_def)

end
