(* ===== verification/Kernel_Liveness.thy ===== *)
theory Kernel_Liveness
  imports Kernel_Demo
begin

text \<open>
  No process starves: steps other than a scheduling decision only append to the queue of level 0 and leave a RUNNABLE process RUNNABLE,
  every 48th tick brings the RUNNABLE processes to level 0, and each decision serves the head of that queue.
\<close>

section \<open>The queue of level 0 only grows at its end\<close>

definition grows :: "'w kernel \<Rightarrow> 'w kernel \<Rightarrow> bool" where
  "grows s s' \<longleftrightarrow> (queues_wf s \<longrightarrow> queues_wf s' \<and> (\<exists>X. level 0 s' = level 0 s @ X))"

named_theorems grow

lemma grows_trans: "grows s t \<Longrightarrow> grows t u \<Longrightarrow> grows s u"
  unfolding grows_def by (metis append.assoc)

lemma grows_same: "qcount s' = qcount s \<Longrightarrow> mlfq s' = mlfq s \<Longrightarrow> grows s s'"
  by (simp add: grows_def queues_wf_def level_def)

lemma grows_upd [simp]: "grows s (upd_proc p f s)" "grows s s" "grows (upd_proc p f s) t = grows s t" "grows s (upd_proc p f t) = grows s t"
  by (auto simp: grows_def queues_wf_def level_def)

lemma grows_fields [simp]:
  "grows s (t\<lparr>cproc := c\<rparr>) = grows s t" "grows s (t\<lparr>cpu := h\<rparr>) = grows s t" "grows s (t\<lparr>kout := k\<rparr>) = grows s t"
  "grows s (t\<lparr>ticks := n\<rparr>) = grows s t" "grows s (t\<lparr>world := w\<rparr>) = grows s t"
  "grows (s\<lparr>cproc := c\<rparr>) t = grows s t" "grows (s\<lparr>cpu := h\<rparr>) t = grows s t" "grows (s\<lparr>kout := k\<rparr>) t = grows s t"
  "grows (s\<lparr>ticks := n\<rparr>) t = grows s t" "grows (s\<lparr>world := w\<rparr>) t = grows s t"
  by (simp_all add: grows_def queues_wf_def level_def)

lemma grows_acq [grow]: "acq lk s = Inr s' \<Longrightarrow> grows s s'"
  by (auto simp: acq_def seq_eq_Inr)

lemma grows_rel [grow]: "rel lk s = Inr s' \<Longrightarrow> grows s s'"
  by (auto simp: rel_def seq_eq_Inr)

lemma grows_with_lock:
  assumes "with_lock lk f s = Inr s'" and "\<And>t t'. f t = Inr t' \<Longrightarrow> grows t t'"
  shows "grows s s'"
  using assms(1) unfolding with_lock_def seq_eq_Inr by (metis assms(2) grows_acq grows_rel grows_trans)

lemma grows_for_each:
  assumes "for_each f is s = Inr s'" and "\<And>i t t'. f i t = Inr t' \<Longrightarrow> grows t t'"
  shows "grows s s'"
  using assms(1)
proof (induction "is" arbitrary: s)
  case (Cons i "is")
  then show ?case using assms(2) grows_trans by (auto simp: seq_eq_Inr) blast
qed simp

lemma grows_enqueue [grow]: "enqueue q p s = Inr s' \<Longrightarrow> grows s s'"
proof -
  assume a: "enqueue q p s = Inr s'"
  then have q: "0 \<le> q" "nat q < 4" by (auto simp: enqueue_def split: if_splits)
  have "grows t (enqueue_body (nat q) p t)" if "qcount t ! nat q < NPROC" for t :: "'a kernel"
    using that q by (auto simp: grows_def queues_wf_enqueue_body level_enqueue_body length_level)
  then show ?thesis using a q by (auto simp: enqueue_def split: if_splits elim!: grows_with_lock)
qed

lemma grows_runnable [grow]: "make_runnable p s = Inr s' \<Longrightarrow> grows s s'"
  unfolding make_runnable_def Let_def by (drule grows_enqueue) simp

lemma grows_wakeup [grow]: "wakeup ch s = Inr s' \<Longrightarrow> grows s s'"
  unfolding wakeup_def
proof (erule grows_for_each)
  fix i and t t' :: "'a kernel"
  assume "wakeup_one ch i t = Inr t'"
  then show "grows t t'"
    by (auto simp: wakeup_one_def split: if_splits dest: grows_runnable elim!: grows_with_lock)
qed


lemma grows_sched [grow]: "sched s = Inr s' \<Longrightarrow> grows s s'"
  by (auto simp: sched_def split: option.splits if_splits dest: grows_rel)

lemma grows_kill [grow]: "kkill k s = Inr (r, s') \<Longrightarrow> grows s s'"
proof -
  have "kkill_loop ps k s = Inr (r, s') \<Longrightarrow> grows s s'" for ps
  proof (induction ps arbitrary: s)
    case (Cons p ps)
    then obtain s1 where s1: "grows s s1" "(if pid (procs s1 ! p) = k then seq (kill_proc p s1) (\<lambda>s. seq (rel (PLock p) s) (\<lambda>s. Inr (0, s)))
        else seq (rel (PLock p) s1) (kkill_loop ps k)) = Inr (r, s')"
      by (auto simp: seq_eq_Inr dest: grows_acq)
    have "grows t t'" if "kill_proc p t = Inr t'" for t t' :: "'a kernel"
      using that by (auto simp: kill_proc_def Let_def split: if_splits dest: grows_runnable)
    then have "grows s1 s'" using s1(2) Cons.IH by (auto simp: seq_eq_Inr split: if_splits) (blast intro: grows_trans grows_rel)+
    with s1(1) show ?case by (rule grows_trans)
  qed simp
  then show "kkill k s = Inr (r, s') \<Longrightarrow> grows s s'" by (simp add: kkill_def)
qed

lemma grows_reparent [grow]: "reparent p s = Inr s' \<Longrightarrow> grows s s'"
  unfolding reparent_def
  by (erule grows_for_each) (auto simp: reparent_one_def Let_def split: if_splits dest: grows_wakeup)

lemma grows_exit [grow]:
  assumes "kexit_last status p s = Inr s'"
  shows "grows s s'"
proof -
  obtain s1 s2 s3 s4 s5 where s: "acq WaitLock s = Inr s1" "reparent p s1 = Inr s2" "wakeup (proc_chan (parent (procs s2 ! p))) s2 = Inr s3"
      "acq (PLock p) s3 = Inr s4" "sched s5 = Inr s'" and r: "grows s4 s5"
    using assms by (auto simp: kexit_last_def seq_eq_Inr Let_def dest!: grows_rel)
  show ?thesis
    by (rule grows_trans [OF grows_acq [OF s(1)] grows_trans [OF grows_reparent [OF s(2)] grows_trans [OF grows_wakeup [OF s(3)]
      grows_trans [OF grows_acq [OF s(4)] grows_trans [OF r grows_sched [OF s(5)]]]]]])
qed

lemma grows_sleep [grow]: "sleep ch lk s = Inr s' \<Longrightarrow> grows s s'"
  by (auto simp: sleep_def seq_eq_Inr split: option.splits dest!: grows_acq grows_rel grows_sched) (blast intro: grows_trans)

lemma grows_freeproc [simp]: "grows s (freeproc e p t) = grows s t" "grows (freeproc e p s) t = grows s t"
  by (simp_all add: freeproc_def Let_def on_world_def)

lemma grows_killed [grow]: "killed p s = Inr (k, s') \<Longrightarrow> grows s s'"
  by (auto simp: killed_def seq_eq_Inr Let_def dest!: grows_acq grows_rel intro: grows_trans)

lemma grows_kwait_scan: "kwait_scan e addr p pps havekids s = Inr (r, s') \<Longrightarrow> grows s s'"
proof (induction pps arbitrary: havekids s)
  case (Cons pp pps)
  show ?case
  proof (cases "parent (procs s ! pp) = Some p")
    case True
    then obtain s1 where s1: "acq (PLock pp) s = Inr s1" "kwait_scan e addr p (pp # pps) havekids s = Inr (r, s')"
      using Cons.prems by (auto simp: seq_eq_Inr)
    have "grows s1 s'"
    proof (cases "state (procs s1 ! pp) = ZOMBIE")
      case False
      then show ?thesis using s1 True Cons.IH by (auto simp: seq_eq_Inr dest!: grows_rel intro: grows_trans)
    next
      case True
      obtain c t where t: "(if addr \<noteq> 0 then call_world (copyout_op e (pagetable (procs s1 ! p)) addr (xstate (procs s1 ! pp))) s1 else (0, s1)) = (c, t)"
        by force
      then have g: "grows s1 t" by (auto simp: call_world_def split: if_splits prod.splits)
      have "grows t s'"
        using s1 True \<open>parent (procs s ! pp) = Some p\<close> t
        by (auto simp: seq_eq_Inr Let_def split: if_splits dest!: grows_rel intro: grows_trans)
      with g show ?thesis by (rule grows_trans)
    qed
    then show ?thesis using grows_acq [OF s1(1)] grows_trans by blast
  next
    case False
    then show ?thesis using Cons by simp
  qed
qed simp

lemma grows_kwait_pass [grow]: "kwait_pass e addr p s = Inr (r, s') \<Longrightarrow> grows s s'"
proof -
  assume a: "kwait_pass e addr p s = Inr (r, s')"
  then obtain x s1 where s1: "kwait_scan e addr p [0..<NPROC] False s = Inr (x, s1)" by (auto simp: kwait_pass_def seq_eq_Inr)
  have "grows s1 s'"
  proof (cases x)
    case (Reaped i)
    then show ?thesis using a s1 by (simp add: kwait_pass_def)
  next
    case (Kids h)
    obtain k s2 where s2: "(if h then killed p s1 else Inr (1, s1)) = Inr (k, s2)"
        "(if k \<noteq> 0 then seq (rel WaitLock s2) (\<lambda>s. Inr (Some (-1), s)) else seq (sleep (ProcChan p) WaitLock s2) (\<lambda>s. Inr (None, s))) = Inr (r, s')"
      using a s1 Kids by (auto simp: kwait_pass_def seq_eq_Inr)
    then have "grows s1 s2" by (auto split: if_splits dest: grows_killed)
    moreover have "grows s2 s'" using s2(2) by (auto simp: seq_eq_Inr split: if_splits dest: grows_rel grows_sleep)
    ultimately show ?thesis by (rule grows_trans)
  qed
  then show ?thesis using grows_kwait_scan [OF s1] grows_trans by blast
qed


section \<open>What one step does to a process that waits\<close>

definition stays :: "'w kernel \<Rightarrow> 'w kernel \<Rightarrow> bool" where
  "stays s s' \<longleftrightarrow> (\<forall>p < NPROC. state (procs s ! p) = RUNNABLE \<longrightarrow> state (procs s' ! p) = RUNNABLE)"

lemma stays_upd:
  assumes "length (procs s) = NPROC" and "procs s' = (procs s)[p := y]" and "state (procs s ! p) \<noteq> RUNNABLE \<or> state y = RUNNABLE"
  shows "stays s s'"
  unfolding stays_def assms(2) using assms(1,3) by (metis nth_list_update_eq nth_list_update_neq)

lemma stays_same: "procs s' = procs s \<Longrightarrow> stays s s'"
  by (simp add: stays_def)

text \<open>A change of the entry of the running process alone.\<close>

lemma only_same: "procs t = procs s \<Longrightarrow> \<exists>y. procs t = (procs s)[p := y]"
  by (metis list_update_id)

lemma procs_acq: "acq lk s = Inr t \<Longrightarrow> procs t = procs s"
  by (auto simp: acq_def seq_eq_Inr)

lemma procs_rel: "rel lk s = Inr t \<Longrightarrow> procs t = procs s"
  by (auto simp: rel_def seq_eq_Inr)

lemma procs_sched: "sched s = Inr t \<Longrightarrow> procs t = procs s"
  by (auto simp: sched_def split: option.splits if_splits dest: procs_rel)

lemma procs_enqueue: "enqueue q p s = Inr t \<Longrightarrow> procs t = procs s"
  by (auto simp: enqueue_def with_lock_def seq_eq_Inr split: if_splits dest!: procs_acq procs_rel)

lemmas procs_same = procs_acq procs_rel procs_sched procs_enqueue

lemma only_yield: "yield s = Inr t \<Longrightarrow> \<exists>p y. cproc s = Some p \<and> procs t = (procs s)[p := y]"
  by (auto simp: yield_def seq_eq_Inr Let_def procs_upd_proc split: option.splits if_splits dest!: procs_same)

lemma only_sleep: "sleep ch lk s = Inr t \<Longrightarrow> \<exists>p y. cproc s = Some p \<and> procs t = (procs s)[p := y]"
  by (auto simp: sleep_def seq_eq_Inr procs_upd_proc split: option.splits dest!: procs_same)

lemma cproc_acq: "acq lk s = Inr t \<Longrightarrow> cproc t = cproc s"
  by (auto simp: acq_def seq_eq_Inr)

lemma only_step:
  assumes "kernel_step fr e ev s = Inr t"
    and "\<exists>ie lk ch n. ev = Resume ie \<or> ev = Awake ie lk \<or> ev = Yield \<or> ev = Sleep ch lk \<or> ev = SetKilled \<or> ev = CloseFiles \<or> ev = Grow n"
  shows "\<exists>p y. cproc s = Some p \<and> procs t = (procs s)[p := y]"
  using assms(2)
proof (elim exE disjE)
  fix ie assume "ev = Resume ie"
  then show ?thesis using assms(1) by (auto simp: kernel_step_def on_proc_def resume_def split: option.splits dest!: procs_rel intro: only_same)
next
  fix ie lk assume "ev = Awake ie lk"
  then show ?thesis using assms(1)
    by (auto simp: kernel_step_def on_proc_def sleep_return_def Let_def seq_eq_Inr procs_upd_proc split: option.splits dest!: procs_same)
next
  assume "ev = Yield"
  then show ?thesis using assms(1) only_yield by (simp add: kernel_step_def)
next
  fix ch lk assume "ev = Sleep ch lk"
  then obtain s1 where s1: "acq lk s = Inr s1" "sleep ch lk s1 = Inr t" using assms(1) by (auto simp: kernel_step_def seq_eq_Inr)
  show ?thesis using only_sleep [OF s1(2)] procs_acq [OF s1(1)] cproc_acq [OF s1(1)] by simp
next
  assume "ev = SetKilled"
  then show ?thesis using assms(1)
    by (auto simp: kernel_step_def on_proc_def setkilled_def with_lock_def seq_eq_Inr procs_upd_proc split: option.splits dest!: procs_same)
next
  assume "ev = CloseFiles"
  then show ?thesis using assms(1)
    by (auto simp: kernel_step_def on_proc_def kexit_files_def Let_def on_world_def procs_upd_proc split: option.splits if_splits)
next
  fix n assume "ev = Grow n"
  then show ?thesis using assms(1)
    by (auto simp: kernel_step_def on_proc_def growproc_def Let_def call_world_def procs_upd_proc split: option.splits if_splits prod.splits intro: only_same)
qed


lemma grows_yield [grow]: "yield s = Inr s' \<Longrightarrow> grows s s'"
  by (auto simp: yield_def seq_eq_Inr Let_def split: option.splits if_splits dest!: grows_acq grows_rel grows_enqueue grows_sched)
    (blast intro: grows_trans)+

lemma grows_single:
  assumes "kernel_step fr e ev s = Inr t"
    and "\<exists>ie lk ch n. ev = Resume ie \<or> ev = Awake ie lk \<or> ev = Yield \<or> ev = Sleep ch lk \<or> ev = SetKilled \<or> ev = CloseFiles \<or> ev = Grow n"
  shows "grows s t"
  using assms(2)
proof (elim exE disjE)
  fix ie assume "ev = Resume ie"
  then show ?thesis using assms(1) by (auto simp: kernel_step_def on_proc_def resume_def split: option.splits dest!: grows_rel)
next
  fix ie lk assume "ev = Awake ie lk"
  then show ?thesis using assms(1)
    by (auto simp: kernel_step_def on_proc_def sleep_return_def Let_def seq_eq_Inr split: option.splits dest!: grows_acq grows_rel)
      (blast intro: grows_trans)
next
  assume "ev = Yield"
  then show ?thesis using assms(1) grows_yield by (simp add: kernel_step_def)
next
  fix ch lk assume "ev = Sleep ch lk"
  then show ?thesis using assms(1) by (auto simp: kernel_step_def seq_eq_Inr dest!: grows_acq grows_sleep intro: grows_trans)
next
  assume "ev = SetKilled"
  then show ?thesis using assms(1)
    by (auto simp: kernel_step_def on_proc_def setkilled_def split: option.splits elim!: grows_with_lock)
next
  assume "ev = CloseFiles"
  then show ?thesis using assms(1)
    by (auto simp: kernel_step_def on_proc_def kexit_files_def Let_def on_world_def split: option.splits if_splits)
next
  fix n assume "ev = Grow n"
  then show ?thesis using assms(1)
    by (auto simp: kernel_step_def on_proc_def growproc_def Let_def call_world_def split: option.splits if_splits prod.splits)
qed

text \<open>A clock tick, and that every 48th of them brings all RUNNABLE processes to level 0.\<close>

lemma tick_waits:
  assumes "kernel_ok s" and "enabled Tick s" and "kernel_step fr e Tick s = Inr s'"
  shows "(\<exists>X. level 0 s' = level 0 s @ X) \<and> stays s s' \<and>
    ((ticks s + 1) mod 48 = 0 \<longrightarrow> (\<forall>p < NPROC. state (procs s ! p) = RUNNABLE \<longrightarrow> p \<in> set (level 0 s')))"
proof -
  have q: "quiet {} s" and i: "sched_inv s" and len: "length (procs s) = NPROC"
    using assms at_rest_quiet [of s] by (auto simp: kernel_ok_def enabled_def sched_inv_def)
  let ?a = "accounted (s\<lparr>ticks := ticks s + 1\<rparr>)"
  obtain s1 c where s1: "woken_upto NPROC TicksChan ?a s1" "sched_inv s1"
      "clockintr s = Inr ((if (ticks s + 1) mod 48 = 0 then boosted s1 else s1)\<lparr>cpu := c\<rparr>)"
    using clockintr_ok [OF q] i by auto
  have s': "s' = (if (ticks s + 1) mod 48 = 0 then boosted s1 else s1)\<lparr>cpu := c\<rparr>" using assms(3) s1(3) by (simp add: kernel_step_def)
  have l1: "length (procs s1) = NPROC" "queues_wf s1" using s1(2) by (simp_all add: sched_inv_def)
  have "level 0 ?a = level 0 s" by (simp add: accounted_def level_def)
  then obtain X where X: "level 0 s1 = level 0 s @ X" using s1(1) by (auto simp: woken_upto_def)
  have st: "state (procs s1 ! p) = RUNNABLE" if "p < NPROC" "state (procs s ! p) = RUNNABLE" for p
    using s1(1) that len by (auto simp: woken_upto_def accounted_def woken_def sleeps_on_def account_def)
  have b: "level 0 (boosted s1) = queued s1" by (rule boosted_queues(2) [OF l1(2) queued_fits [OF s1(2)]])
  have "\<exists>X. level 0 s' = level 0 s @ X" using X b by (auto simp: s' queued_def)
  moreover have "stays s s'" using st l1 by (auto simp: stays_def s' boosted_frame reset_priority_def)
  moreover have "p \<in> set (level 0 s')" if "(ticks s + 1) mod 48 = 0" "p < NPROC" "state (procs s ! p) = RUNNABLE" for p
  proof -
    have "proc_ok (procs s1 ! p)" using s1(2) that(2) by (auto simp: sched_inv_def)
    then obtain r where r: "queue (procs s1 ! p) = int r" "r < 4" using proc_ok_level by blast
    have "p \<in> set (level r s1)" using s1(2) st [OF that(2,3)] r that(2) by (auto simp: sched_inv_def ready_ok_def)
    then have "p \<in> set (queued s1)" using r(2) by (auto simp: queued_def less_Suc_eq numeral_eq_Suc)
    then show ?thesis using b that(1) by (simp add: s')
  qed
  ultimately show ?thesis by auto
qed

lemma stays_waited:
  assumes "sched_inv s" and "cproc s = Some p" and "waited addr p s r s'"
  shows "stays s s'"
proof -
  have len: "length (procs s) = NPROC" and p: "state (procs s ! p) = RUNNING" using assms(1,2) by (auto simp: sched_inv_def running_ok_def)
  show ?thesis
  proof (cases "find (zombie_child p s) [0..<NPROC]")
    case None
    then show ?thesis using assms(3) p stays_same stays_upd [OF len, of s' p] by (auto simp: waited_def split: if_splits)
  next
    case (Some pp)
    then have "state (procs s ! pp) = ZOMBIE" by (auto simp: find_Some_iff zombie_child_def)
    then show ?thesis using assms(3) Some stays_same stays_upd [OF len, of s' pp] by (auto simp: waited_def)
  qed
qed

lemma step_waits:
  assumes "kernel_ok s" and "enabled ev s" and "ev \<noteq> Schedule" and "kernel_step fr e ev s = Inr s'"
  shows "(\<exists>X. level 0 s' = level 0 s @ X) \<and> stays s s'"
proof -
  have i: "sched_inv s" and len: "length (procs s) = NPROC" and wf: "queues_wf s" using assms(1) by (auto simp: kernel_ok_def sched_inv_def)
  have run: "p < NPROC \<and> state (procs s ! p) = RUNNING" if "cproc s = Some p" for p using i that by (auto simp: sched_inv_def running_ok_def)
  have g: ?thesis if "grows s s'" "stays s s'" using that wf by (auto simp: grows_def)
  have q: "quiet {} s" if "locked (cpu s) = {}" using assms(1) at_rest_quiet that by (auto simp: kernel_ok_def)
  show ?thesis
  proof (cases "\<exists>ie lk ch n. ev = Resume ie \<or> ev = Awake ie lk \<or> ev = Yield \<or> ev = Sleep ch lk \<or> ev = SetKilled \<or> ev = CloseFiles \<or> ev = Grow n")
    case True
    obtain p y where "cproc s = Some p" "procs s' = (procs s)[p := y]" using only_step [OF assms(4) True] by blast
    then have "stays s s'" using stays_upd [OF len, of s' p y] run [of p] by auto
    then show ?thesis using g grows_single [OF assms(4) True] by blast
  next
    case False
    then show ?thesis
    proof (cases ev)
      case Tick
      then show ?thesis using tick_waits [OF assms(1)] assms(2,4) by blast
    next
      case (Wakeup ch)
      then have l: "locked (cpu s) = {}" and w: "wakeup ch s = Inr s'" using assms(2,4) by (simp_all add: enabled_def kernel_step_def)
      have "woken_upto NPROC ch s s'" using wakeup_ok [OF q [OF l], of ch] i w by auto
      then have "stays s s'" using len by (auto simp: stays_def woken_upto_def woken_def sleeps_on_def)
      then show ?thesis using g grows_wakeup [OF w] by blast
    next
      case (Kill k)
      then have l: "locked (cpu s) = {}" using assms(2) by (simp add: enabled_def)
      obtain r where w: "kkill k s = Inr (r, s')" using assms(4) Kill by (auto simp: kernel_step_def state_of_def seq_eq_Inr)
      obtain c where "s' = (case victim k s of None \<Rightarrow> s\<lparr>cpu := c\<rparr> | Some p \<Rightarrow> (marked p s)\<lparr>cpu := c\<rparr>)"
        using kkill_ok [OF q [OF l], of k] i w by (auto split: option.splits)
      then have "stays s s'" using len
        by (auto simp: stays_def marked_def Let_def nth_upd_proc split: option.splits)
      then show ?thesis using g grows_kill [OF w] by blast
    next
      case Fork
      then obtain p where p: "cproc s = Some p" "locked (cpu s) = {}" using assms(2) by (auto simp: enabled_def)
      obtain r where w: "kfork fr e p s = Inr (r, s')" using assms(4) Fork p by (auto simp: kernel_step_def on_proc_def state_of_def seq_eq_Inr)
      have f: "forked p s r s'" using kfork_ok [OF q [OF p(2)] i p(1), of fr e] w by auto
      show ?thesis
      proof (cases "free_slot s")
        case None
        then show ?thesis using f by (auto simp: forked_def intro: stays_same)
      next
        case (Some np)
        then obtain y where y: "procs s' = (procs s)[np := y]" "\<exists>X. level 0 s' = level 0 s @ X" using f by (auto simp: forked_def)
        moreover have "state (procs s ! np) \<noteq> RUNNABLE" using free_slot_SomeD [OF Some] by simp
        ultimately show ?thesis using stays_upd [OF len y(1)] by blast
      qed
    next
      case (Exit status)
      then obtain p where p: "cproc s = Some p" "locked (cpu s) = {}" using assms(2) by (auto simp: enabled_def)
      have w: "kexit_last status p s = Inr s'" using assms(4) Exit p by (simp add: kernel_step_def on_proc_def)
      have x: "\<forall>i < NPROC. procs s' ! i = exit_entry status p s i" using kexit_last_ok [OF q [OF p(2)] i p(1), of status] w by auto
      have "stays s s'" unfolding stays_def
      proof (intro allI impI)
        fix r assume r: "r < NPROC" "state (procs s ! r) = RUNNABLE"
        then have "r \<noteq> p" using run [OF p(1)] by auto
        then show "state (procs s' ! r) = RUNNABLE"
          using x r by (simp add: exit_entry_def adopted_fields woken_def sleeps_on_def)
      qed
      then show ?thesis using g grows_exit [OF w] by blast
    next
      case (Wait addr)
      then obtain p where p: "cproc s = Some p" "locked (cpu s) = {}" using assms(2) by (auto simp: enabled_def)
      obtain r s1 where w: "acq WaitLock s = Inr s1" "kwait_pass e addr p s1 = Inr (r, s')"
        using assms(4) Wait p by (auto simp: kernel_step_def on_proc_def state_of_def kwait_start_def seq_eq_Inr)
      obtain c where c: "s1 = s\<lparr>cpu := c\<rparr>" "hart_ok {WaitLock} c" using acq_ok [OF q [OF p(2)], of WaitLock] w(1) by auto
      have "waited addr p s1 r s'" using kwait_pass_ok [of s1 p e addr] c i p w(2) by auto
      then have "stays s s'" using stays_waited [OF i p(1)] c(1) by simp
      moreover have "grows s s'" using grows_trans [OF grows_acq [OF w(1)] grows_kwait_pass [OF w(2)]] .
      ultimately show ?thesis using g by blast
    next
      case (WaitAgain ie addr)
      then obtain p where p: "cproc s = Some p" "quiet {PLock p} s"
        using assms(1,2) at_rest_switched [of s] by (auto simp: kernel_ok_def enabled_def)
      let ?t = "upd_proc p (\<lambda>x. x\<lparr>chan := NoChan\<rparr>) s"
      obtain c where c: "sleep_return ie p WaitLock s = Inr (?t\<lparr>cpu := c\<rparr>)" "hart_ok {WaitLock} c" using sleep_return_ok [OF p(2)] by blast
      obtain r where w: "kwait_pass e addr p (?t\<lparr>cpu := c\<rparr>) = Inr (r, s')"
        using assms(4) WaitAgain p(1) c(1) by (auto simp: kernel_step_def on_proc_def state_of_def seq_eq_Inr)
      have it: "sched_inv ?t" by (rule sched_inv_upd_same [OF i]) simp_all
      have "waited addr p (?t\<lparr>cpu := c\<rparr>) r s'" using kwait_pass_ok [of "?t\<lparr>cpu := c\<rparr>" p e addr] c(2) it p(1) w by auto
      then have "stays ?t s'" using stays_waited [OF it] p(1) by simp
      moreover have "stays s ?t" using stays_upd [OF len, of ?t p] run [OF p(1)] by (auto simp: procs_upd_proc)
      moreover have "grows s s'" using grows_kwait_pass [OF w] by simp
      ultimately show ?thesis using g by (auto simp: stays_def)
    qed (use False assms(3) in auto)
  qed
qed


lemma level_run_proc [simp]: "level q (run_proc p s) = level q s"
  by (simp add: run_proc_def Let_def)

lemma schedule_waits:
  assumes "kernel_ok s" and "enabled Schedule s" and "kernel_step fr e Schedule s = Inr s'"
  shows "level 0 s = a # rest \<Longrightarrow> cproc s' = Some a \<and> level 0 s' = rest"
    and "p < NPROC \<Longrightarrow> state (procs s ! p) = RUNNABLE \<Longrightarrow> cproc s' = Some p \<or> state (procs s' ! p) = RUNNABLE"
proof -
  have i: "sched_inv s" and q: "quiet {} s" and len: "length (procs s) = NPROC" and wf: "queues_wf s"
    using assms at_rest_quiet [of s] by (auto simp: kernel_ok_def enabled_def sched_inv_def)
  obtain c where c: "scheduler_mlfq s = Inr (case best_level s of None \<Rightarrow> (False, s\<lparr>cpu := c\<rparr>)
         | Some q \<Rightarrow> (True, (run_proc (hd (level q s)) (dequeue_body q s))\<lparr>cpu := c\<rparr>))"
    using scheduler_mlfq_ok [OF q i] by blast
  have s': "s' = (case best_level s of None \<Rightarrow> s\<lparr>cpu := c\<rparr> | Some q \<Rightarrow> (run_proc (hd (level q s)) (dequeue_body q s))\<lparr>cpu := c\<rparr>)"
    using assms(3) c by (auto simp: kernel_step_def state_of_def split: option.splits)
  show "cproc s' = Some a \<and> level 0 s' = rest" if l: "level 0 s = a # rest"
  proof -
    have "best_level s = Some 0" using l by (simp add: best_level_def)
    moreover have "level 0 (dequeue_body 0 s) = rest" using level_dequeue_body [OF wf, of 0 0] l by simp
    ultimately show ?thesis using s' l by simp
  qed
  show "cproc s' = Some p \<or> state (procs s' ! p) = RUNNABLE" if p: "p < NPROC" "state (procs s ! p) = RUNNABLE"
    using s' p len by (cases "best_level s") (auto simp: run_proc_def Let_def nth_upd_proc)
qed

section \<open>No process starves\<close>

text \<open>In the run of \<open>evs\<close> from \<open>s\<close> a decision of the scheduler gives the processor to \<open>p\<close>.\<close>

definition dispatched :: "64 word \<Rightarrow> 'w env \<Rightarrow> nat \<Rightarrow> event list \<Rightarrow> 'w kernel \<Rightarrow> bool" where
  "dispatched fr e p evs s \<longleftrightarrow> (\<exists>pre suf t t'. evs = pre @ Schedule # suf \<and> play fr e pre s = Inr t \<and>
     kernel_step fr e Schedule t = Inr t' \<and> cproc t' = Some p)"

lemma dispatched_here: "kernel_step fr e Schedule s = Inr t \<Longrightarrow> cproc t = Some p \<Longrightarrow> dispatched fr e p (Schedule # evs) s"
  unfolding dispatched_def by (intro exI [of _ "[]"] exI [of _ evs] exI [of _ s] exI [of _ t]) simp

lemma dispatched_later:
  assumes "dispatched fr e p evs t" and "enabled ev s" and "kernel_step fr e ev s = Inr t"
  shows "dispatched fr e p (ev # evs) s"
proof -
  obtain pre suf u u' where "evs = pre @ Schedule # suf" "play fr e pre t = Inr u" "kernel_step fr e Schedule u = Inr u'" "cproc u' = Some p"
    using assms(1) by (auto simp: dispatched_def)
  then show ?thesis unfolding dispatched_def
    by (intro exI [of _ "ev # pre"] exI [of _ suf] exI [of _ u] exI [of _ u']) (simp add: assms(2,3))
qed

definition decisions :: "event list \<Rightarrow> nat" where
  "decisions evs = length (filter (\<lambda>ev. ev = Schedule) evs)"

definition tick_count :: "event list \<Rightarrow> nat" where
  "tick_count evs = length (filter (\<lambda>ev. ev = Tick) evs)"

lemma play_Cons:
  assumes "play fr e (ev # evs) s = Inr s'" and "kernel_ok s"
  obtains t where "enabled ev s" "kernel_step fr e ev s = Inr t" "play fr e evs t = Inr s'" "kernel_ok t"
    "ticks t = ticks s + (if ev = Tick then 1 else 0)"
  using assms step_ok [OF assms(2), of ev fr e] by (auto simp: seq_eq_Inr split: if_splits)

text \<open>In the queue of level 0 a process is served after those in front of it.\<close>

lemma level0_dispatched:
  assumes "kernel_ok s" and "level 0 s = A @ p # B" and "play fr e evs s = Inr s'" and "length A < decisions evs"
  shows "dispatched fr e p evs s"
  using assms
proof (induction evs arbitrary: s A B)
  case (Cons ev evs)
  obtain t where t: "enabled ev s" "kernel_step fr e ev s = Inr t" "play fr e evs t = Inr s'" "kernel_ok t"
    using play_Cons [OF Cons.prems(3,1)] by blast
  show ?case
  proof (cases "ev = Schedule")
    case True
    show ?thesis
    proof (cases A)
      case Nil
      then show ?thesis using schedule_waits(1) [OF Cons.prems(1)] t Cons.prems(2) True dispatched_here by (metis append_Nil)
    next
      case (Cons a A')
      have "level 0 t = A' @ p # B" using schedule_waits(1) [OF Cons.prems(1)] t Cons.prems(2) True Cons by auto
      then show ?thesis
        using Cons.IH [OF t(4) _ t(3), of A' B] Cons.prems(4) True Cons t dispatched_later [OF _ t(1,2)] by (simp add: decisions_def)
    qed
  next
    case False
    obtain X where "level 0 t = A @ p # (B @ X)" using step_waits [OF Cons.prems(1) t(1) False t(2)] Cons.prems(2) by auto
    then show ?thesis
      using Cons.IH [OF t(4) _ t(3), of A "B @ X"] Cons.prems(4) False dispatched_later [OF _ t(1,2)] by (simp add: decisions_def)
  qed
qed (simp add: decisions_def)


text \<open>Ticks until the next boost: at most 48, also where the clock wraps around to 0.\<close>

definition to_boost :: "32 word \<Rightarrow> nat" where
  "to_boost t = 48 - unat t mod 48"

lemma to_boost_next: "(t + 1) mod 48 = 0 \<or> to_boost (t + 1) < to_boost t"
proof (cases "t + 1 = 0")
  case True
  then show ?thesis by simp
next
  case False
  then have u: "unat (t + 1) = unat t + 1" using unatSuc [of t] by (simp add: add.commute)
  show ?thesis
  proof (cases "unat (t + 1) mod 48 = 0")
    case True
    then have "unat ((t + 1) mod 48) = unat (0 :: 32 word)" by (simp add: unat_mod)
    then show ?thesis by (simp only: word_unat_eq_iff) simp
  next
    case False
    then have "(unat t + 1) mod 48 = unat t mod 48 + 1" using u mod_Suc [of "unat t" 48] by (auto split: if_splits)
    then have "to_boost (t + 1) = 48 - (unat t mod 48 + 1)" by (simp add: to_boost_def u)
    moreover have "48 - (m + 1) < 48 - m" if "m < 48" for m :: nat using that by simp
    ultimately show ?thesis by (simp add: to_boost_def)
  qed
qed

lemma boost_reaches:
  assumes "kernel_ok s" and "p < NPROC" and "state (procs s ! p) = RUNNABLE" and "play fr e (evs @ rest) s = Inr s'"
    and "to_boost (ticks s) \<le> tick_count evs" and "NPROC \<le> decisions rest"
  shows "dispatched fr e p (evs @ rest) s"
  using assms
proof (induction evs arbitrary: s)
  case Nil
  have "unat (ticks s) mod 48 < 48" by simp
  then have "0 < to_boost (ticks s)" by (simp add: to_boost_def)
  then show ?case using Nil.prems(5) by (simp add: tick_count_def)
next
  case (Cons ev evs)
  have pl: "play fr e (ev # (evs @ rest)) s = Inr s'" using Cons.prems(4) by simp
  obtain t where t: "enabled ev s" "kernel_step fr e ev s = Inr t" "play fr e (evs @ rest) t = Inr s'" "kernel_ok t"
      "ticks t = ticks s + (if ev = Tick then 1 else 0)"
    using play_Cons [OF pl Cons.prems(1)] by blast
  note later = dispatched_later [OF _ t(1,2), of p "evs @ rest", simplified]
  consider "ev = Schedule" "cproc t = Some p" | "ev = Tick" "(ticks s + 1) mod 48 = 0"
    | "state (procs t ! p) = RUNNABLE" "ev = Tick \<longrightarrow> (ticks s + 1) mod 48 \<noteq> 0"
    using schedule_waits(2) [OF Cons.prems(1) _ _ Cons.prems(2,3)] step_waits [OF Cons.prems(1) t(1) _ t(2)] t Cons.prems(2,3)
    by (cases "ev = Schedule") (auto simp: stays_def)
  then show ?case
  proof cases
    case 1
    then show ?thesis using dispatched_here t(2) by (metis append_Cons)
  next
    case 2
    have "p \<in> set (level 0 t)" using tick_waits [OF Cons.prems(1)] t(1,2) 2 Cons.prems(2,3) by auto
    then obtain A B where ab: "level 0 t = A @ p # B" by (metis split_list)
    have "length (level 0 t) \<le> NPROC" using t(4) length_level [of t 0] by (auto simp: kernel_ok_def sched_inv_def queues_wf_def)
    then have "length A < decisions (evs @ rest)" using ab Cons.prems(6) by (simp add: decisions_def)
    then show ?thesis using level0_dispatched [OF t(4) ab t(3)] later by simp
  next
    case 3
    have "to_boost (ticks t) \<le> tick_count evs"
      using Cons.prems(5) t(5) 3(2) to_boost_next [of "ticks s"] by (auto simp: tick_count_def split: if_splits)
    then show ?thesis using Cons.IH [OF t(4) Cons.prems(2) 3(1) t(3) _ Cons.prems(6)] later by simp
  qed
qed

text \<open>Such continuations exist: the clock ticks, and whoever is dispatched goes to sleep.\<close>

definition idle :: "'w kernel \<Rightarrow> bool" where
  "idle s \<longleftrightarrow> kernel_ok s \<and> cproc s = None \<and> locked (cpu s) = {}"

lemma play_append: "play fr e (xs @ ys) s = seq (play fr e xs s) (play fr e ys)"
proof (induction xs arbitrary: s)
  case (Cons x xs)
  then show ?case by (cases "kernel_step fr e x s") auto
qed simp

lemma idle_tick:
  assumes "idle s"
  shows "\<exists>t. play fr e [Tick] s = Inr t \<and> idle t"
proof -
  have ok: "kernel_ok s" "enabled Tick s" using assms by (simp_all add: idle_def enabled_def)
  obtain t where t: "kernel_step fr e Tick s = Inr t" "kernel_ok t" using step_ok [OF ok, of fr e] by auto
  have q: "quiet {} s" "sched_inv s" using ok at_rest_quiet [of s] assms by (auto simp: kernel_ok_def idle_def)
  obtain s1 c where s1: "woken_upto NPROC TicksChan (accounted (s\<lparr>ticks := ticks s + 1\<rparr>)) s1"
      "clockintr s = Inr ((if (ticks s + 1) mod 48 = 0 then boosted s1 else s1)\<lparr>cpu := c\<rparr>)" "hart_ok {} c"
    using clockintr_ok [OF q(1) _ _ _ q(2)] by auto
  have "cproc s1 = None" using s1(1) assms by (simp add: woken_upto_def accounted_def idle_def)
  then have "cproc t = None" "locked (cpu t) = {}" using t(1) s1(2,3) by (auto simp: kernel_step_def boosted_frame hart_ok_def)
  then show ?thesis using t ok(2) by (simp add: idle_def)
qed

lemma idle_schedule:
  assumes "idle s"
  shows "\<exists>evs t. play fr e evs s = Inr t \<and> idle t \<and> decisions evs = 1"
proof -
  have ok: "kernel_ok s" "enabled Schedule s" and q: "quiet {} s" "sched_inv s"
    using assms at_rest_quiet [of s] by (auto simp: idle_def enabled_def kernel_ok_def)
  obtain t where t: "kernel_step fr e Schedule s = Inr t" "kernel_ok t" using step_ok [OF ok, of fr e] by auto
  have s: "play fr e (Schedule # evs) s = play fr e evs t" for evs using t(1) ok(2) by simp
  obtain c where c: "t = (case best_level s of None \<Rightarrow> s\<lparr>cpu := c\<rparr> | Some q \<Rightarrow> (run_proc (hd (level q s)) (dequeue_body q s))\<lparr>cpu := c\<rparr>)"
      "hart_ok (case best_level s of None \<Rightarrow> {} | Some q \<Rightarrow> {PLock (hd (level q s))}) c"
    using scheduler_mlfq_ok [OF q] t(1) by (auto simp: kernel_step_def state_of_def split: option.splits)
  show ?thesis
  proof (cases "best_level s")
    case None
    then have "idle t" using t(2) c assms by (auto simp: idle_def hart_ok_def)
    then show ?thesis using s [of "[]"] by (intro exI [of _ "[Schedule]"] exI [of _ t]) (simp add: decisions_def)
  next
    case (Some r)
    let ?p = "hd (level r s)"
    have p: "cproc t = Some ?p" "quiet {PLock ?p} t" using c Some by auto
    then have "enabled (Resume True) t" by (auto simp: enabled_def switched_def quiet_def hart_ok_def)
    then obtain u where u: "kernel_step fr e (Resume True) t = Inr u" "kernel_ok u" "enabled (Resume True) t" using step_ok [OF t(2)] by blast
    obtain h where h: "u = t\<lparr>cpu := h\<rparr>" "hart_ok {} h" using resume_ok [OF p(2), of True] u(1) p(1) by (auto simp: kernel_step_def on_proc_def)
    then have en: "enabled (Sleep TicksChan TicksLock) u" using p(1) by (auto simp: enabled_def hart_ok_def outer_def is_proc_chan_def)
    then obtain v where v: "kernel_step fr e (Sleep TicksChan TicksLock) u = Inr v" "kernel_ok v" using step_ok [OF u(2), of "Sleep TicksChan TicksLock" fr e] by auto
    obtain h' where h': "acq TicksLock u = Inr (u\<lparr>cpu := h'\<rparr>)" "hart_ok {TicksLock} h'" using acq_ok [of "{}" u TicksLock] h by auto
    have "\<exists>d. v = (upd_proc ?p (asleep TicksChan) u)\<lparr>cproc := None, cpu := d\<rparr> \<and> hart_ok {} d"
      using sleep_ok [of TicksLock "u\<lparr>cpu := h'\<rparr>" ?p TicksChan] h' v(1) u(2) p(1) h(1) by (auto simp: kernel_step_def kernel_ok_def)
    then have "idle v" using v(2) by (auto simp: idle_def hart_ok_def)
    then show ?thesis using s [of "[Resume True, Sleep TicksChan TicksLock]"] u v en
      by (intro exI [of _ "[Schedule, Resume True, Sleep TicksChan TicksLock]"] exI [of _ v]) (simp add: decisions_def)
  qed
qed


lemma calm_boot_state:
  "(case boot 0 calm_env () of Inl _ \<Rightarrow> False | Inr s \<Rightarrow> state (procs s ! 0) = RUNNABLE \<and> cproc s = None \<and> locked (cpu s) = {})"
  by code_simp

text \<open>C5: No process starves.  From every state a run of the kernel reaches, a process that is RUNNABLE there, at whatever level, is
  given the processor by a decision of the scheduler in every continuation that goes on long enough: one with 48 clock ticks and, after
  them, as many decisions of the scheduler as the table has entries, whatever the other processes do meanwhile.\<close>

theorem no_starvation:
  assumes "run forkret e w n s" and "p < NPROC" and "state (procs s ! p) = RUNNABLE"
    and "play forkret e (evs @ rest) s = Inr s'" and "48 \<le> tick_count evs" and "NPROC \<le> decisions rest"
  shows "\<exists>pre suf t t'. evs @ rest = pre @ Schedule # suf \<and> play forkret e pre s = Inr t \<and>
    kernel_step forkret e Schedule t = Inr t' \<and> cproc t' = Some p"
proof -
  have "to_boost (ticks s) \<le> tick_count evs" using assms(5) by (simp add: to_boost_def)
  then show ?thesis using boost_reaches [OF run_kernel_ok [OF assms(1)] assms(2-4) _ assms(6)] by (simp add: dispatched_def)
qed

theorem no_starvation_witness:
  "\<exists>s p evs rest s' pre suf t t'. run 0 calm_env () 0 s \<and> state (procs s ! p) = RUNNABLE \<and> 48 \<le> tick_count evs \<and> NPROC \<le> decisions rest \<and>
    play 0 calm_env (evs @ rest) s = Inr s' \<and> evs @ rest = pre @ Schedule # suf \<and> play 0 calm_env pre s = Inr t \<and>
    kernel_step 0 calm_env Schedule t = Inr t' \<and> cproc t' = Some p"
proof -
  obtain s where s: "boot 0 calm_env () = Inr s" using boot_ok [of calm_env "()" 0] by (auto simp: calm_env_def)
  have r: "run 0 calm_env () 0 s" by (rule run.start [OF s])
  have "state (procs s ! 0) = RUNNABLE \<and> cproc s = None \<and> locked (cpu s) = {}"
    using calm_boot_state s by auto
  then have i: "idle s" and p: "state (procs s ! 0) = RUNNABLE" using run_kernel_ok [OF r] by (auto simp: idle_def)
  have ticks: "\<exists>t. play 0 calm_env (replicate k Tick) s = Inr t \<and> idle t" for k
  proof (induction k)
    case (Suc k)
    then obtain t where t: "play 0 calm_env (replicate k Tick) s = Inr t" "idle t" by blast
    obtain u where "play 0 calm_env [Tick] t = Inr u" "idle u" using idle_tick [OF t(2)] by blast
    then show ?case using t(1) play_append [of 0 calm_env "replicate k Tick" "[Tick]" s] by (auto simp flip: replicate_append_same)
  qed (use i in simp)
  have rounds: "\<exists>evs t'. play 0 calm_env evs t = Inr t' \<and> idle t' \<and> decisions evs = k" if "idle t" for t :: "unit kernel" and k
  proof (induction k)
    case (Suc k)
    then obtain evs u where u: "play 0 calm_env evs t = Inr u" "idle u" "decisions evs = k" by blast
    obtain evs' v where "play 0 calm_env evs' u = Inr v" "idle v" "decisions evs' = 1" using idle_schedule [OF u(2)] by blast
    then show ?case using u play_append [of 0 calm_env evs evs' t] by (intro exI [of _ "evs @ evs'"] exI [of _ v]) (auto simp: decisions_def)
  qed (use that in \<open>auto simp: decisions_def intro: exI [of _ "[]"]\<close>)
  obtain t where t: "play 0 calm_env (replicate 48 Tick) s = Inr t" "idle t" using ticks by blast
  obtain rest s' where rest: "play 0 calm_env rest t = Inr s'" "decisions rest = NPROC" using rounds [OF t(2)] by blast
  have pl: "play 0 calm_env (replicate 48 Tick @ rest) s = Inr s'" using t rest by (simp add: play_append)
  have c: "48 \<le> tick_count (replicate 48 Tick)" by (simp add: tick_count_def)
  have n: "0 < NPROC" by (simp add: NPROC_def)
  show ?thesis using no_starvation [OF r n p pl c] rest(2) r p pl c by (metis order_refl)
qed

end
