(* ===== verification/Kernel_Props.thy ===== *)
theory Kernel_Props
  imports Kernel_Liveness
begin

text \<open>
  The properties of the process subsystem over the runs of the kernel: no step panics, the
  queues and the table agree, no exit is lost, and what the scheduler, \<open>yield\<close>, the clock,
  \<open>wakeup\<close>, \<open>kfork\<close>, \<open>kkill\<close> and \<open>kexit\<close> do in the states runs reach.
\<close>

section \<open>Invariants of runs\<close>

lemma demo_enabled:
  assumes "demo_state s"
  shows "enabled Tick s" "enabled Yield s" "enabled Fork s" "enabled (Kill k) s" "enabled (Wakeup ch) s"
    "enabled (Exit status) s" "cproc s = Some 2"
  using assms by (simp_all add: enabled_def demo_state_def)




text \<open>C2: In every state of a run the ready queues hold the RUNNABLE processes: a process is in
  the queue of level \<open>q\<close> exactly if it is RUNNABLE with \<open>p->queue == q\<close>, and it is there once.\<close>

theorem run_ready_queues:
  assumes "run forkret e w n s" and "q < 4"
  shows "distinct (level q s) \<and>
    (\<forall>p. p \<in> set (level q s) \<longleftrightarrow> p < NPROC \<and> state (procs s ! p) = RUNNABLE \<and> queue (procs s ! p) = int q)"
  using run_kernel_ok [OF assms(1)] assms(2) by (simp add: kernel_ok_def sched_inv_def ready_ok_def)

theorem run_ready_queues_witness:
  "\<exists>s. run 0 calm_env () 0 s \<and> distinct (level 0 s)"
  using calm_boot run_ready_queues [of 0 calm_env "()" 0 _ 0] by auto

text \<open>C20: In every state of a run the RUNNING process, if any, is the one \<open>cpu->proc\<close> points to, its
  level is between 0 and 3, and every process has used fewer ticks at its level than the time
  slice of the level.\<close>

theorem run_slices:
  assumes "run forkret e w n s" and "p < NPROC"
  shows "(state (procs s ! p) = RUNNING \<longleftrightarrow> cproc s = Some p) \<and> 0 \<le> queue (procs s ! p) \<and>
    queue (procs s ! p) \<le> 3 \<and> 0 \<le> pticks (procs s ! p) \<and> pticks (procs s ! p) < time_slice (queue (procs s ! p))"
  using run_kernel_ok [OF assms(1)] assms(2)
  by (simp add: kernel_ok_def sched_inv_def running_ok_def proc_ok_def)

theorem run_slices_witness:
  "\<exists>s. run 0 calm_env () 0 s \<and> pticks (procs s ! 5) < time_slice (queue (procs s ! 5))"
  using calm_boot run_slices [of 0 calm_env "()" 0 _ 5] by (auto simp: NPROC_def)



text \<open>C7: No exit is missed: in no state of a run does a process sleep in \<open>kwait\<close> (SLEEPING on its
  own address) while a child of it is a zombie that it could reap.\<close>

theorem run_no_lost_exit:
  assumes "run forkret e w n s" and "i < NPROC" and "j < NPROC" and "parent (procs s ! j) = Some i"
    and "state (procs s ! j) = ZOMBIE"
  shows "\<not> (state (procs s ! i) = SLEEPING \<and> chan (procs s ! i) = ProcChan i)"
  using run_kernel_ok [OF assms(1)] assms(2-) by (auto simp: kernel_ok_def life_ok_def wait_ok_def)

theorem run_no_lost_exit_witness:
  "\<exists>s. run 0 calm_env () 0 s \<and> parent (procs s ! 1) = Some 0 \<and> state (procs s ! 1) = ZOMBIE \<and>
    \<not> (state (procs s ! 0) = SLEEPING \<and> chan (procs s ! 0) = ProcChan 0)"
  using demo_run run_no_lost_exit [of 0 calm_env "()" 0 _ 0 1] by (auto simp: demo_state_def NPROC_def)

text \<open>C19: In every state of a run the parent of a process, and init, are processes that have not
  exited: the children of an exiting process are handed to init before it becomes a zombie.\<close>

theorem run_parents_alive:
  assumes "run forkret e w n s" and "i < NPROC" and "parent (procs s ! i) = Some q"
  shows "alive s q \<and> state (procs s ! i) \<noteq> UNUSED \<and> (\<exists>r. initproc s = Some r \<and> alive s r)"
  using run_kernel_ok [OF assms(1)] assms(2,3) by (auto simp: kernel_ok_def life_ok_def family_ok_def)

theorem run_parents_alive_witness:
  "\<exists>s. run 0 calm_env () 0 s \<and> parent (procs s ! 1) = Some 0 \<and> alive s 0"
  using demo_run run_parents_alive [of 0 calm_env "()" 0 _ 1 0] by (auto simp: demo_state_def NPROC_def)

section \<open>The line printed at exit\<close>

lemma to_int_small: "unat w < 2 ^ 31 \<Longrightarrow> to_int w = int (unat w)"
proof -
  assume a: "unat w < 2 ^ 31"
  have "int (unat w) < int (2 ^ 31)" using a by (simp only: of_nat_less_iff)
  then have u: "int (unat w) < 2 ^ 31" by (simp only: of_nat_power of_nat_numeral)
  have "unat (ucast w :: 32 word) = unat w" using a by (simp add: unsigned_ucast_eq take_bit_nat_eq_self)
  then have "uint (ucast w :: 32 word) = int (unat w)" by (metis uint_nat)
  then have "sint (ucast w :: 32 word) = signed_take_bit 31 (int (unat w))" by (simp add: sint_uint)
  also have "\<dots> = int (unat w)"
  proof (rule signed_take_bit_int_eq_self [OF _ u])
    show "- (2 ^ 31) \<le> int (unat w)" by (rule order_trans [of _ 0]) simp_all
  qed
  finally show ?thesis by (simp add: to_int_def)
qed

lemma unat_sub2:
  fixes a b c :: "64 word"
  assumes "unat b + unat c \<le> unat a"
  shows "unat (a - b - c) = unat a - unat b - unat c"
proof -
  have "b \<le> a" "unat (a - b) = unat a - unat b" using assms by (simp_all add: word_le_nat_alt unat_sub)
  moreover from this have "c \<le> a - b" using assms by (simp add: word_le_nat_alt)
  ultimately show ?thesis by (simp add: unat_sub)
qed

lemma metrics_eq:
  assumes "pid x > 2" and "unat (etime x) < 2 ^ 31"
    and "unat (rtime x) + unat (iotime x) + unat (creation_time x) \<le> unat (etime x)"
  shows "\<exists>r. metrics x = [Metrics (pid x) (int (unat (etime x) - unat (creation_time x)))
    (int (unat (etime x) - unat (creation_time x) - unat (rtime x) - unat (iotime x))) r]"
proof -
  let ?d = "etime x - creation_time x"
  have d: "unat ?d = unat (etime x) - unat (creation_time x)"
    using assms(3) by (simp add: unat_sub word_le_nat_alt)
  have td: "to_int ?d = int (unat ?d)" using assms(2) d by (intro to_int_small) simp
  have w: "word_of_int (int (unat ?d)) = ?d" by simp
  have "unat (?d - rtime x - iotime x) = unat ?d - unat (rtime x) - unat (iotime x)"
    using assms(3) d by (intro unat_sub2) simp
  moreover from this have "to_int (?d - rtime x - iotime x) = int (unat (?d - rtime x - iotime x))"
    using assms(2) d by (intro to_int_small) simp
  ultimately show ?thesis using assms(1) td w d by (simp add: metrics_def Let_def)
qed

text \<open>C27: A process other than the first two that exits prints its turnaround, waiting and response
  times.  If fewer than \<open>2 ^ 31\<close> ticks have passed since boot, the turnaround is its age, the
  waiting time is the age less the ticks it ran and slept, and neither is negative.\<close>

theorem exit_prints_times:
  assumes "run forkret e w n s" and "n < 2 ^ 31" and "enabled (Exit status) s" and "cproc s = Some p"
    and "2 < pid (procs s ! p)"
  defines "x \<equiv> procs s ! p"
  shows "\<exists>s' r age. kernel_step forkret e (Exit status) s = Inr s' \<and>
    unat (rtime x) + unat (iotime x) \<le> age \<and> age + unat (creation_time x) = n \<and>
    kout s' = kout s @ [Metrics (pid x) (int age) (int (age - unat (rtime x) - unat (iotime x))) r]"
proof -
  have ok: "sched_inv s" "at_rest s" and tk: "ticks s = of_nat n" and tm: "times_ok s"
    using run_inv [OF assms(1)] assms(2) by (auto simp: kernel_ok_def)
  have q: "quiet {} s" using at_rest_quiet [OF ok(2)] assms(3) by (simp add: enabled_def)
  have p: "p < NPROC" using ok(1) assms(4) by (auto simp: sched_inv_def running_ok_def)
  obtain s' where s': "kexit_last status p s = Inr s'" "kout s' = kout s @ metrics (exit_entry status p s p)"
    using kexit_last_ok [OF q ok(1) assms(4)] by blast
  let ?y = "exit_entry status p s p"
  have n: "unat (ticks s) = n" using assms(2) by (simp add: tk unsigned_of_nat take_bit_nat_eq_self)
  have y: "unat (etime ?y) = n" "pid ?y = pid x" "rtime ?y = rtime x" "iotime ?y = iotime x"
      "creation_time ?y = creation_time x"
    using p n by (simp_all add: exit_entry_def zombify_def adopted_fields x_def unat_ucast_ticks)
  have le: "unat (rtime x) + unat (iotime x) + unat (creation_time x) \<le> n"
    using tm p n by (simp add: times_ok_def x_def)
  then obtain r where "metrics ?y = [Metrics (pid x) (int (n - unat (creation_time x)))
      (int (n - unat (creation_time x) - unat (rtime x) - unat (iotime x))) r]"
    using metrics_eq [of ?y] y assms(2,5) by (auto simp: x_def)
  then show ?thesis
    using s' le assms(4) by (intro exI [of _ s'] exI [of _ r] exI [of _ "n - unat (creation_time x)"])
      (simp add: kernel_step_def on_proc_def)
qed

theorem exit_prints_times_witness:
  "\<exists>s s' t w r. run 0 calm_env () 0 s \<and> kernel_step 0 calm_env (Exit 9) s = Inr s' \<and>
    kout s' = kout s @ [Metrics 3 t w r]"
proof -
  obtain s where s: "run 0 calm_env () 0 s" "demo_state s" using demo_run by blast
  then show ?thesis
    using exit_prints_times [OF s(1) _ demo_enabled(6,7) [OF s(2)], of 9] by (auto simp: demo_state_def)
qed

section \<open>Scheduling\<close>



lemma higher_waiting_iff:
  "queues_wf s \<Longrightarrow> q < 4 \<Longrightarrow> higher_waiting (int q) s \<longleftrightarrow> (\<exists>r < q. level r s \<noteq> [])"
proof -
  assume wf: "queues_wf s" and q: "q < 4"
  have "0 < qcount s ! r \<longleftrightarrow> level r s \<noteq> []" if "r < q" for r
    using length_level [OF wf, of r] q that by (cases "level r s") auto
  then show ?thesis by (auto simp: higher_waiting_def list_ex_iff)
qed

lemma yielded_cases:
  "yielded x = (if pticks x + 1 \<ge> time_slice (queue x)
     then x\<lparr>state := RUNNABLE, queue := (if queue x < 3 then queue x + 1 else queue x), pticks := 0\<rparr>
     else x\<lparr>state := RUNNABLE, pticks := pticks x + 1\<rparr>)"
  by (simp add: yielded_def demote_def Let_def)

text \<open>C16: At a timer interrupt, \<open>yield\<close> charges the running process one tick.  If its time slice (1, 4, 8
  or 16 ticks by level) is used up, it goes to the end of the next lower queue (the lowest stays)
  with a fresh slice; else, if a higher queue is not empty, it goes to the end of its own queue;
  else it keeps the processor.\<close>

theorem yield_demotes:
  assumes "run forkret e w n s" and "enabled Yield s" and "cproc s = Some p"
  defines "x \<equiv> procs s ! p"
  shows "\<exists>s' q. yield s = Inr s' \<and> (\<forall>i < NPROC. i \<noteq> p \<longrightarrow> procs s' ! i = procs s ! i) \<and>
    (if pticks x + 1 \<ge> time_slice (queue x)
     then int q = min 3 (queue x + 1) \<and> procs s' ! p = x\<lparr>state := RUNNABLE, queue := int q, pticks := 0\<rparr> \<and>
       cproc s' = None \<and> level q s' = level q s @ [p]
     else int q = queue x \<and>
       (if \<exists>r < q. level r s \<noteq> []
        then procs s' ! p = x\<lparr>state := RUNNABLE, pticks := pticks x + 1\<rparr> \<and> cproc s' = None \<and>
          level q s' = level q s @ [p]
        else procs s' ! p = x\<lparr>pticks := pticks x + 1\<rparr> \<and> cproc s' = Some p \<and> level q s' = level q s))"
proof -
  have ok: "sched_inv s" and qs: "quiet {} s"
    using run_kernel_ok [OF assms(1)] at_rest_quiet [of s] assms(2) by (auto simp: kernel_ok_def enabled_def)
  have len: "length (procs s) = NPROC" and wf: "queues_wf s" and p: "p < NPROC" "state x = RUNNING" and x: "proc_ok x"
    using ok assms(3) by (auto simp: sched_inv_def running_ok_def x_def)
  obtain q where q: "queue x = int q" "q < 4" using proc_ok_level [OF x] by blast
  obtain r where r: "queue (yielded x) = int r" "r < 4" using proc_ok_level yielded_ok [OF x] by blast
  have hw: "higher_waiting (queue x) s \<longleftrightarrow> (\<exists>r < q. level r s \<noteq> [])"
    using higher_waiting_iff [OF wf q(2)] q(1) by simp
  define t where "t = (if gives_up p s then (enqueue_body r p (upd_proc p yielded s))\<lparr>cproc := None\<rparr>
      else upd_proc p (\<lambda>x. x\<lparr>pticks := pticks x + 1\<rparr>) s)"
  obtain c where c: "yield s = Inr (t\<lparr>cpu := c\<rparr>)"
    using yield_ok [OF qs ok assms(3), folded x_def] r(1) by (auto simp: t_def cong: if_cong)
  have lv: "level r (enqueue_body r p (upd_proc p yielded s)) = level r s @ [p]"
    using level_enqueue_body [of "upd_proc p yielded s" r r p] room [OF ok r(2) p(1)] p(2) wf r(2)
    by (simp add: x_def)
  have oth: "\<forall>i < NPROC. i \<noteq> p \<longrightarrow> procs t ! i = procs s ! i"
    using len by (simp add: t_def nth_upd_proc)
  show ?thesis
  proof (cases "pticks x + 1 \<ge> time_slice (queue x)")
    case True
    then have "gives_up p s" "int r = min 3 (queue x + 1)"
      using r q by (auto simp: gives_up_def x_def yielded_cases split: if_splits)
    then show ?thesis
      using True c oth lv r p len by (intro exI [of _ "t\<lparr>cpu := c\<rparr>"] exI [of _ r])
        (simp add: t_def nth_upd_proc yielded_cases x_def)
  next
    case False
    then have "r = q" "gives_up p s \<longleftrightarrow> (\<exists>r < q. level r s \<noteq> [])"
      using r q hw by (auto simp: gives_up_def x_def yielded_cases)
    then show ?thesis
      using False c oth lv q p len assms(3) by (intro exI [of _ "t\<lparr>cpu := c\<rparr>"] exI [of _ q])
        (simp add: t_def nth_upd_proc yielded_cases x_def)
  qed
qed

theorem yield_demotes_witness:
  "\<exists>s s'. run 0 calm_env () 0 s \<and> enabled Yield s \<and> cproc s = Some 2 \<and> yield s = Inr s' \<and> procs s' ! 0 = procs s ! 0"
proof -
  obtain s where s: "run 0 calm_env () 0 s" "demo_state s" using demo_run by blast
  then show ?thesis
    using yield_demotes [OF s(1) demo_enabled(2,7) [OF s(2)]] demo_enabled(2,7) [OF s(2)] by (auto simp: NPROC_def)
qed

text \<open>C30: \<open>wakeup\<close> makes exactly the processes RUNNABLE that sleep on the channel, appends them in table
  order to the queues of their levels, and changes nothing else.\<close>

theorem wakeup_wakes_sleepers:
  assumes "run forkret e w n s" and "enabled (Wakeup ch) s"
  shows "\<exists>s'. wakeup ch s = Inr s' \<and>
    procs s' = map (\<lambda>x. if state x = SLEEPING \<and> chan x = ch then x\<lparr>state := RUNNABLE\<rparr> else x) (procs s) \<and>
    (\<forall>q < 4. level q s' = level q s @ filter (\<lambda>p. state (procs s ! p) = SLEEPING \<and> chan (procs s ! p) = ch \<and>
       queue (procs s ! p) = int q) [0..<NPROC]) \<and> cproc s' = cproc s"
proof -
  have ok: "sched_inv s" and qs: "quiet {} s"
    using run_kernel_ok [OF assms(1)] at_rest_quiet [of s] assms(2) by (auto simp: kernel_ok_def enabled_def)
  have w: "woken ch = (\<lambda>x. if state x = SLEEPING \<and> chan x = ch then x\<lparr>state := RUNNABLE\<rparr> else x)"
    by (simp add: woken_def sleeps_on_def fun_eq_iff)
  have "length (procs s) = NPROC" using ok by (simp add: sched_inv_def)
  then show ?thesis
    using wakeup_ok [OF qs, of ch] ok by (auto simp: woken_upto_def w sleeps_on_def)
qed

theorem wakeup_wakes_sleepers_witness:
  "\<exists>s s'. run 0 calm_env () 0 s \<and> enabled (Wakeup TicksChan) s \<and> wakeup TicksChan s = Inr s' \<and> cproc s' = cproc s"
proof -
  obtain s where s: "run 0 calm_env () 0 s" "demo_state s" using demo_run by blast
  then show ?thesis
    using wakeup_wakes_sleepers [OF s(1) demo_enabled(5) [OF s(2)], of TicksChan] demo_enabled(5) [OF s(2)] by blast
qed

text \<open>C28: At every 48th tick, and at no other, the clock interrupt resets the priorities: every process is
  at level 0 with a fresh slice, and queue 0 holds the waiting processes of all queues, the
  higher levels first and each level in its order.\<close>

theorem clock_boosts:
  assumes "run forkret e w n s" and "enabled Tick s"
  shows "\<exists>s1 s'. clockintr s = Inr s' \<and>
    woken_upto NPROC TicksChan (accounted (s\<lparr>ticks := ticks s + 1\<rparr>)) s1 \<and>
    (if (ticks s + 1) mod 48 = 0
     then procs s' = map (\<lambda>x. x\<lparr>queue := 0, pticks := 0\<rparr>) (procs s1) \<and>
       level 0 s' = level 0 s1 @ level 1 s1 @ level 2 s1 @ level 3 s1 \<and>
       level 1 s' = [] \<and> level 2 s' = [] \<and> level 3 s' = []
     else procs s' = procs s1 \<and> (\<forall>q < 4. level q s' = level q s1))"
proof -
  have ok: "sched_inv s" and qs: "quiet {} s"
    using run_kernel_ok [OF assms(1)] at_rest_quiet [of s] assms(2) by (auto simp: kernel_ok_def enabled_def)
  obtain s1 c where s1: "woken_upto NPROC TicksChan (accounted (s\<lparr>ticks := ticks s + 1\<rparr>)) s1" "sched_inv s1"
      "clockintr s = Inr ((if (ticks s + 1) mod 48 = 0 then boosted s1 else s1)\<lparr>cpu := c\<rparr>)"
    using clockintr_ok [OF qs] ok by auto
  have "queues_wf s1" "length (queued s1) \<le> NPROC"
    using s1(2) queued_fits [OF s1(2)] by (auto simp: sched_inv_def)
  note b = boosted_queues [OF this]
  have "map reset_priority = map (\<lambda>x. x\<lparr>queue := 0, pticks := 0\<rparr>)"
    by (rule ext) (simp add: reset_priority_def)
  then show ?thesis
    using s1 b by (intro exI [of _ s1] exI [of _ "(if (ticks s + 1) mod 48 = 0 then boosted s1 else s1)\<lparr>cpu := c\<rparr>"])
      (simp add: queued_def boosted_frame)
qed

theorem clock_boosts_witness:
  "\<exists>s s'. run 0 calm_env () 0 s \<and> enabled Tick s \<and> clockintr s = Inr s'"
proof -
  obtain s where s: "run 0 calm_env () 0 s" "demo_state s" using demo_run by blast
  then show ?thesis
    using clock_boosts [OF s(1) demo_enabled(1) [OF s(2)]] demo_enabled(1) [OF s(2)] by blast
qed



text \<open>C31: \<open>kkill\<close> marks the process with the given number, and wakes it if it sleeps; the other processes
  are as before.  It returns \<open>-1\<close>, and does nothing, exactly if no entry has the number.\<close>

theorem kill_marks:
  assumes "run forkret e w n s" and "enabled (Kill k) s"
  shows "\<exists>r s'. kkill k s = Inr (r, s') \<and>
    (if \<forall>i < NPROC. pid (procs s ! i) \<noteq> k then r = -1 \<and> procs s' = procs s
     else \<exists>i < NPROC. pid (procs s ! i) = k \<and> r = 0 \<and>
       (let x = procs s ! i in procs s' = (procs s)[i :=
          x\<lparr>killed_flag := 1, state := if state x = SLEEPING then RUNNABLE else state x\<rparr>]))"
proof -
  have ok: "sched_inv s" and qs: "quiet {} s"
    using run_kernel_ok [OF assms(1)] at_rest_quiet [of s] assms(2) by (auto simp: kernel_ok_def enabled_def)
  have len: "length (procs s) = NPROC" using ok by (simp add: sched_inv_def)
  obtain c where c: "kkill k s = Inr (case victim k s of None \<Rightarrow> (-1, s\<lparr>cpu := c\<rparr>)
           | Some p \<Rightarrow> (0, (marked p s)\<lparr>cpu := c\<rparr>))"
    using kkill_ok [OF qs, of k] ok by auto
  show ?thesis
  proof (cases "victim k s")
    case None
    then have "\<forall>i < NPROC. pid (procs s ! i) \<noteq> k" by (auto simp: victim_def find_None_iff)
    then show ?thesis using c None by auto
  next
    case (Some p)
    then have p: "p < NPROC" "pid (procs s ! p) = k" by (auto simp: victim_def find_Some_iff)
    let ?x = "procs s ! p"
    have "procs (marked p s) = (procs s)[p := ?x\<lparr>killed_flag := 1, state := if state ?x = SLEEPING then RUNNABLE else state ?x\<rparr>]"
      using p len by (simp add: marked_def Let_def procs_upd_proc)
    then show ?thesis using c Some p by (auto simp: Let_def)
  qed
qed

theorem kill_marks_witness:
  "\<exists>s s' i. run 0 calm_env () 0 s \<and> kkill 3 s = Inr (0, s') \<and> pid (procs s ! i) = 3"
proof -
  obtain s where s: "run 0 calm_env () 0 s" "demo_state s" using demo_run by blast
  have "2 < NPROC" "pid (procs s ! 2) = 3" using s(2) by (auto simp: demo_state_def NPROC_def)
  then have f: "(\<forall>i < NPROC. pid (procs s ! i) \<noteq> 3) = False" by blast
  obtain r s' i where "kkill 3 s = Inr (r, s')" "pid (procs s ! i) = 3" "r = 0"
    using kill_marks [OF s(1) demo_enabled(4) [OF s(2)], of 3] unfolding f if_False by (elim exE conjE)
  with s(1) show ?thesis by auto
qed

section \<open>A flaw\<close>

lemma victim_zero:
  assumes "pids_ok s"
  shows "victim 0 s = free_slot s"
proof -
  have "pid (procs s ! i) = 0 \<longleftrightarrow> state (procs s ! i) = UNUSED" if "i < NPROC" for i
  proof -
    have "if state (procs s ! i) = UNUSED then pid (procs s ! i) = 0 else 0 < pid (procs s ! i) \<and> pid (procs s ! i) < nextpid s"
      using assms that unfolding pids_ok_def by blast
    then show ?thesis by (auto split: if_splits)
  qed
  then show ?thesis unfolding victim_def free_slot_def by (intro find_cong) auto
qed

text \<open>C39: \<open>kill(0)\<close> finds a free slot, whose number is 0, marks it and reports success; \<open>allocproc\<close> does not
  clear the mark, so the next process forked into the slot is born killed.\<close>

theorem kill_zero_dooms_next_child:
  assumes "run forkret e w n s" and "enabled (Kill 0) s" and "cproc s = Some p" and "free_slot s = Some np"
  shows "\<exists>s1. kkill 0 s = Inr (0, s1) \<and>
    (\<exists>r s2. kfork forkret e p s1 = Inr (r, s2) \<and> (r = -1 \<or> pid (procs s2 ! np) = r \<and> killed_flag (procs s2 ! np) = 1))"
proof -
  have ok: "sched_inv s" "pids_ok s" and qs: "quiet {} s"
    using run_kernel_ok [OF assms(1)] at_rest_quiet [of s] assms(2)
    by (auto simp: kernel_ok_def enabled_def life_ok_def)
  have len: "length (procs s) = NPROC" using ok by (simp add: sched_inv_def)
  have np: "np < NPROC" "state (procs s ! np) = UNUSED" using free_slot_SomeD [OF assms(4)] by auto
  obtain c where c: "kkill 0 s = Inr (0, (marked np s)\<lparr>cpu := c\<rparr>)" "hart_ok {} c"
    using kkill_ok [OF qs, of 0] ok victim_zero [OF ok(2)] assms(4) by auto
  let ?s1 = "(marked np s)\<lparr>cpu := c\<rparr>"
  have m: "marked np s = upd_proc np (\<lambda>x. x\<lparr>killed_flag := 1\<rparr>) s"
    using np by (simp add: marked_def Let_def)
  have "free_slot ?s1 = Some np"
    using assms(4) len unfolding free_slot_def m by (auto simp: find_Some_iff nth_upd_proc)
  moreover have "cproc ?s1 = Some p" "sched_inv ?s1" "quiet {} ?s1"
    using assms(3) sched_inv_killed [OF ok(1)] c(2) by (simp_all add: m)
  moreover have "killed_flag (procs ?s1 ! np) = 1" using np len by (simp add: m nth_upd_proc)
  moreover have "length (procs ?s1) = NPROC" using len by (simp add: m)
  ultimately show ?thesis
    using kfork_ok [of ?s1 p forkret e] c(1) np by (fastforce simp: forked_def child_of_def)
qed

theorem kill_zero_dooms_next_child_witness:
  "\<exists>s s1. run 0 calm_env () 0 s \<and> kkill 0 s = Inr (0, s1)"
proof -
  obtain s where s: "run 0 calm_env () 0 s" "demo_state s" using demo_run by blast
  then show ?thesis
    using kill_zero_dooms_next_child [OF s(1) demo_enabled(4,7) [OF s(2)], of 3] by (auto simp: demo_state_def)
qed

end
