(* ===== verification/C_Memory.thy ===== *)
theory C_Memory
  imports Prelude "HOL-Library.Word"
begin

text \<open>
  Memory as C code sees it: bytes at addresses, blocks of bytes and strings that end with a
  zero byte.
\<close>

type_synonym byte = "8 word"
type_synonym mem = "nat \<Rightarrow> byte"

definition bytes_at :: "mem \<Rightarrow> nat \<Rightarrow> nat \<Rightarrow> byte list" where
  "bytes_at m p n = map (\<lambda>i. m (p + i)) [0..<n]"

definition store :: "mem \<Rightarrow> nat \<Rightarrow> byte list \<Rightarrow> mem" where
  "store m p bs = (\<lambda>q. if p \<le> q \<and> q < p + length bs then bs ! (q - p) else m q)"

definition cstr :: "mem \<Rightarrow> nat \<Rightarrow> byte list \<Rightarrow> bool" where
  "cstr m p s \<longleftrightarrow> bytes_at m p (length s) = s \<and> m (p + length s) = 0 \<and> 0 \<notin> set s"

lemma length_bytes_at [simp]: "length (bytes_at m p n) = n"
  by (simp add: bytes_at_def)

lemma nth_bytes_at [simp]: "i < n \<Longrightarrow> bytes_at m p n ! i = m (p + i)"
  by (simp add: bytes_at_def)

lemma bytes_at_Suc: "bytes_at m p (Suc n) = m p # bytes_at m (Suc p) n"
  by (rule nth_equalityI) (auto simp: nth_Cons split: nat.split)

lemma bytes_at_0 [simp]: "bytes_at m p 0 = []"
  by (simp add: bytes_at_def)

lemma store_Nil [simp]: "store m p [] = m"
  by (rule ext) (auto simp: store_def)

lemma store_Cons: "store m p (b # bs) = store (m(p := b)) (Suc p) bs"
  by (auto simp: store_def fun_eq_iff nth_Cons' Suc_diff_Suc)

lemma bytes_at_store [simp]: "bytes_at (store m p bs) p (length bs) = bs"
  by (rule nth_equalityI) (auto simp: store_def)

lemma store_bytes_at: "store m p (bytes_at m s n) = (\<lambda>q. if p \<le> q \<and> q < p + n then m (s + (q - p)) else m q)"
  by (auto simp: store_def fun_eq_iff)

lemma cstr_Nil: "cstr m p [] \<longleftrightarrow> m p = 0"
  by (simp add: cstr_def)

lemma cstr_Cons: "cstr m p (b # s) \<longleftrightarrow> m p = b \<and> b \<noteq> 0 \<and> cstr m (Suc p) s"
  by (auto simp: cstr_def bytes_at_Suc)

lemmas cstr_simps = cstr_Nil cstr_Cons

text \<open>Writing elsewhere keeps a string.\<close>

lemma cstr_upd: "q < p \<or> p + length s < q \<Longrightarrow> cstr (m(q := b)) p s = cstr m p s"
  by (induction s arbitrary: p) (auto simp: cstr_simps)

section \<open>Little-endian numbers\<close>

fun put_le :: "mem \<Rightarrow> nat \<Rightarrow> nat \<Rightarrow> nat \<Rightarrow> mem" where
  "put_le m p 0 n = m"
| "put_le m p (Suc k) n = put_le (m(p := of_nat n)) (Suc p) k (n div 256)"

fun get_le :: "mem \<Rightarrow> nat \<Rightarrow> nat \<Rightarrow> nat" where
  "get_le m p 0 = 0"
| "get_le m p (Suc k) = unat (m p) + 256 * get_le m (Suc p) k"

lemma put_le_outside: "q < p \<or> p + k \<le> q \<Longrightarrow> put_le m p k n q = m q"
  by (induction m p k n rule: put_le.induct) auto

lemma get_le_cong: "(\<And>q. p \<le> q \<Longrightarrow> q < p + k \<Longrightarrow> m q = m' q) \<Longrightarrow> get_le m p k = get_le m' p k"
  by (induction m p k rule: get_le.induct) auto

lemma get_put_le: "get_le (put_le m p k n) p k = n mod 256 ^ k"
proof (induction k arbitrary: m p n)
  case (Suc k)
  have "put_le (m(p := of_nat n)) (Suc p) k (n div 256) p = of_nat n"
    by (subst put_le_outside) simp_all
  then show ?case unfolding put_le.simps get_le.simps Suc.IH by (simp add: unat_of_nat mod_mult2_eq)
qed simp

end
