(* ===== verification/Kernel_Blocking.thy ===== *)
theory Kernel_Blocking
  imports Kernel_Sched_Ops C_Memory
begin

text \<open>
  What the components that sleep and wake share: the outcome of a run of a system call up to its next sleep, and what a
  wakeup leaves of the state.
\<close>

datatype ('k, 'r) outcome = Slept 'k | Returned 'r

text \<open>Processes woken on a channel, and nothing else; \<open>u\<close> is the state up to the hart.\<close>

definition after_wakeup :: "channel \<Rightarrow> 'w kernel \<Rightarrow> 'w kernel \<Rightarrow> bool" where
  "after_wakeup ch s u \<longleftrightarrow> sched_inv u \<and> woken_upto NPROC ch s u"

lemma woken_upto_cpu [simp]:
  "woken_upto n ch (s\<lparr>cpu := c\<rparr>) u = woken_upto n ch s u" "woken_upto n ch s (u\<lparr>cpu := c\<rparr>) = woken_upto n ch s u"
  by (simp_all add: woken_upto_def)

lemma after_wakeup_cpu [simp]:
  "after_wakeup ch (s\<lparr>cpu := c\<rparr>) u = after_wakeup ch s u" "after_wakeup ch s (u\<lparr>cpu := c\<rparr>) = after_wakeup ch s u"
  by (simp_all add: after_wakeup_def)

lemma wakeup_then_rel:
  assumes "quiet {lk} s" and "lk \<noteq> MlfqLock" and "\<And>p. lk \<noteq> PLock p" and "sched_inv s"
  shows "\<exists>u c. seq (wakeup ch s) (\<lambda>s. seq (rel lk s) (\<lambda>s. Inr (r, s))) = Inr (r, u\<lparr>cpu := c\<rparr>) \<and>
    hart_ok {} c \<and> after_wakeup ch s u"
proof -
  obtain u where u: "wakeup ch s = Inr u" "quiet {lk} u" "sched_inv u" "woken_upto NPROC ch s u"
    using wakeup_ok [OF assms(1) _ _ assms(4), of ch] assms(2,3) by auto
  moreover obtain c where "rel lk u = Inr (u\<lparr>cpu := c\<rparr>)" "hart_ok {} c"
    using rel_ok [OF u(2), of lk] by auto
  ultimately show ?thesis by (intro exI [of _ u] exI [of _ c]) (simp add: after_wakeup_def)
qed

lemma sched_inv_asleep:
  assumes "sched_inv s" and "cproc s = Some p"
  shows "sched_inv ((upd_proc p (asleep ch) s)\<lparr>cproc := None\<rparr>)"
proof (rule sched_inv_leave [OF assms])
  have "proc_ok (procs s ! p)" using assms by (auto simp: sched_inv_def running_ok_def)
  then show "proc_ok (asleep ch (procs s ! p))" by (auto simp: proc_ok_def asleep_def time_slice_def)
qed (simp_all add: asleep_def)

lemma after_wakeup_procs:
  assumes "after_wakeup ch s u"
  shows "procs u = map (woken ch) (procs s)" "world u = world s" "cproc u = cproc s" "sched_inv u"
proof -
  have "length (procs u) = NPROC" using assms by (simp add: after_wakeup_def sched_inv_def)
  moreover have p: "procs u = map (woken ch) (take NPROC (procs s)) @ drop NPROC (procs s)"
    using assms by (simp add: after_wakeup_def woken_upto_def)
  ultimately have "length (procs s) = NPROC" by (metis append_take_drop_id length_append length_map)
  with p show "procs u = map (woken ch) (procs s)" by simp
qed (use assms in \<open>simp_all add: after_wakeup_def woken_upto_def\<close>)

lemma sleeps_on_woken [simp]: "sleeps_on ch' (woken ch x) \<longleftrightarrow> ch' \<noteq> ch \<and> sleeps_on ch' x"
  by (auto simp: woken_def sleeps_on_def)

section \<open>Copying to and from user memory\<close>

text \<open>
  Bytes fetched from user memory, or handed to it, one after the other from an address on, up to the first failure.
\<close>

fun copyins :: "(64 word \<Rightarrow> 'a \<Rightarrow> byte option \<times> 'a) \<Rightarrow> 64 word \<Rightarrow> nat \<Rightarrow> 'a \<Rightarrow> byte list \<times> 'a" where
  "copyins f a 0 m = ([], m)"
| "copyins f a (Suc k) m =
    (case f a m of (None, m) \<Rightarrow> ([], m)
     | (Some b, m) \<Rightarrow> map_prod (Cons b) id (copyins f (a + 1) k m))"

lemma length_copyins: "length (fst (copyins f a k m)) \<le> k"
  by (induction f a k m rule: copyins.induct) (auto split: prod.splits option.splits)

fun copyouts :: "(64 word \<Rightarrow> byte \<Rightarrow> 'a \<Rightarrow> bool \<times> 'a) \<Rightarrow> 64 word \<Rightarrow> byte list \<Rightarrow> 'a \<Rightarrow> nat \<times> 'a" where
  "copyouts f a [] m = (0, m)"
| "copyouts f a (b # bs) m =
    (case f a b m of (False, m) \<Rightarrow> (0, m) | (True, m) \<Rightarrow> map_prod Suc id (copyouts f (a + 1) bs m))"

lemma copyouts_le: "fst (copyouts f a bs m) \<le> length bs"
  by (induction f a bs m rule: copyouts.induct) (auto split: prod.splits bool.splits)

end
