(* ===== verification/Kernel_Example.thy ===== *)
theory Kernel_Example
  imports Kernel_Sched_Ops
begin

text \<open>
  A concrete state of the kernel with one process, which runs, for the examples of the components that work on the field
  \<open>world\<close>.
\<close>

definition idle_proc :: proc where
  "idle_proc = \<lparr>state = UNUSED, chan = NoChan, killed_flag = 0, xstate = 0, pid = 0, creation_time = 0, ctime = 0,
     rtime = 0, etime = 0, iotime = 0, first_run_time = 0, parent = None, kstack = 0, sz = 0, pagetable = 0,
     trapframe = 0, pcontext = \<lparr>ra = 0, sp = 0, saved = []\<rparr>, ofile = replicate NOFILE None, cwd = None, pname = [],
     queue = 0, pticks = 0\<rparr>"

definition solo :: "lock set \<Rightarrow> 'w \<Rightarrow> 'w kernel" where
  "solo L w = \<lparr>procs = idle_proc\<lparr>state := RUNNING, pid := 1\<rparr> # replicate 63 idle_proc,
     cpu = \<lparr>noff = int (card L), intena = True, sie = (L = {}), locked = L\<rparr>, cproc = Some 0, ticks = 0,
     qcount = replicate 4 0, mlfq = replicate 4 (replicate 64 0), initproc = Some 0, nextpid = 2, kout = [], world = w\<rparr>"

lemma solo_simps [simp]:
  "cproc (solo L w) = Some 0" "world (solo L w) = w" "procs (solo L w) ! 0 = idle_proc\<lparr>state := RUNNING, pid := 1\<rparr>"
  "procs (solo L w) = idle_proc\<lparr>state := RUNNING, pid := 1\<rparr> # replicate 63 idle_proc"
  by (simp_all add: solo_def)

lemma quiet_solo [simp]: "finite L \<Longrightarrow> quiet L (solo L w)"
  by (simp add: solo_def quiet_def hart_ok_def)

lemma solo_proc: "p < 64 \<Longrightarrow> procs (solo L w) ! p = (if p = 0 then idle_proc\<lparr>state := RUNNING, pid := 1\<rparr> else idle_proc)"
  by (simp add: nth_Cons')

lemma sched_inv_solo [simp]: "sched_inv (solo L w)"
proof -
  have "queues_wf (solo L w)" by (auto simp: solo_def queues_wf_def NPROC_def less_Suc_eq numeral_eq_Suc)
  moreover have "ready_ok (solo L w)"
    by (auto simp: ready_ok_def level_def solo_def NPROC_def nth_Cons' idle_proc_def)
  moreover have "proc_ok (procs (solo L w) ! p)" if "p < NPROC" for p
    using that by (simp add: NPROC_def solo_proc proc_ok_def idle_proc_def time_slice_def del: solo_simps)
  moreover have "running_ok (solo L w)"
    by (auto simp: running_ok_def NPROC_def nth_Cons' idle_proc_def)
  ultimately show ?thesis by (simp add: sched_inv_def NPROC_def)
qed

end
