(* ===== verification/Ring_Buffer.thy ===== *)
theory Ring_Buffer
  imports Prelude "HOL-Library.Word"
begin

text \<open>
  A window of a circular buffer that is indexed by a 32-bit counter, as pipes and the console have it: the
  \<open>n\<close> elements from counter \<open>a\<close> on.  The counter wraps, so the length of the buffer is to divide \<open>2 ^ 32\<close>.
\<close>

definition ring_seg :: "'a list \<Rightarrow> 32 word \<Rightarrow> nat \<Rightarrow> 'a list" where
  "ring_seg d a n = map (\<lambda>k. d ! ((unat a + k) mod length d)) [0..<n]"

lemma length_ring_seg [simp]: "length (ring_seg d a n) = n"
  by (simp add: ring_seg_def)

lemma ring_seg_0 [simp]: "ring_seg d a 0 = []"
  by (simp add: ring_seg_def)

lemma unat_add_mod:
  assumes "N dvd 2 ^ 32"
  shows "unat ((a :: 32 word) + b) mod N = (unat a + unat b) mod N"
proof -
  have "unat (a + b) = (unat a + unat b) mod 2 ^ 32" by (simp add: unat_word_ariths)
  then show ?thesis using assms by (simp only: mod_mod_cancel)
qed

lemma unat_add_of_nat_mod:
  assumes "N dvd 2 ^ 32"
  shows "unat ((a :: 32 word) + of_nat k) mod N = (unat a + k) mod N"
proof -
  have "unat (of_nat k :: 32 word) mod N = k mod N"
    using assms by (simp add: unat_of_nat mod_mod_cancel)
  then show ?thesis using unat_add_mod [OF assms, of a "of_nat k"] by (metis mod_add_right_eq)
qed

lemma ring_seg_append:
  assumes "length d dvd 2 ^ 32"
  shows "ring_seg d a (m + n) = ring_seg d a m @ ring_seg d (a + of_nat m) n"
proof -
  have "(unat a + (m + k)) mod length d = (unat (a + of_nat m) + k) mod length d" for k
    using unat_add_of_nat_mod [OF assms, of a m] by (metis add.assoc mod_add_left_eq)
  then have "(unat a + i) mod length d = (unat (a + of_nat m) + (i - m)) mod length d" if "m \<le> i" for i
    using that by (metis le_add_diff_inverse)
  then show ?thesis by (intro nth_equalityI) (auto simp: ring_seg_def nth_append)
qed

lemma ring_seg_one [simp]: "ring_seg d a (Suc 0) = [d ! (unat a mod length d)]"
  by (simp add: ring_seg_def)

lemma ring_seg_Cons:
  assumes "length d dvd 2 ^ 32"
  shows "ring_seg d a (Suc n) = d ! (unat a mod length d) # ring_seg d (a + 1) n"
  using ring_seg_append [OF assms, of a 1 n] by simp

lemma ring_seg_snoc:
  assumes "length d dvd 2 ^ 32"
  shows "ring_seg d a (Suc n) = ring_seg d a n @ [d ! (unat (a + of_nat n) mod length d)]"
  using ring_seg_append [OF assms, of a n 1] by simp

lemma window_mod:
  fixes a k n N :: nat
  assumes "k < n" and "n < N"
  shows "(a + k) mod N \<noteq> (a + n) mod N"
proof
  assume "(a + k) mod N = (a + n) mod N"
  then have "N dvd (a + n) - (a + k)"
    using assms(1) mod_eq_dvd_iff_nat [of "a + k" "a + n" N] by simp
  then show False using assms nat_dvd_not_less [of "n - k" N] by simp
qed

text \<open>Writing the element behind a window that does not fill the buffer.\<close>

lemma ring_seg_update:
  assumes "length d dvd 2 ^ 32" and "n < length d"
  shows "ring_seg (d[unat (a + of_nat n) mod length d := x]) a (Suc n) = ring_seg d a n @ [x]"
proof -
  have "d[unat (a + of_nat n) mod length d := x] ! ((unat a + k) mod length d) = d ! ((unat a + k) mod length d)"
    if "k < n" for k
    using window_mod [OF that assms(2), of "unat a"] by (simp add: unat_add_of_nat_mod [OF assms(1)])
  then have "ring_seg (d[unat (a + of_nat n) mod length d := x]) a n = ring_seg d a n"
    by (simp add: ring_seg_def)
  moreover have "unat (a + of_nat n) mod length d < length d" using assms(2) by (intro mod_less_divisor) linarith
  ultimately show ?thesis
    using ring_seg_snoc [of "d[unat (a + of_nat n) mod length d := x]" a n] assms(1) by simp
qed

end
