(* ===== verification/Kernel_Pipe.thy ===== *)
theory Kernel_Pipe
  imports Kernel_Blocking Kernel_Example C_Memory Ring_Buffer
begin

text \<open>
  Pipes, \<^verbatim>\<open>xv6/kernel/pipe.c\<close>.  A pipe is named by the address of its page.  The pipes are a part
  of the field \<open>world\<close> of the kernel; the rest of the world, with user memory and the page
  allocator, is the record's extension, and \<open>copyin\<close>, \<open>copyout\<close> and \<open>kfree\<close> are parameters
  that work on it.

  A call of \<open>sleep\<close> ends a definition, with the outcome \<open>Slept\<close>; the process goes on at the test of
  its loop once \<open>sleep_return\<close> has given the lock back to it.  The ring of 512 bytes with its
  counters of 32 bits, which wrap, is proved to be a queue by interpreting the locale \<open>fifo\<close> on it.
\<close>

section \<open>State\<close>

definition PIPESIZE :: nat where "PIPESIZE = 512"

record pipe =
  data :: "byte list"
  nread :: "32 word"
  nwrite :: "32 word"
  readopen :: int
  writeopen :: int

record pipes_world =
  pipes :: "64 word \<Rightarrow> pipe"

type_synonym 'a pkernel = "'a pipes_world_scheme kernel"

definition pipe_of :: "64 word \<Rightarrow> 'a pkernel \<Rightarrow> pipe" where
  "pipe_of pi s = pipes (world s) pi"

definition upd_pipe :: "64 word \<Rightarrow> (pipe \<Rightarrow> pipe) \<Rightarrow> 'a pkernel \<Rightarrow> 'a pkernel" where
  "upd_pipe pi f s = s\<lparr>world := (world s)\<lparr>pipes := (pipes (world s))(pi := f (pipes (world s) pi))\<rparr>\<rparr>"

definition memory :: "'a pkernel \<Rightarrow> 'a" where
  "memory s = pipes_world.more (world s)"

definition set_memory :: "'a \<Rightarrow> 'a pkernel \<Rightarrow> 'a pkernel" where
  "set_memory m s = s\<lparr>world := pipes_world.more_update (\<lambda>_. m) (world s)\<rparr>"

section \<open>Operations\<close>

definition pipeclose :: "(64 word \<Rightarrow> 'a \<Rightarrow> 'a) \<Rightarrow> 64 word \<Rightarrow> bool \<Rightarrow> 'a pkernel \<Rightarrow> 'a pkernel res" where
  "pipeclose kfree pi writable s =
    seq (acq (PipeLock pi) s) (\<lambda>s.
    seq (if writable then wakeup (PipeRead pi) (upd_pipe pi (\<lambda>x. x\<lparr>writeopen := 0\<rparr>) s)
         else wakeup (PipeWrite pi) (upd_pipe pi (\<lambda>x. x\<lparr>readopen := 0\<rparr>) s)) (\<lambda>s.
    if readopen (pipe_of pi s) = 0 \<and> writeopen (pipe_of pi s) = 0 then
      seq (rel (PipeLock pi) s) (\<lambda>s. Inr (set_memory (kfree pi (memory s)) s))
    else rel (PipeLock pi) s))"

definition put_byte :: "byte \<Rightarrow> pipe \<Rightarrow> pipe" where
  "put_byte ch x = x\<lparr>data := (data x)[unat (nwrite x) mod PIPESIZE := ch], nwrite := nwrite x + 1\<rparr>"

definition pipewrite_end :: "64 word \<Rightarrow> int \<Rightarrow> 'a pkernel \<Rightarrow> ((int, int) outcome \<times> 'a pkernel) res" where
  "pipewrite_end pi i s =
    seq (wakeup (PipeRead pi) s) (\<lambda>s. seq (rel (PipeLock pi) s) (\<lambda>s. Inr (Returned i, s)))"

function pipewrite_loop :: "(64 word \<Rightarrow> 64 word \<Rightarrow> 'a \<Rightarrow> byte option \<times> 'a) \<Rightarrow> nat \<Rightarrow> 64 word \<Rightarrow> 64 word \<Rightarrow> int \<Rightarrow>
    int \<Rightarrow> 'a pkernel \<Rightarrow> ((int, int) outcome \<times> 'a pkernel) res" where
  "pipewrite_loop copyin pr pi addr n i s =
    (if i < n then
       (if readopen (pipe_of pi s) = 0 then seq (rel (PipeLock pi) s) (\<lambda>s. Inr (Returned (-1), s))
        else seq (killed pr s) (\<lambda>(k, s).
          if k \<noteq> 0 then seq (rel (PipeLock pi) s) (\<lambda>s. Inr (Returned (-1), s))
          else if nwrite (pipe_of pi s) = nread (pipe_of pi s) + of_nat PIPESIZE then
            seq (wakeup (PipeRead pi) s) (\<lambda>s.
            seq (sleep (PipeWrite pi) (PipeLock pi) s) (\<lambda>s. Inr (Slept i, s)))
          else (case copyin (pagetable (procs s ! pr)) (addr + of_int i) (memory s) of
              (None, m) \<Rightarrow> pipewrite_end pi i (set_memory m s)
            | (Some ch, m) \<Rightarrow>
                pipewrite_loop copyin pr pi addr n (i + 1) (upd_pipe pi (put_byte ch) (set_memory m s)))))
     else pipewrite_end pi i s)"
  by pat_completeness auto
termination by (relation "measure (\<lambda>(copyin, pr, pi, addr, n, i, s). nat (n - i))") auto

definition pipewrite :: "(64 word \<Rightarrow> 64 word \<Rightarrow> 'a \<Rightarrow> byte option \<times> 'a) \<Rightarrow> nat \<Rightarrow> 64 word \<Rightarrow> 64 word \<Rightarrow> int \<Rightarrow>
    'a pkernel \<Rightarrow> ((int, int) outcome \<times> 'a pkernel) res" where
  "pipewrite copyin pr pi addr n s =
    seq (acq (PipeLock pi) s) (pipewrite_loop copyin pr pi addr n 0)"

definition piperead_end :: "64 word \<Rightarrow> int \<Rightarrow> 'a pkernel \<Rightarrow> ((unit, int) outcome \<times> 'a pkernel) res" where
  "piperead_end pi i s =
    seq (wakeup (PipeWrite pi) s) (\<lambda>s. seq (rel (PipeLock pi) s) (\<lambda>s. Inr (Returned i, s)))"

definition front_byte :: "pipe \<Rightarrow> byte" where
  "front_byte x = data x ! (unat (nread x) mod PIPESIZE)"

definition take_byte :: "pipe \<Rightarrow> pipe" where
  "take_byte x = x\<lparr>nread := nread x + 1\<rparr>"

function piperead_copy :: "(64 word \<Rightarrow> 64 word \<Rightarrow> byte \<Rightarrow> 'a \<Rightarrow> bool \<times> 'a) \<Rightarrow> nat \<Rightarrow> 64 word \<Rightarrow> 64 word \<Rightarrow> int \<Rightarrow>
    int \<Rightarrow> 'a pkernel \<Rightarrow> ((unit, int) outcome \<times> 'a pkernel) res" where
  "piperead_copy copyout pr pi addr n i s =
    (if i < n then
       (if nread (pipe_of pi s) = nwrite (pipe_of pi s) then piperead_end pi i s
        else (case copyout (pagetable (procs s ! pr)) (addr + of_int i) (front_byte (pipe_of pi s)) (memory s) of
            (False, m) \<Rightarrow> piperead_end pi (if i = 0 then -1 else i) (set_memory m s)
          | (True, m) \<Rightarrow> piperead_copy copyout pr pi addr n (i + 1) (upd_pipe pi take_byte (set_memory m s))))
     else piperead_end pi i s)"
  by pat_completeness auto
termination by (relation "measure (\<lambda>(copyout, pr, pi, addr, n, i, s). nat (n - i))") auto

definition piperead_loop :: "(64 word \<Rightarrow> 64 word \<Rightarrow> byte \<Rightarrow> 'a \<Rightarrow> bool \<times> 'a) \<Rightarrow> nat \<Rightarrow> 64 word \<Rightarrow> 64 word \<Rightarrow> int \<Rightarrow>
    'a pkernel \<Rightarrow> ((unit, int) outcome \<times> 'a pkernel) res" where
  "piperead_loop copyout pr pi addr n s =
    (if nread (pipe_of pi s) = nwrite (pipe_of pi s) \<and> writeopen (pipe_of pi s) \<noteq> 0 then
       seq (killed pr s) (\<lambda>(k, s).
         if k \<noteq> 0 then seq (rel (PipeLock pi) s) (\<lambda>s. Inr (Returned (-1), s))
         else seq (sleep (PipeRead pi) (PipeLock pi) s) (\<lambda>s. Inr (Slept (), s)))
     else piperead_copy copyout pr pi addr n 0 s)"

definition piperead :: "(64 word \<Rightarrow> 64 word \<Rightarrow> byte \<Rightarrow> 'a \<Rightarrow> bool \<times> 'a) \<Rightarrow> nat \<Rightarrow> 64 word \<Rightarrow> 64 word \<Rightarrow> int \<Rightarrow>
    'a pkernel \<Rightarrow> ((unit, int) outcome \<times> 'a pkernel) res" where
  "piperead copyout pr pi addr n s =
    seq (acq (PipeLock pi) s) (piperead_loop copyout pr pi addr n)"

section \<open>The ring is a queue\<close>

definition pipe_contents :: "pipe \<Rightarrow> byte list" where
  "pipe_contents x = ring_seg (data x) (nread x) (unat (nwrite x - nread x))"

definition pipe_ok :: "pipe \<Rightarrow> bool" where
  "pipe_ok x \<longleftrightarrow> length (data x) = PIPESIZE \<and> unat (nwrite x - nread x) \<le> PIPESIZE"

lemma PIPESIZE_dvd: "PIPESIZE dvd 2 ^ 32"
  by (simp add: PIPESIZE_def)

lemma length_pipe_contents [simp]: "length (pipe_contents x) = unat (nwrite x - nread x)"
  by (simp add: pipe_contents_def)

lemma put_byte_length: "pipe_ok x \<Longrightarrow> unat (nwrite x + 1 - nread x) = Suc (unat (nwrite x - nread x))"
proof -
  assume "pipe_ok x"
  then have "unat (nwrite x - nread x + 1) = Suc (unat (nwrite x - nread x))"
    by (simp add: pipe_ok_def PIPESIZE_def unat_word_ariths)
  then show ?thesis by (simp add: algebra_simps)
qed

lemma contents_put_byte:
  assumes "pipe_ok x" and "length (pipe_contents x) < PIPESIZE"
  shows "pipe_contents (put_byte ch x) = pipe_contents x @ [ch]"
  using ring_seg_update [of "data x" "unat (nwrite x - nread x)" "nread x" ch] assms PIPESIZE_dvd
  by (simp add: pipe_contents_def put_byte_def put_byte_length pipe_ok_def)

lemma take_byte_length:
  assumes "pipe_contents x \<noteq> []"
  shows "unat (nwrite x - nread x) = Suc (unat (nwrite x - (nread x + 1)))"
proof -
  have "unat (nwrite x - nread x) \<noteq> 0" using assms by (metis length_0_conv length_pipe_contents)
  then have "nwrite x - nread x \<noteq> 0" by auto
  then have "unat (nwrite x - nread x - 1) = unat (nwrite x - nread x) - 1"
    by (rule unat_minus_one)
  then show ?thesis using \<open>unat (nwrite x - nread x) \<noteq> 0\<close> by (simp add: algebra_simps)
qed

lemma contents_take_byte:
  assumes "pipe_ok x" and "pipe_contents x \<noteq> []"
  shows "pipe_contents x = front_byte x # pipe_contents (take_byte x)"
  using ring_seg_Cons [of "data x" "nread x" "unat (nwrite x - (nread x + 1))"] assms(1) PIPESIZE_dvd
  by (simp add: pipe_contents_def front_byte_def take_byte_def take_byte_length [OF assms(2)] pipe_ok_def)

interpretation ring: fifo put_byte front_byte take_byte pipe_contents pipe_ok PIPESIZE
proof
  fix x ch assume x: "pipe_ok x" "length (pipe_contents x) < PIPESIZE"
  show "pipe_contents (put_byte ch x) = pipe_contents x @ [ch]" by (rule contents_put_byte [OF x])
  show "pipe_ok (put_byte ch x)" using x put_byte_length [OF x(1)] by (simp add: pipe_ok_def put_byte_def)
next
  fix x assume x: "pipe_ok x" "pipe_contents x \<noteq> []"
  show "front_byte x = hd (pipe_contents x)" "pipe_contents (take_byte x) = tl (pipe_contents x)"
    using contents_take_byte [OF x] by simp_all
  show "pipe_ok (take_byte x)" using x take_byte_length [OF x(2)] by (simp add: pipe_ok_def take_byte_def)
qed

text \<open>The tests of the code for a full and for an empty ring.\<close>

lemma ring_full: "pipe_ok x \<Longrightarrow> nwrite x = nread x + of_nat PIPESIZE \<longleftrightarrow> length (pipe_contents x) = PIPESIZE"
proof -
  have "nwrite x = nread x + of_nat PIPESIZE \<longleftrightarrow> nwrite x - nread x = of_nat PIPESIZE" by (auto simp: algebra_simps)
  also have "\<dots> \<longleftrightarrow> unat (nwrite x - nread x) = PIPESIZE"
    by (simp add: word_unat_eq_iff PIPESIZE_def)
  finally show ?thesis by simp
qed

lemma ring_empty: "nread x = nwrite x \<longleftrightarrow> pipe_contents x = []"
  by (metis (no_types) eq_iff_diff_eq_0 length_0_conv length_pipe_contents unat_eq_0)

section \<open>What the operations do\<close>

lemma pipe_state_simps [simp]:
  "pipe_of pi (upd_pipe pi f s) = f (pipe_of pi s)" "pi' \<noteq> pi \<Longrightarrow> pipe_of pi' (upd_pipe pi f s) = pipe_of pi' s"
  "pipe_of pi (set_memory m s) = pipe_of pi s" "pipe_of pi (s\<lparr>cpu := c\<rparr>) = pipe_of pi s"
  "memory (upd_pipe pi f s) = memory s" "memory (set_memory m s) = m" "memory (s\<lparr>cpu := c\<rparr>) = memory s"
  "procs (upd_pipe pi f s) = procs s" "procs (set_memory m s) = procs s"
  "cproc (upd_pipe pi f s) = cproc s" "cproc (set_memory m s) = cproc s"
  "sched_inv (upd_pipe pi f s) = sched_inv s" "sched_inv (set_memory m s) = sched_inv s"
  "quiet L (upd_pipe pi f s) = quiet L s" "quiet L (set_memory m s) = quiet L s"
  by (simp_all add: pipe_of_def upd_pipe_def memory_def set_memory_def)

lemma pipe_state_norm [simp]:
  "upd_pipe pi f (s\<lparr>cpu := c\<rparr>) = (upd_pipe pi f s)\<lparr>cpu := c\<rparr>" "set_memory m (s\<lparr>cpu := c\<rparr>) = (set_memory m s)\<lparr>cpu := c\<rparr>"
  "set_memory m (upd_pipe pi f s) = upd_pipe pi f (set_memory m s)" "set_memory m' (set_memory m s) = set_memory m' s"
  "upd_pipe pi g (upd_pipe pi f s) = upd_pipe pi (g \<circ> f) s" "upd_pipe pi id s = s" "set_memory (memory s) s = s"
  by (simp_all add: upd_pipe_def memory_def set_memory_def)

text \<open>
  One run of the writer, from the test of its loop to the next sleep or to the return: it takes as many of its
  bytes as fit, and as can be read, and puts them behind the contents.
\<close>

definition room :: "int \<Rightarrow> int \<Rightarrow> pipe \<Rightarrow> nat" where
  "room n i x = min (nat (n - i)) (PIPESIZE - length (pipe_contents x))"

lemma room_put_byte:
  assumes "pipe_ok x" and "length (pipe_contents x) < PIPESIZE" and "i < n"
  shows "room n i x = Suc (room n (i + 1) (put_byte b x))"
proof -
  have "length (pipe_contents (put_byte b x)) = Suc (length (pipe_contents x))"
    by (simp only: contents_put_byte [OF assms(1,2)] length_append_singleton)
  then show ?thesis using assms(2,3) unfolding room_def by (auto simp: min_def)
qed

declare pipewrite_loop.simps [simp del] piperead_copy.simps [simp del] length_pipe_contents [simp del]

lemma pipewrite_loop_ok:
  assumes "quiet {PipeLock pi} s" and "sched_inv s" and "cproc s = Some pr" and "pipe_ok (pipe_of pi s)"
    and "i < n \<longrightarrow> readopen (pipe_of pi s) \<noteq> 0 \<and> killed_flag (procs s ! pr) = 0"
    and "copyins (copyin (pagetable (procs s ! pr))) (addr + of_int i) (room n i (pipe_of pi s)) (memory s) = (bs, m)"
  shows "\<exists>u c. hart_ok {} c \<and> after_wakeup (PipeRead pi) (upd_pipe pi (fold put_byte bs) (set_memory m s)) u \<and>
    pipewrite_loop copyin pr pi addr n i s =
      (if length bs = room n i (pipe_of pi s) \<and> i + int (length bs) < n
       then Inr (Slept (i + int (length bs)), (upd_proc pr (asleep (PipeWrite pi)) u)\<lparr>cproc := None, cpu := c\<rparr>)
       else Inr (Returned (i + int (length bs)), u\<lparr>cpu := c\<rparr>))"
  using assms
proof (induction "nat (n - i)" arbitrary: i s bs rule: less_induct)
  case less
  note hyps = less.prems
  have fin: "\<exists>u c. hart_ok {} c \<and> after_wakeup (PipeRead pi) s' u \<and> pipewrite_end pi i s' = Inr (Returned i, u\<lparr>cpu := c\<rparr>)"
    if "quiet {PipeLock pi} s'" "sched_inv s'" for s' :: "'a pkernel"
    using wakeup_then_rel [of "PipeLock pi" s' "PipeRead pi" "Returned i"] that unfolding pipewrite_end_def by auto
  show ?case
  proof (cases "i < n")
    case False
    then have "bs = []" "m = memory s" "pipewrite_loop copyin pr pi addr n i s = pipewrite_end pi i s"
      using hyps(6) by (simp_all add: room_def pipewrite_loop.simps)
    then show ?thesis using fin [OF hyps(1,2)] False by simp
  next
    case True
    obtain c0 where c0: "killed pr s = Inr (0, s\<lparr>cpu := c0\<rparr>)" "hart_ok {PipeLock pi} c0"
      using killed_ok [OF hyps(1), of pr] hyps(5) True by auto
    let ?x = "pipe_of pi s" and ?s = "s\<lparr>cpu := c0\<rparr>"
    show ?thesis
    proof (cases "length (pipe_contents ?x) = PIPESIZE")
      case full: True
      then have bs: "bs = []" "m = memory s" "room n i ?x = 0" using hyps(6) by (simp_all add: room_def)
      obtain u where u: "wakeup (PipeRead pi) ?s = Inr u" "quiet {PipeLock pi} u" "sched_inv u"
          "woken_upto NPROC (PipeRead pi) ?s u"
        using wakeup_ok [of "{PipeLock pi}" ?s "PipeRead pi"] c0(2) hyps(2) by auto
      have "cproc u = Some pr" using u(4) hyps(3) by (simp add: woken_upto_def)
      from sleep_ok [OF u(2,3) this, of "PipeWrite pi"] obtain c where
        c: "sleep (PipeWrite pi) (PipeLock pi) u = Inr ((upd_proc pr (asleep (PipeWrite pi)) u)\<lparr>cproc := None, cpu := c\<rparr>)"
          "hart_ok {} c" by auto
      have "pipewrite_loop copyin pr pi addr n i s =
          Inr (Slept i, (upd_proc pr (asleep (PipeWrite pi)) u)\<lparr>cproc := None, cpu := c\<rparr>)"
        using True c0(1) u(1) c(1) full ring_full [OF hyps(4)] hyps(5) by (simp add: pipewrite_loop.simps)
      moreover have "after_wakeup (PipeRead pi) s u" using u(3,4) by (simp add: after_wakeup_def)
      ultimately show ?thesis using True bs c(2) by (intro exI [of _ u] exI [of _ c]) simp
    next
      case notfull: False
      then have free: "length (pipe_contents ?x) < PIPESIZE" using hyps(4) by (simp add: pipe_ok_def length_pipe_contents)
      obtain r m1 where r: "copyin (pagetable (procs s ! pr)) (addr + of_int i) (memory s) = (r, m1)"
        by (cases "copyin (pagetable (procs s ! pr)) (addr + of_int i) (memory s)")
      show ?thesis
      proof (cases r)
        case None
        then have bs: "bs = []" "m = m1" "room n i ?x \<noteq> 0"
          using hyps(6) r room_put_byte [OF hyps(4) free True, of 0] by simp_all
        have "pipewrite_loop copyin pr pi addr n i s = pipewrite_end pi i ((set_memory m1 s)\<lparr>cpu := c0\<rparr>)"
          using True c0(1) notfull ring_full [OF hyps(4)] hyps(5) r None by (simp add: pipewrite_loop.simps)
        then show ?thesis using fin [of "(set_memory m1 s)\<lparr>cpu := c0\<rparr>"] bs c0(2) hyps(2) by simp
      next
        case (Some b)
        let ?s1 = "(upd_pipe pi (put_byte b) (set_memory m1 s))\<lparr>cpu := c0\<rparr>"
        have rm: "room n i ?x = Suc (room n (i + 1) (put_byte b ?x))" by (rule room_put_byte [OF hyps(4) free True])
        obtain bs1 where bs: "bs = b # bs1" "copyins (copyin (pagetable (procs s ! pr))) (addr + of_int (i + 1))
            (room n (i + 1) (put_byte b ?x)) m1 = (bs1, m)"
          using hyps(6) r Some rm by (cases "copyins (copyin (pagetable (procs s ! pr))) (addr + of_int (i + 1))
            (room n (i + 1) (put_byte b ?x)) m1") (auto simp: algebra_simps)
        have "readopen (put_byte b ?x) \<noteq> 0" "pipe_ok (put_byte b ?x)"
          using hyps(5) True ring.invar_enq [OF hyps(4) free] by (simp_all add: put_byte_def)
        then have "\<exists>u c. hart_ok {} c \<and> after_wakeup (PipeRead pi) (upd_pipe pi (fold put_byte bs1) (set_memory m ?s1)) u \<and>
            pipewrite_loop copyin pr pi addr n (i + 1) ?s1 =
            (if length bs1 = room n (i + 1) (pipe_of pi ?s1) \<and> i + 1 + int (length bs1) < n
             then Inr (Slept (i + 1 + int (length bs1)), (upd_proc pr (asleep (PipeWrite pi)) u)\<lparr>cproc := None, cpu := c\<rparr>)
             else Inr (Returned (i + 1 + int (length bs1)), u\<lparr>cpu := c\<rparr>))"
          using True hyps(2,3,5) c0(2) bs(2) by (intro less.hyps) simp_all
        moreover have "pipewrite_loop copyin pr pi addr n i s = pipewrite_loop copyin pr pi addr n (i + 1) ?s1"
          using True c0(1) notfull ring_full [OF hyps(4)] hyps(5) r Some by (subst pipewrite_loop.simps) simp
        moreover have "i + int (length bs) = i + 1 + int (length bs1)"
            "length bs = room n i ?x \<longleftrightarrow> length bs1 = room n (i + 1) (pipe_of pi ?s1)"
            "upd_pipe pi (fold put_byte bs) (set_memory m s) = upd_pipe pi (fold put_byte bs1) (upd_pipe pi (put_byte b) (set_memory m s))"
          using bs(1) rm by simp_all
        ultimately show ?thesis by (simp only: pipe_state_norm after_wakeup_cpu)
      qed
    qed
  qed
qed

text \<open>A writer whose pipe has no reader, or that is killed, gives up.\<close>

lemma pipewrite_loop_fails:
  assumes "quiet {PipeLock pi} s" and "i < n" and "readopen (pipe_of pi s) = 0 \<or> killed_flag (procs s ! pr) \<noteq> 0"
  shows "\<exists>c. pipewrite_loop copyin pr pi addr n i s = Inr (Returned (-1), s\<lparr>cpu := c\<rparr>) \<and> hart_ok {} c"
proof -
  obtain c0 where c0: "killed pr s = Inr (killed_flag (procs s ! pr), s\<lparr>cpu := c0\<rparr>)" "hart_ok {PipeLock pi} c0"
    using killed_ok [OF assms(1), of pr] by auto
  show ?thesis
    using assms(2,3) c0 rel_ok [OF assms(1), of "PipeLock pi"] rel_ok [of "{PipeLock pi}" "s\<lparr>cpu := c0\<rparr>" "PipeLock pi"]
    by (cases "readopen (pipe_of pi s) = 0") (auto simp: pipewrite_loop.simps)
qed

lemma piperead_copy_ok:
  assumes "quiet {PipeLock pi} s" and "sched_inv s" and "pipe_ok (pipe_of pi s)" and "0 \<le> i"
    and "copyouts (copyout (pagetable (procs s ! pr))) (addr + of_int i)
      (take (nat (n - i)) (pipe_contents (pipe_of pi s))) (memory s) = (k, m)"
  shows "\<exists>u c. hart_ok {} c \<and> after_wakeup (PipeWrite pi) (upd_pipe pi (take_byte ^^ k) (set_memory m s)) u \<and>
    piperead_copy copyout pr pi addr n i s =
      Inr (Returned (if i = 0 \<and> k = 0 \<and> 0 < n \<and> pipe_contents (pipe_of pi s) \<noteq> [] then -1 else i + int k), u\<lparr>cpu := c\<rparr>)"
  using assms
proof (induction "nat (n - i)" arbitrary: i s k rule: less_induct)
  case less
  note hyps = less.prems
  let ?x = "pipe_of pi s"
  have fin: "\<exists>u c. hart_ok {} c \<and> after_wakeup (PipeWrite pi) s' u \<and> piperead_end pi j s' = Inr (Returned j, u\<lparr>cpu := c\<rparr>)"
    if "quiet {PipeLock pi} s'" "sched_inv s'" for s' :: "'a pkernel" and j
    using wakeup_then_rel [of "PipeLock pi" s' "PipeWrite pi" "Returned j"] that unfolding piperead_end_def by auto
  show ?case
  proof (cases "i < n \<and> pipe_contents ?x \<noteq> []")
    case False
    then have "k = 0" "m = memory s" "piperead_copy copyout pr pi addr n i s = piperead_end pi i s"
      using hyps(5) by (auto simp: piperead_copy.simps ring_empty)
    then show ?thesis using fin [OF hyps(1,2), of i] False hyps(4) by auto
  next
    case True
    then have ne: "i < n" "pipe_contents ?x \<noteq> []" by simp_all
    note front = contents_take_byte [OF hyps(3) ne(2)]
    obtain ok m1 where r: "copyout (pagetable (procs s ! pr)) (addr + of_int i) (front_byte ?x) (memory s) = (ok, m1)"
      by (cases "copyout (pagetable (procs s ! pr)) (addr + of_int i) (front_byte ?x) (memory s)")
    have tk: "take (nat (n - i)) (pipe_contents ?x) =
        front_byte ?x # take (nat (n - (i + 1))) (pipe_contents (take_byte ?x))"
    proof -
      have "nat (n - i) = Suc (nat (n - (i + 1)))" using ne(1) by simp
      then show ?thesis by (subst front) simp
    qed
    show ?thesis
    proof (cases ok)
      case False
      then have "k = 0" "m = m1" using hyps(5) tk r by simp_all
      moreover have "piperead_copy copyout pr pi addr n i s = piperead_end pi (if i = 0 then -1 else i) (set_memory m1 s)"
        using ne ring_empty [of ?x] r False by (simp add: piperead_copy.simps)
      ultimately show ?thesis
        using fin [of "set_memory m1 s" "if i = 0 then -1 else i"] hyps(1,2,4) ne
        by (cases "i = 0") simp_all
    next
      case okay: True
      let ?s1 = "upd_pipe pi take_byte (set_memory m1 s)"
      obtain k1 where k: "k = Suc k1" "copyouts (copyout (pagetable (procs s ! pr))) (addr + of_int (i + 1))
          (take (nat (n - (i + 1))) (pipe_contents (take_byte ?x))) m1 = (k1, m)"
        using hyps(5) tk r okay by (cases "copyouts (copyout (pagetable (procs s ! pr))) (addr + of_int (i + 1))
          (take (nat (n - (i + 1))) (pipe_contents (take_byte ?x))) m1") (auto simp: algebra_simps)
      have "pipe_ok (take_byte ?x)" by (rule ring.invar_deq [OF hyps(3) ne(2)])
      then have "\<exists>u c. hart_ok {} c \<and> after_wakeup (PipeWrite pi) (upd_pipe pi (take_byte ^^ k1) (set_memory m ?s1)) u \<and>
          piperead_copy copyout pr pi addr n (i + 1) ?s1 =
          Inr (Returned (if i + 1 = 0 \<and> k1 = 0 \<and> 0 < n \<and> pipe_contents (pipe_of pi ?s1) \<noteq> [] then -1
            else i + 1 + int k1), u\<lparr>cpu := c\<rparr>)"
        using ne(1) hyps(1,2,4) k(2) by (intro less.hyps) simp_all
      moreover have "piperead_copy copyout pr pi addr n i s = piperead_copy copyout pr pi addr n (i + 1) ?s1"
        using ne ring_empty [of ?x] r okay by (subst piperead_copy.simps) simp
      moreover have "i + 1 \<noteq> 0" "i + 1 + int k1 = i + int k" "k \<noteq> 0"
          "upd_pipe pi (take_byte ^^ k) (set_memory m s) = upd_pipe pi (take_byte ^^ k1) (upd_pipe pi take_byte (set_memory m s))"
        using hyps(4) k(1) by (simp_all add: funpow_Suc_right del: funpow.simps)
      ultimately show ?thesis by (simp only: pipe_state_norm simp_thms if_False)
    qed
  qed
qed

lemma after_wakeup_pipes:
  assumes "after_wakeup ch s u"
  shows "pipe_of pi u = pipe_of pi s" "memory u = memory s"
  using after_wakeup_procs(2) [OF assms] by (simp_all add: pipe_of_def memory_def)

lemma pipe_of_upd_proc [simp]:
  "pipe_of pi (upd_proc p f s) = pipe_of pi s" "pipe_of pi (s\<lparr>cproc := q\<rparr>) = pipe_of pi s"
  "memory (upd_proc p f s) = memory s" "memory (s\<lparr>cproc := q\<rparr>) = memory s"
  by (simp_all add: pipe_of_def memory_def)

lemma room_full:
  assumes "pipe_ok x" and "length bs \<le> room n i x"
  shows "length bs = room n i x \<and> i + int (length bs) < n \<longleftrightarrow>
    length (pipe_contents x) + length bs = PIPESIZE \<and> i + int (length bs) < n"
  using assms unfolding room_def pipe_ok_def length_pipe_contents by auto

lemma fold_put_byte_fields [simp]:
  "readopen (fold put_byte bs x) = readopen x" "writeopen (fold put_byte bs x) = writeopen x"
  by (induction bs arbitrary: x) (simp_all add: put_byte_def)

lemma take_byte_fields [simp]:
  "readopen ((take_byte ^^ k) x) = readopen x" "writeopen ((take_byte ^^ k) x) = writeopen x"
  by (induction k) (simp_all add: take_byte_def)

text \<open>C8: A writer never loses, reorders or invents a byte.  From the test of its loop, entered for the first time
  or after a sleep, up to its next sleep or its return, it appends to the contents of the pipe exactly the next bytes
  of its buffer, as many as there is room for and as \<open>copyin\<close> delivers; it sleeps exactly if the pipe is full and bytes
  are left, and otherwise returns the number of bytes written so far, or -1 and no byte if there is no reader or it is killed.
  No other pipe changes and no call panics, also when the 32-bit counters wrap.\<close>

theorem pipewrite_appends:
  assumes "quiet {PipeLock pi} s" and "sched_inv s" and "cproc s = Some pr" and "pipe_ok (pipe_of pi s)"
    and bs: "copyins (copyin (pagetable (procs s ! pr))) (addr + of_int i) (room n i (pipe_of pi s)) (memory s) = (bs, m)"
  shows "\<exists>r s'. pipewrite_loop copyin pr pi addr n i s = Inr (r, s') \<and> quiet {} s' \<and> sched_inv s' \<and>
    pipe_ok (pipe_of pi s') \<and> (\<forall>pi'. pi' \<noteq> pi \<longrightarrow> pipe_of pi' s' = pipe_of pi' s) \<and>
    (if i < n \<and> (readopen (pipe_of pi s) = 0 \<or> killed_flag (procs s ! pr) \<noteq> 0)
     then r = Returned (-1) \<and> pipe_of pi s' = pipe_of pi s
     else pipe_contents (pipe_of pi s') = pipe_contents (pipe_of pi s) @ bs \<and>
       r = (if length (pipe_contents (pipe_of pi s')) = PIPESIZE \<and> i + int (length bs) < n
            then Slept (i + int (length bs)) else Returned (i + int (length bs))) \<and> memory s' = m)"
proof (cases "i < n \<and> (readopen (pipe_of pi s) = 0 \<or> killed_flag (procs s ! pr) \<noteq> 0)")
  case True
  then obtain c where "pipewrite_loop copyin pr pi addr n i s = Inr (Returned (-1), s\<lparr>cpu := c\<rparr>)" "hart_ok {} c"
    using pipewrite_loop_fails [OF assms(1), of i n pr copyin addr] by blast
  then show ?thesis using True assms by simp
next
  case False
  let ?x = "pipe_of pi s" and ?t = "upd_pipe pi (fold put_byte bs) (set_memory m s)"
  have len: "length bs \<le> room n i ?x" using length_copyins bs by (metis fst_conv)
  then have fit: "length (pipe_contents ?x) + length bs \<le> PIPESIZE"
    using assms(4) by (auto simp: room_def pipe_ok_def length_pipe_contents)
  note new = ring.enq_many [OF assms(4) fit]
  obtain u c where u: "hart_ok {} c" "after_wakeup (PipeRead pi) ?t u"
      "pipewrite_loop copyin pr pi addr n i s =
      (if length bs = room n i ?x \<and> i + int (length bs) < n
       then Inr (Slept (i + int (length bs)), (upd_proc pr (asleep (PipeWrite pi)) u)\<lparr>cproc := None, cpu := c\<rparr>)
       else Inr (Returned (i + int (length bs)), u\<lparr>cpu := c\<rparr>))"
    using pipewrite_loop_ok [of pi s pr i n copyin addr bs m] assms False by blast
  note u' = after_wakeup_procs(3,4) [OF u(2)] after_wakeup_pipes [OF u(2)]
  have "sched_inv ((upd_proc pr (asleep (PipeWrite pi)) u)\<lparr>cproc := None\<rparr>)"
    using u'(1,2) assms(3) by (intro sched_inv_asleep) simp_all
  then show ?thesis using u(1,3) u' new False room_full [OF assms(4) len]
    by (cases "length (pipe_contents ?x) + length bs = PIPESIZE \<and> i + int (length bs) < n") auto
qed

text \<open>A pipe at address 4096 whose counters are about to wrap, for the examples.\<close>

definition example_world :: "pipe \<Rightarrow> unit pipes_world_scheme" where
  "example_world x = \<lparr>pipes = \<lambda>_. x, \<dots> = ()\<rparr>"

definition example_pipe :: "nat \<Rightarrow> pipe" where
  "example_pipe k = \<lparr>data = replicate 512 7, nread = - 1, nwrite = - 1 + of_nat k, readopen = 1, writeopen = 1\<rparr>"

lemma example_pipe_ok:
  "pipe_of 4096 (solo L (example_world x)) = x" "memory (solo L (example_world x)) = ()"
  "pipe_ok (example_pipe 0)" "pipe_ok (example_pipe 2)"
  "pipe_contents (example_pipe 0) = []" "pipe_contents (example_pipe 2) = [7, 7]"
proof -
  show "pipe_contents (example_pipe 2) = [7, 7]"
    by (simp add: example_pipe_def pipe_contents_def ring_seg_def upt_rec)
qed (simp_all add: pipe_of_def memory_def example_world_def example_pipe_def pipe_ok_def pipe_contents_def PIPESIZE_def)

lemma example_pipe_fields:
  "readopen (example_pipe k) = 1" "writeopen (example_pipe k) = 1" "killed_flag idle_proc = 0" "room 3 0 (example_pipe 0) = 3"
  by (simp_all add: room_def example_pipe_ok PIPESIZE_def) (simp_all add: example_pipe_def idle_proc_def)

theorem pipewrite_appends_witness:
  "\<exists>s'. pipewrite_loop (\<lambda>_ a m. (Some (ucast a), m)) 0 4096 65 3 0 (solo {PipeLock 4096} (example_world (example_pipe 0)))
      = Inr (Returned 3, s') \<and> pipe_contents (pipe_of 4096 s') = [65, 66, 67]"
  using pipewrite_appends [of 4096 "solo {PipeLock 4096} (example_world (example_pipe 0))" 0
      "\<lambda>_ a m. (Some (ucast a), m)" 65 0 3 "[65, 66, 67]" "()"]
  by (simp add: example_pipe_ok example_pipe_fields PIPESIZE_def numeral_3_eq_3) blast

text \<open>C9: A reader takes the oldest bytes, in order and each once.  It sleeps exactly if the pipe is empty and has a
  writer; otherwise it hands the first bytes to \<open>copyout\<close>, at most as many as asked for and as there are, removes exactly those
  that user memory took, and returns their number: 0 at the end of the data, -1 if the first byte could not be stored.\<close>

theorem piperead_takes:
  assumes "quiet {PipeLock pi} s" and "sched_inv s" and "cproc s = Some pr" and "pipe_ok (pipe_of pi s)"
    and k: "copyouts (copyout (pagetable (procs s ! pr))) addr (take (nat n) (pipe_contents (pipe_of pi s))) (memory s) = (k, m)"
  shows "\<exists>r s'. piperead_loop copyout pr pi addr n s = Inr (r, s') \<and> quiet {} s' \<and> sched_inv s' \<and>
    pipe_ok (pipe_of pi s') \<and> (\<forall>pi'. pi' \<noteq> pi \<longrightarrow> pipe_of pi' s' = pipe_of pi' s) \<and>
    (if pipe_contents (pipe_of pi s) = [] \<and> writeopen (pipe_of pi s) \<noteq> 0
     then pipe_of pi s' = pipe_of pi s \<and> memory s' = memory s \<and>
       r = (if killed_flag (procs s ! pr) = 0 then Slept () else Returned (-1))
     else pipe_contents (pipe_of pi s') = drop k (pipe_contents (pipe_of pi s)) \<and> memory s' = m \<and>
       r = Returned (if k = 0 \<and> 0 < n \<and> pipe_contents (pipe_of pi s) \<noteq> [] then -1 else int k))"
proof (cases "pipe_contents (pipe_of pi s) = [] \<and> writeopen (pipe_of pi s) \<noteq> 0")
  case True
  then have e: "nread (pipe_of pi s) = nwrite (pipe_of pi s)" using ring_empty by blast
  obtain c0 where c0: "killed pr s = Inr (killed_flag (procs s ! pr), s\<lparr>cpu := c0\<rparr>)" "hart_ok {PipeLock pi} c0"
    using killed_ok [OF assms(1), of pr] by auto
  obtain c1 where c1: "sleep (PipeRead pi) (PipeLock pi) (s\<lparr>cpu := c0\<rparr>) =
      Inr ((upd_proc pr (asleep (PipeRead pi)) (s\<lparr>cpu := c0\<rparr>))\<lparr>cproc := None, cpu := c1\<rparr>)" "hart_ok {} c1"
      "sched_inv ((upd_proc pr (asleep (PipeRead pi)) (s\<lparr>cpu := c0\<rparr>))\<lparr>cproc := None\<rparr>)"
    using sleep_ok [of "PipeLock pi" "s\<lparr>cpu := c0\<rparr>" pr "PipeRead pi"] assms(2,3) c0(2) by auto
  obtain c2 where "rel (PipeLock pi) (s\<lparr>cpu := c0\<rparr>) = Inr (s\<lparr>cpu := c2\<rparr>)" "hart_ok {} c2"
    using rel_ok [of "{PipeLock pi}" "s\<lparr>cpu := c0\<rparr>" "PipeLock pi"] c0(2) by auto
  then show ?thesis using True e c0(1) c1 assms(2,4) unfolding piperead_loop_def by simp
next
  case False
  let ?x = "pipe_of pi s"
  have le: "k \<le> length (pipe_contents ?x)"
    using copyouts_le [of "copyout (pagetable (procs s ! pr))" addr "take (nat n) (pipe_contents ?x)" "memory s"] k by simp
  note new = ring.deq_many [OF assms(4) le]
  obtain u c where u: "hart_ok {} c" "after_wakeup (PipeWrite pi) (upd_pipe pi (take_byte ^^ k) (set_memory m s)) u"
      "piperead_copy copyout pr pi addr n 0 s =
      Inr (Returned (if k = 0 \<and> 0 < n \<and> pipe_contents ?x \<noteq> [] then -1 else int k), u\<lparr>cpu := c\<rparr>)"
    using piperead_copy_ok [of pi s 0 copyout pr addr n k m] assms by auto
  have "piperead_loop copyout pr pi addr n s = piperead_copy copyout pr pi addr n 0 s"
    using False ring_empty [of ?x] unfolding piperead_loop_def by auto
  then show ?thesis
    using u(1,3) False new after_wakeup_procs(4) [OF u(2)] after_wakeup_pipes [OF u(2)] by simp
qed

theorem piperead_takes_witness:
  "\<exists>s'. piperead_loop (\<lambda>_ _ _ m. (True, m)) 0 4096 65 1 (solo {PipeLock 4096} (example_world (example_pipe 2)))
      = Inr (Returned 1, s') \<and> pipe_contents (pipe_of 4096 s') = [7]"
  using piperead_takes [of 4096 "solo {PipeLock 4096} (example_world (example_pipe 2))" 0
      "\<lambda>_ _ _ m. (True, m)" 65 1 1 "()"]
  by (simp add: example_pipe_ok example_pipe_fields) blast

text \<open>
  Nobody sleeps on a pipe that could serve it: sleeping readers find it empty with a writer left, sleeping writers full
  with a reader left.
\<close>

definition sleepers_ok :: "64 word \<Rightarrow> 'a pkernel \<Rightarrow> bool" where
  "sleepers_ok pi s \<longleftrightarrow> (\<forall>x \<in> set (procs s).
     (sleeps_on (PipeRead pi) x \<longrightarrow> pipe_contents (pipe_of pi s) = [] \<and> writeopen (pipe_of pi s) \<noteq> 0) \<and>
     (sleeps_on (PipeWrite pi) x \<longrightarrow> length (pipe_contents (pipe_of pi s)) = PIPESIZE \<and> readopen (pipe_of pi s) \<noteq> 0))"

lemma sleepers_ok_cpu [simp]: "sleepers_ok pi (s\<lparr>cpu := c\<rparr>) = sleepers_ok pi s"
  by (simp add: sleepers_ok_def)

text \<open>Waking the readers settles their half, waking the writers theirs.\<close>

lemma sleepers_after_wakeup:
  assumes "after_wakeup ch s u" and "\<And>x. x \<in> set (procs s) \<Longrightarrow>
     (ch \<noteq> PipeRead pi \<and> sleeps_on (PipeRead pi) x \<longrightarrow> pipe_contents (pipe_of pi s) = [] \<and> writeopen (pipe_of pi s) \<noteq> 0) \<and>
     (ch \<noteq> PipeWrite pi \<and> sleeps_on (PipeWrite pi) x \<longrightarrow> length (pipe_contents (pipe_of pi s)) = PIPESIZE \<and> readopen (pipe_of pi s) \<noteq> 0)"
  shows "sleepers_ok pi u"
  using assms(2) unfolding sleepers_ok_def after_wakeup_procs(1) [OF assms(1)] after_wakeup_pipes(1) [OF assms(1)]
  by auto

lemma sleepers_asleep:
  assumes "sleepers_ok pi s"
    and "ch = PipeRead pi \<and> pipe_contents (pipe_of pi s) = [] \<and> writeopen (pipe_of pi s) \<noteq> 0 \<or>
      ch = PipeWrite pi \<and> length (pipe_contents (pipe_of pi s)) = PIPESIZE \<and> readopen (pipe_of pi s) \<noteq> 0"
  shows "sleepers_ok pi ((upd_proc p (asleep ch) s)\<lparr>cproc := None\<rparr>)"
proof -
  have "x \<in> set (procs s) \<or> x = asleep ch (procs s ! p)" if "x \<in> set ((procs s)[p := asleep ch (procs s ! p)])" for x
    using that set_update_subset_insert by fastforce
  then show ?thesis using assms unfolding sleepers_ok_def
    by (fastforce simp: procs_upd_proc sleeps_on_def asleep_def)
qed

lemma pipewrite_sleepers:
  assumes "quiet {PipeLock pi} s" and "sched_inv s" and "cproc s = Some pr" and "pipe_ok (pipe_of pi s)"
    and "sleepers_ok pi s"
  shows "\<exists>r s'. pipewrite_loop copyin pr pi addr n i s = Inr (r, s') \<and> sleepers_ok pi s'"
proof (cases "i < n \<and> (readopen (pipe_of pi s) = 0 \<or> killed_flag (procs s ! pr) \<noteq> 0)")
  case True
  then obtain c where "pipewrite_loop copyin pr pi addr n i s = Inr (Returned (-1), s\<lparr>cpu := c\<rparr>)"
    using pipewrite_loop_fails [OF assms(1), of i n pr copyin addr] by blast
  then show ?thesis using assms(5) by simp
next
  case False
  let ?x = "pipe_of pi s"
  obtain bs m where bs: "copyins (copyin (pagetable (procs s ! pr))) (addr + of_int i) (room n i ?x) (memory s) = (bs, m)"
    by (cases "copyins (copyin (pagetable (procs s ! pr))) (addr + of_int i) (room n i ?x) (memory s)")
  let ?t = "upd_pipe pi (fold put_byte bs) (set_memory m s)"
  obtain u c where u: "hart_ok {} c" "after_wakeup (PipeRead pi) ?t u"
      "pipewrite_loop copyin pr pi addr n i s =
      (if length bs = room n i ?x \<and> i + int (length bs) < n
       then Inr (Slept (i + int (length bs)), (upd_proc pr (asleep (PipeWrite pi)) u)\<lparr>cproc := None, cpu := c\<rparr>)
       else Inr (Returned (i + int (length bs)), u\<lparr>cpu := c\<rparr>))"
    using pipewrite_loop_ok [of pi s pr i n copyin addr bs m] assms bs False by blast
  have len: "length bs \<le> room n i ?x" using length_copyins bs by (metis fst_conv)
  then have fit: "length (pipe_contents ?x) + length bs \<le> PIPESIZE"
    using assms(4) by (auto simp: room_def pipe_ok_def length_pipe_contents)
  have "sleepers_ok pi u"
  proof (rule sleepers_after_wakeup [OF u(2)])
    fix x assume "x \<in> set (procs ?t)"
    then show "(PipeRead pi \<noteq> PipeRead pi \<and> sleeps_on (PipeRead pi) x \<longrightarrow> pipe_contents (pipe_of pi ?t) = [] \<and> writeopen (pipe_of pi ?t) \<noteq> 0) \<and>
      (PipeRead pi \<noteq> PipeWrite pi \<and> sleeps_on (PipeWrite pi) x \<longrightarrow> length (pipe_contents (pipe_of pi ?t)) = PIPESIZE \<and> readopen (pipe_of pi ?t) \<noteq> 0)"
      using assms(5) fit len by (auto simp: sleepers_ok_def room_def)
  qed
  moreover have "sleepers_ok pi ((upd_proc pr (asleep (PipeWrite pi)) u)\<lparr>cproc := None\<rparr>)"
    if "length bs = room n i ?x \<and> i + int (length bs) < n"
    using calculation that False room_full [OF assms(4) len] after_wakeup_pipes(1) [OF u(2)] ring.enq_many [OF assms(4) fit]
    by (intro sleepers_asleep) auto
  ultimately show ?thesis using u(3) by auto
qed

lemma piperead_sleepers:
  assumes "quiet {PipeLock pi} s" and "sched_inv s" and "cproc s = Some pr" and "pipe_ok (pipe_of pi s)"
    and "sleepers_ok pi s"
  shows "\<exists>r s'. piperead_loop copyout pr pi addr n s = Inr (r, s') \<and> sleepers_ok pi s'"
proof (cases "pipe_contents (pipe_of pi s) = [] \<and> writeopen (pipe_of pi s) \<noteq> 0")
  case True
  then have e: "nread (pipe_of pi s) = nwrite (pipe_of pi s)" using ring_empty by blast
  obtain c0 where c0: "killed pr s = Inr (killed_flag (procs s ! pr), s\<lparr>cpu := c0\<rparr>)" "hart_ok {PipeLock pi} c0"
    using killed_ok [OF assms(1), of pr] by auto
  obtain c1 where c1: "sleep (PipeRead pi) (PipeLock pi) (s\<lparr>cpu := c0\<rparr>) =
      Inr ((upd_proc pr (asleep (PipeRead pi)) (s\<lparr>cpu := c0\<rparr>))\<lparr>cproc := None, cpu := c1\<rparr>)"
    using sleep_ok [of "PipeLock pi" "s\<lparr>cpu := c0\<rparr>" pr "PipeRead pi"] assms(2,3) c0(2) by auto
  obtain c2 where "rel (PipeLock pi) (s\<lparr>cpu := c0\<rparr>) = Inr (s\<lparr>cpu := c2\<rparr>)"
    using rel_ok [of "{PipeLock pi}" "s\<lparr>cpu := c0\<rparr>" "PipeLock pi"] c0(2) by auto
  moreover have "sleepers_ok pi ((upd_proc pr (asleep (PipeRead pi)) s)\<lparr>cproc := None\<rparr>)"
    using True assms(5) by (intro sleepers_asleep) auto
  ultimately show ?thesis using True e c0(1) c1 assms(5) unfolding piperead_loop_def by simp
next
  case False
  let ?x = "pipe_of pi s"
  obtain k m where k: "copyouts (copyout (pagetable (procs s ! pr))) addr (take (nat n) (pipe_contents ?x)) (memory s) = (k, m)"
    by (cases "copyouts (copyout (pagetable (procs s ! pr))) addr (take (nat n) (pipe_contents ?x)) (memory s)")
  let ?t = "upd_pipe pi (take_byte ^^ k) (set_memory m s)"
  obtain u c r where u: "after_wakeup (PipeWrite pi) ?t u" "piperead_copy copyout pr pi addr n 0 s = Inr (r, u\<lparr>cpu := c\<rparr>)"
    using piperead_copy_ok [of pi s 0 copyout pr addr n k m] assms k by auto
  have "piperead_loop copyout pr pi addr n s = piperead_copy copyout pr pi addr n 0 s"
    using False ring_empty [of ?x] unfolding piperead_loop_def by auto
  moreover have "sleepers_ok pi u"
    using False assms(5) by (intro sleepers_after_wakeup [OF u(1)]) (auto simp: sleepers_ok_def)
  ultimately show ?thesis using u(2) by simp
qed

lemma pipeclose_sleepers:
  assumes "quiet {} s" and "sched_inv s" and "sleepers_ok pi s"
  shows "\<exists>s'. pipeclose kfree pi writable s = Inr s' \<and> sleepers_ok pi s'"
proof -
  define ch where "ch = (if writable then PipeRead pi else PipeWrite pi)"
  define g where "g = (\<lambda>x :: pipe. if writable then x\<lparr>writeopen := 0\<rparr> else x\<lparr>readopen := 0\<rparr>)"
  obtain c where c: "acq (PipeLock pi) s = Inr (s\<lparr>cpu := c\<rparr>)" "hart_ok {PipeLock pi} c"
    using acq_ok [OF assms(1), of "PipeLock pi"] by auto
  obtain u where u: "wakeup ch ((upd_pipe pi g s)\<lparr>cpu := c\<rparr>) = Inr u" "quiet {PipeLock pi} u" "sched_inv u"
      "woken_upto NPROC ch ((upd_pipe pi g s)\<lparr>cpu := c\<rparr>) u"
    using wakeup_ok [of "{PipeLock pi}" "(upd_pipe pi g s)\<lparr>cpu := c\<rparr>" ch] c(2) assms(2) by auto
  obtain c' where c': "rel (PipeLock pi) u = Inr (u\<lparr>cpu := c'\<rparr>)" using rel_ok [OF u(2), of "PipeLock pi"] by auto
  have "after_wakeup ch (upd_pipe pi g s) u" using u(3,4) by (simp add: after_wakeup_def)
  then have "sleepers_ok pi u"
    using assms(3) by (rule_tac sleepers_after_wakeup) (auto simp: sleepers_ok_def ch_def g_def pipe_contents_def split: if_splits)
  then have "sleepers_ok pi (set_memory m (u\<lparr>cpu := c'\<rparr>))" "sleepers_ok pi (u\<lparr>cpu := c'\<rparr>)" for m
    by (simp_all add: sleepers_ok_def)
  moreover have "pipeclose kfree pi writable s =
      (if readopen (pipe_of pi u) = 0 \<and> writeopen (pipe_of pi u) = 0
       then Inr (set_memory (kfree pi (memory u)) (u\<lparr>cpu := c'\<rparr>)) else Inr (u\<lparr>cpu := c'\<rparr>))"
    using c(1) u(1) c' unfolding pipeclose_def by (cases writable) (simp_all add: ch_def g_def)
  ultimately show ?thesis by auto
qed

text \<open>C17: No wakeup is lost: \<open>pipewrite\<close>, \<open>piperead\<close>, from the start or after a sleep, and \<open>pipeclose\<close> all leave no process
  asleep on a pipe that could go on: a sleeping reader has an empty pipe with its write end open, a sleeping writer has a full pipe
  with its read end open.\<close>

theorem pipe_no_lost_wakeup:
  assumes "quiet {PipeLock pi} s" and "sched_inv s" and "cproc s = Some pr" and "pipe_ok (pipe_of pi s)"
    and "sleepers_ok pi s" and "hart_ok {} c"
  shows "(\<exists>r s'. pipewrite_loop copyin pr pi addr n i s = Inr (r, s') \<and> sleepers_ok pi s') \<and>
    (\<exists>r s'. piperead_loop copyout pr pi addr n s = Inr (r, s') \<and> sleepers_ok pi s') \<and>
    (\<exists>s'. pipeclose kfree pi writable (s\<lparr>cpu := c\<rparr>) = Inr s' \<and> sleepers_ok pi s')"
  using pipewrite_sleepers [OF assms(1-5)] piperead_sleepers [OF assms(1-5)]
    pipeclose_sleepers [of "s\<lparr>cpu := c\<rparr>" pi kfree writable] assms(2,5,6) by auto

theorem pipe_no_lost_wakeup_witness:
  "\<exists>s'. pipeclose (\<lambda>_ m. m) 4096 True (solo {} (example_world (example_pipe 2))) = Inr s' \<and> sleepers_ok 4096 s'"
proof -
  let ?s = "solo {PipeLock 4096} (example_world (example_pipe 2))"
  have "solo {} (example_world (example_pipe 2)) = ?s\<lparr>cpu := cpu (solo {} (example_world (example_pipe 2)))\<rparr>"
    by (simp add: solo_def)
  moreover have "hart_ok {} (cpu (solo {} (example_world (example_pipe 2))))" by (simp add: solo_def hart_ok_def)
  moreover have "sleepers_ok 4096 ?s" by (simp add: sleepers_ok_def sleeps_on_def idle_proc_def)
  moreover have "\<exists>s'. pipeclose (\<lambda>_ m. m) 4096 True (?s\<lparr>cpu := c\<rparr>) = Inr s' \<and> sleepers_ok 4096 s'"
    if "hart_ok {} c" "sleepers_ok 4096 ?s" for c
    by (rule pipe_no_lost_wakeup [of 4096 ?s 0 c, THEN conjunct2, THEN conjunct2])
      (use that in \<open>simp_all add: example_pipe_ok del: solo_simps(4)\<close>)
  ultimately show ?thesis by metis
qed

end
