(* ===== verification/Kernel_String.thy ===== *)
theory Kernel_String
  imports C_Memory
begin

text \<open>
  The memory and string functions of the kernel, \<^verbatim>\<open>xv6/kernel/string.c\<close>.  A function that
  writes returns the memory after it; the loops over a count recurse on it, and \<open>strlen\<close>,
  which runs to the end of its string, is undefined where there is none.
\<close>

section \<open>Operations\<close>

function memset_loop :: "mem \<Rightarrow> nat \<Rightarrow> byte \<Rightarrow> nat \<Rightarrow> nat \<Rightarrow> mem" where
  "memset_loop m cdst c i n = (if i < n then memset_loop (m(cdst + i := c)) cdst c (i + 1) n else m)"
  by pat_completeness auto
termination by (relation "measure (\<lambda>(m, cdst, c, i, n). n - i)") auto

definition memset :: "mem \<Rightarrow> nat \<Rightarrow> int \<Rightarrow> nat \<Rightarrow> mem" where
  "memset m dst c n = memset_loop m dst (word_of_int c) 0 n"

fun memcmp :: "mem \<Rightarrow> nat \<Rightarrow> nat \<Rightarrow> nat \<Rightarrow> int" where
  "memcmp m s1 s2 0 = 0"
| "memcmp m s1 s2 (Suc n) =
    (if m s1 \<noteq> m s2 then uint (m s1) - uint (m s2) else memcmp m (s1 + 1) (s2 + 1) n)"

fun copy_down :: "mem \<Rightarrow> nat \<Rightarrow> nat \<Rightarrow> nat \<Rightarrow> mem" where
  "copy_down m d s 0 = m"
| "copy_down m d s (Suc n) = copy_down (m(d - 1 := m (s - 1))) (d - 1) (s - 1) n"

fun copy_up :: "mem \<Rightarrow> nat \<Rightarrow> nat \<Rightarrow> nat \<Rightarrow> mem" where
  "copy_up m d s 0 = m"
| "copy_up m d s (Suc n) = copy_up (m(d := m s)) (d + 1) (s + 1) n"

definition memmove :: "mem \<Rightarrow> nat \<Rightarrow> nat \<Rightarrow> nat \<Rightarrow> mem" where
  "memmove m dst src n =
    (if n = 0 then m
     else if src < dst \<and> src + n > dst then copy_down m (dst + n) (src + n) n
     else copy_up m dst src n)"

definition memcpy :: "mem \<Rightarrow> nat \<Rightarrow> nat \<Rightarrow> nat \<Rightarrow> mem" where
  "memcpy m dst src n = memmove m dst src n"

fun strncmp :: "mem \<Rightarrow> nat \<Rightarrow> nat \<Rightarrow> nat \<Rightarrow> int" where
  "strncmp m p q 0 = 0"
| "strncmp m p q (Suc n) =
    (if m p \<noteq> 0 \<and> m p = m q then strncmp m (p + 1) (q + 1) n else uint (m p) - uint (m q))"

text \<open>The two loops of \<open>strncpy\<close>; \<open>n\<close> is what is left of the count.\<close>

fun zero_fill :: "mem \<Rightarrow> nat \<Rightarrow> nat \<Rightarrow> mem" where
  "zero_fill m s 0 = m"
| "zero_fill m s (Suc n) = zero_fill (m(s := 0)) (s + 1) n"

fun strncpy :: "mem \<Rightarrow> nat \<Rightarrow> nat \<Rightarrow> nat \<Rightarrow> mem" where
  "strncpy m s t 0 = m"
| "strncpy m s t (Suc n) =
    (let m' = m(s := m t) in if m t \<noteq> 0 then strncpy m' (s + 1) (t + 1) n else zero_fill m' (s + 1) n)"

fun safestrcpy_loop :: "mem \<Rightarrow> nat \<Rightarrow> nat \<Rightarrow> nat \<Rightarrow> mem" where
  "safestrcpy_loop m s t n =
    (case n of 0 \<Rightarrow> m(s := 0) | Suc k \<Rightarrow>
      (case k of 0 \<Rightarrow> m(s := 0) | Suc _ \<Rightarrow>
        let m' = m(s := m t) in if m t \<noteq> 0 then safestrcpy_loop m' (s + 1) (t + 1) k else m'(s + 1 := 0)))"

definition safestrcpy :: "mem \<Rightarrow> nat \<Rightarrow> nat \<Rightarrow> nat \<Rightarrow> mem" where
  "safestrcpy m s t n = (if n = 0 then m else safestrcpy_loop m s t n)"

partial_function (option) strlen_loop :: "mem \<Rightarrow> nat \<Rightarrow> nat \<Rightarrow> nat option" where
  "strlen_loop m s n = (if m (s + n) \<noteq> 0 then strlen_loop m s (n + 1) else Some n)"

definition strlen :: "mem \<Rightarrow> nat \<Rightarrow> nat option" where
  "strlen m s = strlen_loop m s 0"

section \<open>Correctness\<close>

declare memset_loop.simps [simp del] safestrcpy_loop.simps [simp del]

lemma copy_up_eq:
  "d \<le> s \<or> s + n \<le> d \<Longrightarrow> copy_up m d s n = store m d (bytes_at m s n)"
proof (induction n arbitrary: m d s)
  case (Suc n)
  have "copy_up m d s (Suc n) = copy_up (m(d := m s)) (Suc d) (Suc s) n" by simp
  also have "\<dots> = store (m(d := m s)) (Suc d) (bytes_at (m(d := m s)) (Suc s) n)"
    by (rule Suc.IH) (use Suc.prems in auto)
  also have "bytes_at (m(d := m s)) (Suc s) n = bytes_at m (Suc s) n"
    using Suc.prems by (auto simp: bytes_at_def)
  finally show ?case by (simp add: bytes_at_Suc store_Cons fun_upd_def)
qed simp

lemma copy_down_eq:
  "s \<le> d \<or> d + n \<le> s \<Longrightarrow> copy_down m (d + n) (s + n) n = store m d (bytes_at m s n)"
proof (induction n arbitrary: m)
  case (Suc n)
  let ?m = "m(d + n := m (s + n))"
  have "copy_down m (d + Suc n) (s + Suc n) (Suc n) = copy_down ?m (d + n) (s + n) n" by simp
  also have "\<dots> = store ?m d (bytes_at ?m s n)" by (rule Suc.IH) (use Suc.prems in auto)
  also have "\<dots> = store m d (bytes_at m s (Suc n))"
    using Suc.prems by (auto simp: store_bytes_at fun_eq_iff less_Suc_eq)
  finally show ?case .
qed simp

lemma strlen_loop_ok: "cstr m (s + n) bs \<Longrightarrow> strlen_loop m s n = Some (n + length bs)"
proof (induction bs arbitrary: n)
  case Nil
  then show ?case by (subst strlen_loop.simps) (simp add: cstr_simps)
next
  case (Cons b bs)
  then show ?case using Cons.IH [of "n + 1"] by (subst strlen_loop.simps) (simp add: cstr_simps)
qed

text \<open>\<open>memmove\<close> leaves at the destination what the source held before the call, and nothing else
  changes, whether or not the two blocks overlap.\<close>

lemma memmove_copies: "memmove m dst src n = store m dst (bytes_at m src n)"
  using copy_up_eq [of dst src n m] copy_down_eq [of src dst n m] by (auto simp: memmove_def)

lemma safestrcpy_loop_ok:
  assumes "cstr m t bs" and "s + n \<le> t \<or> t + length bs < s" and "0 < n"
  shows "cstr (safestrcpy_loop m s t n) s (take (n - 1) bs) \<and>
    (\<forall>q. q < s \<or> s + n \<le> q \<longrightarrow> safestrcpy_loop m s t n q = m q)"
  using assms
proof (induction bs arbitrary: m s t n)
  case Nil
  then show ?case by (cases n) (auto simp: cstr_simps safestrcpy_loop.simps [of _ _ _ "Suc _"] split: nat.split)
next
  case (Cons b bs)
  show ?case
  proof (cases "n = 1")
    case True
    then show ?thesis by (simp add: cstr_simps safestrcpy_loop.simps [of _ _ _ "Suc 0"])
  next
    case False
    then obtain k where n: "n = Suc (Suc k)" using Cons.prems(3) by (metis One_nat_def not0_implies_Suc neq0_conv)
    let ?m = "m(s := m t)"
    have "cstr ?m (t + 1) bs" using Cons.prems(1,2) by (subst cstr_upd) (auto simp: cstr_simps)
    moreover have "s + 1 + Suc k \<le> t + 1 \<or> t + 1 + length bs < s + 1" using Cons.prems(2) n by auto
    ultimately have ih: "cstr (safestrcpy_loop ?m (s + 1) (t + 1) (Suc k)) (s + 1) (take k bs)"
      "\<forall>q. q < s + 1 \<or> s + 1 + Suc k \<le> q \<longrightarrow> safestrcpy_loop ?m (s + 1) (t + 1) (Suc k) q = ?m q"
      using Cons.IH [of ?m "t + 1" "s + 1" "Suc k"] by (metis diff_Suc_1 zero_less_Suc)+
    have "safestrcpy_loop m s t n = safestrcpy_loop ?m (s + 1) (t + 1) (Suc k)"
      using Cons.prems(1) n by (subst safestrcpy_loop.simps) (simp add: cstr_simps)
    with ih show ?thesis
      using Cons.prems(1) n by (auto simp: cstr_simps)
  qed
qed

text \<open>\<open>safestrcpy\<close> always ends the string it makes: the destination, a buffer of \<open>n\<close> bytes apart from
  the source, holds the first \<open>n - 1\<close> bytes of the source string as a string, and no byte
  outside the buffer changes.\<close>

lemma safestrcpy_terminates:
  assumes "cstr m t bs" and "s + n \<le> t \<or> t + length bs < s" and "0 < n"
  shows "cstr (safestrcpy m s t n) s (take (n - 1) bs) \<and>
    (\<forall>q. q < s \<or> s + n \<le> q \<longrightarrow> safestrcpy m s t n q = m q)"
  using safestrcpy_loop_ok [OF assms] assms(3) by (simp add: safestrcpy_def)

lemma safestrcpy_terminates_witness:
  "let m = store (\<lambda>_. 7) 100 [1, 2, 3, 4, 0] in cstr (safestrcpy m 20 100 3) 20 [1, 2]"
proof -
  have "cstr (store (\<lambda>_. 7) 100 [1, 2, 3, 4, 0]) 100 [1, 2, 3, 4]"
    by (simp add: cstr_simps store_def)
  then show ?thesis
    using safestrcpy_terminates [of "store (\<lambda>_. 7) 100 [1, 2, 3, 4, 0]" 100 "[1, 2, 3, 4]" 20 3] by (simp add: Let_def)
qed

end
