(* ===== verification/User_Ulib.thy ===== *)
theory User_Ulib
  imports Kernel_String
begin

text \<open>
  The user library, \<^verbatim>\<open>xv6/user/ulib.c\<close>.  What \<open>read(0, &c, 1)\<close> delivers is the list of bytes
  still to come on standard input, empty at its end.  Characters are unsigned, as on RISC-V.
\<close>

section \<open>Strings\<close>

partial_function (option) strcpy :: "mem \<Rightarrow> nat \<Rightarrow> nat \<Rightarrow> mem option" where
  "strcpy m s t = (let m' = m(s := m t) in if m t \<noteq> 0 then strcpy m' (s + 1) (t + 1) else Some m')"

partial_function (option) strcmp :: "mem \<Rightarrow> nat \<Rightarrow> nat \<Rightarrow> int option" where
  "strcmp m p q = (if m p \<noteq> 0 \<and> m p = m q then strcmp m (p + 1) (q + 1) else Some (uint (m p) - uint (m q)))"

partial_function (option) strchr :: "mem \<Rightarrow> nat \<Rightarrow> byte \<Rightarrow> nat option option" where
  "strchr m s c = (if m s \<noteq> 0 then if m s = c then Some (Some s) else strchr m (s + 1) c else Some None)"

partial_function (option) atoi_loop :: "mem \<Rightarrow> nat \<Rightarrow> 32 word \<Rightarrow> (32 word) option" where
  "atoi_loop m s n =
    (if 48 \<le> m s \<and> m s \<le> 57 then atoi_loop m (s + 1) (n * 10 + ucast (m s) - 48) else Some n)"

definition atoi :: "mem \<Rightarrow> nat \<Rightarrow> int option" where
  "atoi m s = map_option sint (atoi_loop m s 0)"

section \<open>Memory\<close>

definition memmove :: "mem \<Rightarrow> nat \<Rightarrow> nat \<Rightarrow> nat \<Rightarrow> mem" where
  "memmove m dst src n =
    (if src > dst then copy_up m dst src n else copy_down m (dst + n) (src + n) n)"

definition memcpy :: "mem \<Rightarrow> nat \<Rightarrow> nat \<Rightarrow> nat \<Rightarrow> mem" where
  "memcpy m dst src n = memmove m dst src n"

section \<open>Reading a line\<close>

function gets_loop :: "mem \<Rightarrow> nat \<Rightarrow> nat \<Rightarrow> nat \<Rightarrow> byte list \<Rightarrow> mem \<times> nat \<times> byte list" where
  "gets_loop m buf i mx input =
    (if i + 1 < mx then
       (case input of [] \<Rightarrow> (m, i, input)
        | c # rest \<Rightarrow>
            let m' = m(buf + i := c) in
            if c = 10 \<or> c = 13 then (m', i + 1, rest) else gets_loop m' buf (i + 1) mx rest)
     else (m, i, input))"
  by pat_completeness auto
termination by (relation "measure (\<lambda>(m, buf, i, mx, input). mx - i)") auto

definition gets :: "mem \<Rightarrow> nat \<Rightarrow> nat \<Rightarrow> byte list \<Rightarrow> mem \<times> byte list" where
  "gets m buf mx input =
    (case gets_loop m buf 0 mx input of (m, i, input) \<Rightarrow> (m(buf + i := 0), input))"

section \<open>Correctness\<close>

declare gets_loop.simps [simp del]

text \<open>The \<open>memmove\<close> of the user library chooses its direction by another test than the kernel's, and does
  the same to memory, for every pair of blocks.\<close>

lemma memmove_eq_kernel: "User_Ulib.memmove m dst src n = Kernel_String.memmove m dst src n"
proof -
  have "Kernel_String.memmove m dst src n = store m dst (bytes_at m src n)"
    using copy_up_eq [of dst src n m] copy_down_eq [of src dst n m] by (auto simp: Kernel_String.memmove_def)
  then show ?thesis
    using copy_up_eq [of dst src n m] copy_down_eq [of src dst n m] by (simp add: User_Ulib.memmove_def)
qed

text \<open>The part of the input \<open>gets\<close> takes: up to and with the first end of line, at most \<open>k\<close> bytes.\<close>

fun line_of :: "nat \<Rightarrow> byte list \<Rightarrow> byte list" where
  "line_of 0 input = []"
| "line_of (Suc k) [] = []"
| "line_of (Suc k) (c # rest) = (if c = 10 \<or> c = 13 then [c] else c # line_of k rest)"

lemma length_line_of: "length (line_of k input) \<le> k"
  by (induction k input rule: line_of.induct) auto

lemma gets_loop_eq:
  "i < mx \<Longrightarrow> gets_loop m buf i mx input =
     (let l = line_of (mx - i - 1) input
      in (store m (buf + i) l, i + length l, drop (length l) input))"
proof (induction m buf i mx input rule: gets_loop.induct)
  case (1 m buf i mx input)
  show ?case
  proof (cases "i + 1 < mx")
    case False
    then have "mx - i - 1 = 0" by simp
    with False show ?thesis by (simp add: gets_loop.simps [of m buf i mx input])
  next
    case True
    then obtain k where k: "mx - i - 1 = Suc k" by (metis Suc_diff_Suc Suc_eq_plus1 diff_diff_left)
    show ?thesis
    proof (cases input)
      case Nil
      with True k show ?thesis by (subst gets_loop.simps) simp
    next
      case (Cons c rest)
      have k': "mx - (i + 1) - 1 = k" using k by simp
      show ?thesis
      proof (cases "c = 10 \<or> c = 13")
        case True
        with \<open>i + 1 < mx\<close> Cons k show ?thesis
          by (subst gets_loop.simps) (auto simp: Let_def store_Cons)
      next
        case False
        have "gets_loop m buf i mx input = gets_loop (m(buf + i := c)) buf (i + 1) mx rest"
          using False True Cons by (subst gets_loop.simps) (simp add: Let_def)
        also have "\<dots> = (let l = line_of k rest
            in (store (m(buf + i := c)) (buf + (i + 1)) l, i + 1 + length l, drop (length l) rest))"
          using "1.IH" [OF True Cons refl False True] by (simp only: k')
        finally show ?thesis using False Cons k by (simp add: Let_def store_Cons)
      qed
    qed
  qed
qed

text \<open>C40: \<open>gets(buf, max)\<close> takes from the input a line, up to and with its end, or \<open>max - 1\<close> bytes if the line is
  longer, or what is left at the end of the input; it stores them in \<open>buf\<close> with a zero byte
  after them, writes no other byte, and leaves the rest of the input.\<close>

theorem gets_reads_line:
  fixes input :: "byte list"
  assumes "0 < mx"
  defines "l \<equiv> line_of (mx - 1) input"
  shows "gets m buf mx input = (store m buf (l @ [0]), drop (length l) input) \<and> length l < mx"
proof -
  have "store m buf (l @ [0]) = (store m buf l)(buf + length l := 0)"
    by (auto simp: store_def fun_eq_iff nth_append)
  then show ?thesis
    using gets_loop_eq [OF assms(1), of m buf input] length_line_of [of "mx - 1" input] assms
    by (simp add: gets_def Let_def)
qed

theorem gets_reads_line_witness:
  "0 < (4 :: nat) \<and> gets (\<lambda>_. 1) 50 4 [97, 98, 10, 99] = (store (\<lambda>_. 1) 50 [97, 98, 10, 0], [99])"
proof -
  have "line_of 3 [97, 98, 10, 99] = [97, 98, 10]" by code_simp
  then show ?thesis using gets_reads_line [of 4 "\<lambda>_. 1" 50 "[97, 98, 10, 99]"] by simp
qed

end
