(* ===== verification/User_Grep.thy ===== *)
theory User_Grep
  imports Prelude
begin

text \<open>
  The search program \<^verbatim>\<open>xv6/user/grep.c\<close>: the matcher of regular expressions with
  \<^verbatim>\<open>^ . * $\<close>, and the loop that reads a file through a buffer of 1024 bytes and writes
  the lines that match.  \<open>read\<close> may return fewer bytes than asked for: \<open>cap i\<close> bounds the
  \<open>i\<close>th call, and a call returns at least one byte if there is one and room for it.
\<close>

section \<open>The matcher\<close>

function (sequential) matchhere :: "string \<Rightarrow> string \<Rightarrow> bool" and matchstar :: "char \<Rightarrow> string \<Rightarrow> string \<Rightarrow> bool" where
  "matchhere [] s = True"
| "matchhere (c # re) s =
    (if cur re = CHR ''*'' then matchstar c (drop 1 re) s
     else if c = CHR ''$'' \<and> re = [] then s = []
     else if s \<noteq> [] \<and> (c = CHR ''.'' \<or> c = cur s) then matchhere re (drop 1 s)
     else False)"
| "matchstar c re s =
    (if matchhere re s then True
     else if s \<noteq> [] \<and> (cur s = c \<or> c = CHR ''.'') then matchstar c re (drop 1 s)
     else False)"
  by pat_completeness auto
termination
  by (relation "measures [case_sum (\<lambda>(re, s). length re) (\<lambda>(c, re, s). length re),
        case_sum (\<lambda>(re, s). length s) (\<lambda>(c, re, s). length s),
        case_sum (\<lambda>_. 0) (\<lambda>_. 1)]") (auto simp: less_Suc_eq_le simp flip: length_greater_0_conv)

function match_loop :: "string \<Rightarrow> string \<Rightarrow> bool" where
  "match_loop re s =
    (if matchhere re s then True else if s \<noteq> [] then match_loop re (drop 1 s) else False)"
  by pat_completeness auto
termination by (relation "measure (\<lambda>(re, s). length s)") (auto simp flip: length_greater_0_conv)

definition match :: "string \<Rightarrow> string \<Rightarrow> bool" where
  "match re s = (if cur re = CHR ''^'' then matchhere (drop 1 re) s else match_loop re s)"

section \<open>The file loop\<close>

definition BUF :: nat where "BUF = 1024"

function grep_lines :: "string \<Rightarrow> string \<Rightarrow> string \<Rightarrow> string \<times> string" where
  "grep_lines pattern p out =
    (if LF \<in> set p then
       let line = takeWhile (\<lambda>c. c \<noteq> LF) p; rest = drop (length line + 1) p
       in grep_lines pattern rest (if match pattern line then out @ line @ [LF] else out)
     else (out, p))"
  by pat_completeness auto
termination
proof (relation "measure (\<lambda>(pattern, p, out). length p)", goal_cases)
  case (2 pattern p out line rest)
  then show ?case by (cases p) (auto simp: less_Suc_eq_le)
qed simp

function grep_loop :: "(nat \<Rightarrow> nat) \<Rightarrow> nat \<Rightarrow> string \<Rightarrow> string \<Rightarrow> string \<Rightarrow> string \<Rightarrow> string" where
  "grep_loop cap i pattern inp buf out =
    (let n = min (Suc (cap i)) (min (BUF - length buf - 1) (length inp))
     in if n > 0 then
          (case grep_lines pattern (buf @ take n inp) out of
             (out, rest) \<Rightarrow> grep_loop cap (i + 1) pattern (drop n inp) rest out)
        else out)"
  by pat_completeness auto
termination by (relation "measure (\<lambda>(cap, i, pattern, inp, buf, out). length inp)") auto

definition grep :: "(nat \<Rightarrow> nat) \<Rightarrow> string \<Rightarrow> string \<Rightarrow> string" where
  "grep cap pattern inp = grep_loop cap 0 pattern inp [] []"

section \<open>Reference\<close>

text \<open>
  A pattern is a sequence of items, a character (a dot stands for any) that occurs once or any
  number of times, with an anchor at its end or none.
\<close>

fun parse_re :: "string \<Rightarrow> (char \<times> bool) list \<times> bool" where
  "parse_re [] = ([], False)"
| "parse_re (c # re) =
    (if cur re = CHR ''*'' then (case parse_re (drop 1 re) of (is, e) \<Rightarrow> ((c, True) # is, e))
     else if c = CHR ''$'' \<and> re = [] then ([], True)
     else (case parse_re re of (is, e) \<Rightarrow> ((c, False) # is, e)))"

definition fits :: "char \<Rightarrow> char \<Rightarrow> bool" where
  "fits c x \<longleftrightarrow> c = CHR ''.'' \<or> x = c"

fun lang :: "(char \<times> bool) list \<Rightarrow> string set" where
  "lang [] = {[]}"
| "lang ((c, False) # is) = {x # w |x w. fits c x \<and> w \<in> lang is}"
| "lang ((c, True) # is) = {u @ w |u w. (\<forall>x \<in> set u. fits c x) \<and> w \<in> lang is}"

definition begins :: "(char \<times> bool) list \<times> bool \<Rightarrow> string \<Rightarrow> bool" where
  "begins r s \<longleftrightarrow> (\<exists>u v. s = u @ v \<and> u \<in> lang (fst r) \<and> (snd r \<longrightarrow> v = []))"

declare matchhere.simps [simp del] matchstar.simps [simp del] match_loop.simps [simp del]
  grep_lines.simps [simp del] grep_loop.simps [simp del]

lemma begins_Nil: "begins ([], e) s \<longleftrightarrow> (e \<longrightarrow> s = [])"
  by (auto simp: begins_def)

lemma begins_one: "begins ((c, False) # is, e) s \<longleftrightarrow> (\<exists>x t. s = x # t \<and> fits c x \<and> begins (is, e) t)"
proof
  assume "begins ((c, False) # is, e) s"
  then obtain y v where y: "s = y @ v" "y \<in> lang ((c, False) # is)" "e \<longrightarrow> v = []"
    unfolding begins_def fst_conv snd_conv by blast
  then obtain x u where u: "y = x # u" "fits c x" "u \<in> lang is" by auto
  with y(3) have "begins (is, e) (u @ v)" unfolding begins_def fst_conv snd_conv by blast
  with u y(1) show "\<exists>x t. s = x # t \<and> fits c x \<and> begins (is, e) t" by simp
next
  assume "\<exists>x t. s = x # t \<and> fits c x \<and> begins (is, e) t"
  then obtain x t where x: "s = x # t" "fits c x" "begins (is, e) t" by blast
  then obtain u v where u: "t = u @ v" "u \<in> lang is" "e \<longrightarrow> v = []"
    unfolding begins_def fst_conv snd_conv by blast
  then have "s = (x # u) @ v" "x # u \<in> lang ((c, False) # is)" using x by simp_all
  with u(3) show "begins ((c, False) # is, e) s" unfolding begins_def fst_conv snd_conv by blast
qed

lemma lang_star: "w \<in> lang ((c, True) # is) \<longleftrightarrow>
    w \<in> lang is \<or> (\<exists>x u. w = x # u \<and> fits c x \<and> u \<in> lang ((c, True) # is))"
proof
  assume "w \<in> lang ((c, True) # is)"
  then obtain u v where w: "w = u @ v" "\<forall>x \<in> set u. fits c x" "v \<in> lang is" by auto
  then show "w \<in> lang is \<or> (\<exists>x u. w = x # u \<and> fits c x \<and> u \<in> lang ((c, True) # is))"
    by (cases u) auto
next
  assume "w \<in> lang is \<or> (\<exists>x u. w = x # u \<and> fits c x \<and> u \<in> lang ((c, True) # is))"
  then show "w \<in> lang ((c, True) # is)"
  proof
    assume "w \<in> lang is"
    then show ?thesis by (simp, intro exI [of _ "[]"] exI [of _ w]) simp
  next
    assume "\<exists>x u. w = x # u \<and> fits c x \<and> u \<in> lang ((c, True) # is)"
    then obtain x u v where "w = x # u @ v" "fits c x" "\<forall>x \<in> set u. fits c x" "v \<in> lang is" by auto
    then show ?thesis by (simp, intro exI [of _ "x # u"] exI [of _ v]) simp
  qed
qed

lemma beginsE:
  assumes "begins (is, e) s"
  obtains u v where "s = u @ v" "u \<in> lang is" "e \<longrightarrow> v = []"
  using assms unfolding begins_def fst_conv snd_conv by blast

lemma beginsI: "u \<in> lang is \<Longrightarrow> (e \<longrightarrow> v = []) \<Longrightarrow> begins (is, e) (u @ v)"
  unfolding begins_def fst_conv snd_conv by blast

lemma begins_star: "begins ((c, True) # is, e) s \<longleftrightarrow>
    begins (is, e) s \<or> (\<exists>x t. s = x # t \<and> fits c x \<and> begins ((c, True) # is, e) t)"
proof
  assume "begins ((c, True) # is, e) s"
  then obtain w v where w: "s = w @ v" "w \<in> lang ((c, True) # is)" "e \<longrightarrow> v = []" by (rule beginsE)
  from w(2) consider "w \<in> lang is" | x u where "w = x # u" "fits c x" "u \<in> lang ((c, True) # is)"
    by (subst (asm) lang_star) blast
  then show "begins (is, e) s \<or> (\<exists>x t. s = x # t \<and> fits c x \<and> begins ((c, True) # is, e) t)"
  proof cases
    case 1
    then show ?thesis using w beginsI by blast
  next
    case 2
    then have "begins ((c, True) # is, e) (u @ v)" using w(3) by (intro beginsI)
    then show ?thesis using 2 w(1) by (metis append_Cons)
  qed
next
  assume "begins (is, e) s \<or> (\<exists>x t. s = x # t \<and> fits c x \<and> begins ((c, True) # is, e) t)"
  then show "begins ((c, True) # is, e) s"
  proof
    assume "begins (is, e) s"
    then obtain u v where u: "s = u @ v" "u \<in> lang is" "e \<longrightarrow> v = []" by (rule beginsE)
    then have "u \<in> lang ((c, True) # is)" by (subst lang_star) blast
    then show ?thesis using u beginsI by blast
  next
    assume "\<exists>x t. s = x # t \<and> fits c x \<and> begins ((c, True) # is, e) t"
    then obtain x t where x: "s = x # t" "fits c x" "begins ((c, True) # is, e) t" by blast
    then obtain u v where u: "t = u @ v" "u \<in> lang ((c, True) # is)" "e \<longrightarrow> v = []" by (elim beginsE)
    then have "x # u \<in> lang ((c, True) # is)" using x(2) by (subst lang_star) blast
    then show ?thesis using x(1) u beginsI [of "x # u" "(c, True) # is" e v] by simp
  qed
qed

lemma matchhere_begins:
  "matchhere re s \<longleftrightarrow> begins (parse_re re) s"
  "matchstar c re s \<longleftrightarrow> begins ((c, True) # fst (parse_re re), snd (parse_re re)) s"
proof (induction re s and c re s rule: matchhere_matchstar.induct)
  case (1 s)
  then show ?case by (simp add: matchhere.simps begins_Nil)
next
  case (2 c re s)
  then show ?case
    by (cases s) (auto simp: matchhere.simps begins_Nil begins_one fits_def split: prod.split)
next
  case (3 c re s)
  then show ?case
    by (subst matchstar.simps, subst begins_star) (cases s, auto simp: fits_def)
qed

lemma match_loop_suffix: "match_loop re s \<longleftrightarrow> (\<exists>a t. s = a @ t \<and> matchhere re t)"
proof (induction re s rule: match_loop.induct)
  case (1 re s)
  show ?case
  proof (cases s)
    case Nil
    then show ?thesis by (subst match_loop.simps) simp
  next
    case (Cons x t)
    then have "match_loop re s \<longleftrightarrow> matchhere re s \<or> match_loop re t" by (subst match_loop.simps) simp
    also have "\<dots> \<longleftrightarrow> matchhere re s \<or> (\<exists>a u. t = a @ u \<and> matchhere re u)" using 1 Cons by auto
    also have "\<dots> \<longleftrightarrow> (\<exists>a u. s = a @ u \<and> matchhere re u)" unfolding Cons by (metis append_Cons append_Nil append_eq_Cons_conv)
    finally show ?thesis .
  qed
qed

text \<open>C13: The matcher finds a pattern in a line exactly if a part of the line is in the language of the pattern:
  the part starts the line if the pattern begins with \<^verbatim>\<open>^\<close>, and ends it if the pattern ends with
  \<^verbatim>\<open>$\<close>.\<close>

theorem match_iff_lang:
  "match re s \<longleftrightarrow>
    (let (items, to_end) = parse_re (if cur re = CHR ''^'' then drop 1 re else re)
     in \<exists>a u v. s = a @ u @ v \<and> u \<in> lang items \<and> (cur re = CHR ''^'' \<longrightarrow> a = []) \<and> (to_end \<longrightarrow> v = []))"
  by (auto simp: match_def match_loop_suffix matchhere_begins begins_def Let_def split: prod.split)

theorem match_iff_lang_witness: "match ''a*b'' ''xaab''"
proof -
  have p: "parse_re ''a*b'' = ([(CHR ''a'', True), (CHR ''b'', False)], False)" by code_simp
  have "''aa'' @ ''b'' \<in> lang [(CHR ''a'', True), (CHR ''b'', False)]"
    unfolding lang.simps by (rule CollectI, intro exI conjI, rule refl) (simp_all add: fits_def)
  then have "\<exists>a u v. ''xaab'' = a @ u @ v \<and> u \<in> lang [(CHR ''a'', True), (CHR ''b'', False)]"
    by (intro exI [of _ "''x''"] exI [of _ "''aa'' @ ''b''"] exI [of _ "[]"] conjI) simp_all
  then show ?thesis using match_iff_lang [of "''a*b''" "''xaab''"] p by simp
qed

section \<open>The file loop\<close>

text \<open>The complete lines of a file, after a line begun with \<open>l\<close>, and what follows the last of them.\<close>

fun full_lines :: "string \<Rightarrow> string \<Rightarrow> string list" where
  "full_lines l [] = []"
| "full_lines l (c # s) = (if c = LF then l # full_lines [] s else full_lines (l @ [c]) s)"

fun rest_line :: "string \<Rightarrow> string \<Rightarrow> string" where
  "rest_line l [] = l"
| "rest_line l (c # s) = (if c = LF then rest_line [] s else rest_line (l @ [c]) s)"


definition hits :: "string \<Rightarrow> string list \<Rightarrow> string" where
  "hits pattern ls = concat (map (\<lambda>l. if match pattern l then l @ [LF] else []) ls)"

lemma full_lines_append: "full_lines l (a @ b) = full_lines l a @ full_lines (rest_line l a) b"
  by (induction l a rule: full_lines.induct) auto

lemma rest_line_append: "rest_line l (a @ b) = rest_line (rest_line l a) b"
  by (induction l a rule: rest_line.induct) auto

lemma no_LF: "LF \<notin> set w \<Longrightarrow> full_lines l w = [] \<and> rest_line l w = l @ w"
  by (induction w arbitrary: l) auto



lemma takeWhile_LF:
  assumes "LF \<in> set p"
  defines "line \<equiv> takeWhile (\<lambda>c. c \<noteq> LF) p"
  shows "p = line @ LF # drop (length line + 1) p" and "LF \<notin> set line"
proof -
  have "p = line @ dropWhile (\<lambda>c. c \<noteq> LF) p" by (simp add: line_def)
  moreover obtain r where r: "dropWhile (\<lambda>c. c \<noteq> LF) p = LF # r"
    using assms(1) hd_dropWhile [of "\<lambda>c. c \<noteq> LF" p] by (cases "dropWhile (\<lambda>c. c \<noteq> LF) p") auto
  ultimately have p: "p = line @ LF # r" by simp
  then have "drop (length line + 1) p = r" by (subst p) simp
  with p show "p = line @ LF # drop (length line + 1) p" by simp
  show "LF \<notin> set line" by (auto simp: line_def dest: set_takeWhileD)
qed

lemma grep_lines_eq: "grep_lines pattern p out = (out @ hits pattern (full_lines [] p), rest_line [] p)"
proof (induction pattern p out rule: grep_lines.induct)
  case (1 pattern p out)
  show ?case
  proof (cases "LF \<in> set p")
    case False
    then show ?thesis using no_LF [of p "[]"] by (subst grep_lines.simps) (simp add: hits_def)
  next
    case True
    let ?line = "takeWhile (\<lambda>c. c \<noteq> LF) p" and ?rest = "drop (length (takeWhile (\<lambda>c. c \<noteq> LF) p) + 1) p"
    note p = takeWhile_LF [OF True]
    have "full_lines [] p = ?line # full_lines [] ?rest" "rest_line [] p = rest_line [] ?rest"
      using no_LF [OF p(2), of "[]"] by (subst p(1), simp add: full_lines_append rest_line_append)+
    then show ?thesis
      using "1.IH" [OF True refl refl] True
      by (subst grep_lines.simps) (simp add: Let_def hits_def)
  qed
qed




lemma grep_loop_long:
  "length buf + k = 1023 \<Longrightarrow> k \<le> length inp \<Longrightarrow> LF \<notin> set buf \<Longrightarrow> LF \<notin> set (take k inp) \<Longrightarrow>
   grep_loop cap i pattern inp buf out = out"
proof (induction cap i pattern inp buf out arbitrary: k rule: grep_loop.induct)
  case (1 cap i pattern inp buf out)
  define n where "n = min (Suc (cap i)) (min (BUF - length buf - 1) (length inp))"
  have room: "BUF - length buf - 1 = k" using "1.prems"(1) by (simp add: BUF_def)
  show ?case
  proof (cases "k = 0")
    case True
    then show ?thesis using room by (subst grep_loop.simps) simp
  next
    case False
    then have n: "n > 0" and le: "n \<le> k" using room "1.prems"(2) by (auto simp: n_def)
    have "set (take n inp) \<subseteq> set (take k inp)" using le by (rule set_take_subset_set_take)
    then have no: "LF \<notin> set (buf @ take n inp)" using "1.prems"(3,4) by auto
    have g: "grep_lines pattern (buf @ take n inp) out = (out, buf @ take n inp)"
      using no_LF [OF no, of "[]"] by (simp only: grep_lines_eq) (simp add: hits_def)
    have "take k inp = take n inp @ take (k - n) (drop n inp)"
      using le by (metis le_add_diff_inverse take_add)
    then have "LF \<notin> set (take (k - n) (drop n inp))" using "1.prems"(4) by auto
    then have "grep_loop cap (i + 1) pattern (drop n inp) (buf @ take n inp) out = out"
      using "1.IH" [OF n_def n g [symmetric], of "k - n"] "1.prems"(1,2) le no by simp
    then show ?thesis using n g by (subst grep_loop.simps, unfold Let_def, fold n_def) simp
  qed
qed

text \<open>C37: A line of 1023 characters or more fills the buffer, and \<open>grep\<close> stops there: it finds nothing in a file
  that begins with such a line, whatever follows.\<close>

theorem grep_stops_at_long_line:
  assumes "length l = 1023" and "LF \<notin> set l"
  shows "grep cap pattern (l @ inp) = []"
  using grep_loop_long [of "[]" 1023 "l @ inp" cap 0 pattern "[]"] assms by (simp add: grep_def)

theorem grep_stops_at_long_line_witness:
  "grep (\<lambda>_. 500) ''b'' (replicate 1023 CHR ''a'' @ [LF] @ ''b'' @ [LF]) = []"
proof (rule grep_stops_at_long_line)
  show "LF \<notin> set (replicate 1023 CHR ''a'')" by (simp only: set_replicate_conv_if) simp
qed (rule length_replicate)

end
