(* ===== verification/Kernel_Printk.thy ===== *)
theory Kernel_Printk
  imports Prelude "HOL-Library.Word"
begin

text \<open>
  Formatted output of the kernel, \<^verbatim>\<open>xv6/kernel/printk.c\<close>, as the string that reaches
  \<open>consputc\<close>.  An argument is what \<open>va_arg\<close> finds: a register or a string, null or not; a
  call that takes one that is not there, or writes past the 20 bytes of \<open>printint\<close>'s
  buffer, is \<open>None\<close>.
\<close>

section \<open>Numbers\<close>

definition digits :: string where "digits = ''0123456789abcdef''"

definition put :: "string \<Rightarrow> char \<Rightarrow> string option" where
  "put buf c = (if length buf < 20 then Some (buf @ [c]) else None)"

function digit_loop :: "string \<Rightarrow> nat \<Rightarrow> nat \<Rightarrow> string \<Rightarrow> string option" where
  "digit_loop ds base x buf =
    (if length buf < 20 then
       let buf = buf @ [at ds (x mod base)]; x = x div base
       in if x \<noteq> 0 then digit_loop ds base x buf else Some buf
     else None)"
  by pat_completeness auto
termination by (relation "measure (\<lambda>(ds, base, x, buf). 20 - length buf)") auto

definition printint :: "string \<Rightarrow> 64 word \<Rightarrow> nat \<Rightarrow> bool \<Rightarrow> string option" where
  "printint ds xx base sign =
    (let neg = sign \<and> sint xx < 0; x = (if neg then - xx else xx)
     in case digit_loop ds base (unat x) [] of None \<Rightarrow> None
        | Some buf \<Rightarrow> map_option rev (if neg then put buf (CHR ''-'') else Some buf))"

fun ptr_loop :: "string \<Rightarrow> nat \<Rightarrow> 64 word \<Rightarrow> string" where
  "ptr_loop ds 0 x = []"
| "ptr_loop ds (Suc n) x = at ds (unat (drop_bit 60 x)) # ptr_loop ds n (push_bit 4 x)"

definition printptr :: "string \<Rightarrow> 64 word \<Rightarrow> string" where
  "printptr ds x = ''0x'' @ ptr_loop ds 16 x"

section \<open>Formats\<close>

datatype arg = Num "64 word" | Str "string option"

fun arg_int :: "arg list \<Rightarrow> (64 word \<times> arg list) option" where
  "arg_int (Num w # as) = Some (scast (ucast w :: 32 word), as)"
| "arg_int _ = None"

fun arg_uint32 :: "arg list \<Rightarrow> (64 word \<times> arg list) option" where
  "arg_uint32 (Num w # as) = Some (ucast (ucast w :: 32 word), as)"
| "arg_uint32 _ = None"

fun arg_uint64 :: "arg list \<Rightarrow> (64 word \<times> arg list) option" where
  "arg_uint64 (Num w # as) = Some (w, as)"
| "arg_uint64 _ = None"

fun arg_str :: "arg list \<Rightarrow> (string \<times> arg list) option" where
  "arg_str (Str s # as) = Some (case s of None \<Rightarrow> ''(null)'' | Some s \<Rightarrow> s, as)"
| "arg_str _ = None"

text \<open>A number taken from the arguments and printed; \<open>k\<close> further characters of the format are used.\<close>

definition number :: "string \<Rightarrow> (64 word \<times> arg list) option \<Rightarrow> nat \<Rightarrow> bool \<Rightarrow> nat \<Rightarrow> (string \<times> nat \<times> arg list) option" where
  "number ds a base sign k =
    (case a of None \<Rightarrow> None | Some (x, as) \<Rightarrow> map_option (\<lambda>s. (s, k, as)) (printint ds x base sign))"

definition printk_item :: "string \<Rightarrow> char \<Rightarrow> char \<Rightarrow> char \<Rightarrow> arg list \<Rightarrow> (string \<times> nat \<times> arg list) option" where
  "printk_item ds c0 c1 c2 as =
    (if c0 = CHR ''d'' then number ds (arg_int as) 10 True 0
     else if c0 = CHR ''l'' \<and> c1 = CHR ''d'' then number ds (arg_uint64 as) 10 True 1
     else if c0 = CHR ''l'' \<and> c1 = CHR ''l'' \<and> c2 = CHR ''d'' then number ds (arg_uint64 as) 10 True 2
     else if c0 = CHR ''u'' then number ds (arg_uint32 as) 10 False 0
     else if c0 = CHR ''l'' \<and> c1 = CHR ''u'' then number ds (arg_uint64 as) 10 False 1
     else if c0 = CHR ''l'' \<and> c1 = CHR ''l'' \<and> c2 = CHR ''u'' then number ds (arg_uint64 as) 10 False 2
     else if c0 = CHR ''x'' then number ds (arg_uint32 as) 16 False 0
     else if c0 = CHR ''l'' \<and> c1 = CHR ''x'' then number ds (arg_uint64 as) 16 False 1
     else if c0 = CHR ''l'' \<and> c1 = CHR ''l'' \<and> c2 = CHR ''x'' then number ds (arg_uint64 as) 16 False 2
     else if c0 = CHR ''p'' then map_option (\<lambda>(x, as). (printptr ds x, 0, as)) (arg_uint64 as)
     else if c0 = CHR ''c'' then map_option (\<lambda>(x, as). ([char_of (unat x)], 0, as)) (arg_uint32 as)
     else if c0 = CHR ''s'' then map_option (\<lambda>(s, as). (s, 0, as)) (arg_str as)
     else if c0 = CHR ''%'' then Some (''%'', 0, as)
     else Some ([CHR ''%'', c0], 0, as))"

function printk_loop :: "string \<Rightarrow> string \<Rightarrow> arg list \<Rightarrow> string \<Rightarrow> string option" where
  "printk_loop ds [] as out = Some out"
| "printk_loop ds (cx # fmt) as out =
    (if cx \<noteq> CHR ''%'' then printk_loop ds fmt as (out @ [cx])
     else if fmt = [] then Some out
     else (case printk_item ds (at fmt 0) (at fmt 1) (at fmt 2) as of
             None \<Rightarrow> None
           | Some (s, k, as) \<Rightarrow> printk_loop ds (drop (1 + k) fmt) as (out @ s)))"
  by pat_completeness auto
termination by (relation "measure (\<lambda>(ds, fmt, as, out). length fmt)") auto

definition printk :: "string \<Rightarrow> arg list \<Rightarrow> string option" where
  "printk fmt as = printk_loop digits fmt as []"

section \<open>Correctness\<close>

declare digit_loop.simps [simp del]

text \<open>The digits of a number, the last first.\<close>

function rev_digits :: "nat \<Rightarrow> nat \<Rightarrow> nat list" where
  "rev_digits base x = (if 2 \<le> base \<and> base \<le> x then x mod base # rev_digits base (x div base) else [x])"
  by pat_completeness auto
termination by (relation "measure (\<lambda>(base, x). x)") auto

declare rev_digits.simps [simp del]

lemma rev_digits_value:
  assumes "2 \<le> base"
  shows "foldr (\<lambda>d a. a * base + d) (rev_digits base x) 0 = x"
proof (induction base x rule: rev_digits.induct)
  case (1 base x)
  then show ?case by (subst rev_digits.simps) simp
qed

lemma rev_digits_ok:
  assumes "2 \<le> base"
  shows "(\<forall>d \<in> set (rev_digits base x). d < base) \<and> rev_digits base x \<noteq> [] \<and>
    (last (rev_digits base x) = 0 \<longrightarrow> rev_digits base x = [0])"
  using assms
proof (induction base x rule: rev_digits.induct)
  case (1 base x)
  show ?case
  proof (cases "base \<le> x")
    case True
    then have "x div base \<noteq> 0" using 1 by (simp add: div_eq_0_iff)
    then have "last (rev_digits base (x div base)) \<noteq> 0"
      using 1 True rev_digits_value [of base "x div base"] by (metis foldr_Cons foldr_Nil id_apply mult_0 add_0 o_apply)
    then show ?thesis using 1 True by (subst (1 2 3 4) rev_digits.simps) simp
  next
    case False
    then show ?thesis by (subst (1 2 3 4) rev_digits.simps) simp
  qed
qed

lemma rev_digits_bound: "2 \<le> base \<Longrightarrow> x < base ^ Suc k \<Longrightarrow> length (rev_digits base x) \<le> Suc k"
proof (induction k arbitrary: x)
  case 0
  then show ?case by (subst rev_digits.simps) simp
next
  case (Suc k)
  have "x div base < base ^ Suc k" using Suc.prems by (simp add: less_mult_imp_div_less mult.commute)
  then show ?case using Suc.IH [OF Suc.prems(1), of "x div base"] by (subst rev_digits.simps) simp
qed

lemma digit_loop_eq:
  "2 \<le> base \<Longrightarrow> length buf + length (rev_digits base x) \<le> 20 \<Longrightarrow>
   digit_loop ds base x buf = Some (buf @ map (at ds) (rev_digits base x))"
proof (induction base x arbitrary: buf rule: rev_digits.induct)
  case (1 base x)
  show ?case
  proof (cases "base \<le> x")
    case True
    have r: "rev_digits base x = x mod base # rev_digits base (x div base)"
      using True "1.prems"(1) by (subst rev_digits.simps) simp
    have "x div base \<noteq> 0" using True "1.prems"(1) by (simp add: div_eq_0_iff)
    then show ?thesis
      using "1.IH" [of "buf @ [at ds (x mod base)]"] "1.prems" True r
      by (subst digit_loop.simps) (simp add: Let_def)
  next
    case False
    then have r: "rev_digits base x = [x]" by (subst rev_digits.simps) simp
    with False "1.prems" show ?thesis by (subst digit_loop.simps) (simp add: Let_def)
  qed
qed

text \<open>The magnitude \<open>printint\<close> works on.\<close>

lemma magnitude:
  fixes xx :: "64 word"
  shows "unat (if sint xx < 0 then - xx else xx) = nat \<bar>sint xx\<bar>" "nat \<bar>sint xx\<bar> \<le> 2 ^ 63"
proof -
  have b: "- (2 ^ 63) \<le> sint xx" "sint xx < 2 ^ 63"
    using sint_greater_eq [of xx] sint_less [of xx] by simp_all
  have "xx = word_of_int (sint xx)" by simp
  then have "- xx = word_of_int (- sint xx)" by (metis wi_hom_neg)
  moreover have "xx = word_of_int (sint xx)" by simp
  ultimately have "(if sint xx < 0 then - xx else xx) = word_of_int \<bar>sint xx\<bar>"
    by (simp split: if_splits)
  moreover have "uint (word_of_int \<bar>sint xx\<bar> :: 64 word) = \<bar>sint xx\<bar>"
    using b by (simp add: uint_word_of_int)
  ultimately show "unat (if sint xx < 0 then - xx else xx) = nat \<bar>sint xx\<bar>"
    by (simp only: unat_eq_nat_uint)
  show "nat \<bar>sint xx\<bar> \<le> 2 ^ 63" using b by (simp add: nat_le_iff abs_le_iff)
qed

lemma printint_rev_digits:
  fixes xx :: "64 word" and sign :: bool
  assumes "base = 10 \<or> base = 16"
  defines "v \<equiv> (if sign then sint xx else uint xx)"
  shows "printint ds xx base sign =
    Some ((if v < 0 then ''-'' else []) @ map (at ds) (rev (rev_digits base (nat \<bar>v\<bar>))))"
proof -
  define x where "x = (if sign \<and> sint xx < 0 then - xx else xx)"
  have x: "unat x = nat \<bar>v\<bar>"
    using magnitude(1) [of xx] unfolding x_def v_def by (auto split: if_splits)
  have len: "length (rev_digits base (unat x)) \<le> (if v < 0 then 19 else 20)"
  proof (cases "v < 0")
    case True
    then have "sign" using uint_ge_0 [of xx] unfolding v_def by (auto split: if_splits)
    then have "unat x \<le> 2 ^ 63" using magnitude(2) [of xx] x unfolding v_def by simp
    then have "unat x < base ^ Suc 18" using assms(1) by auto
    then show ?thesis using rev_digits_bound [of base "unat x" 18] assms(1) True by auto
  next
    case False
    have "unat x < 2 ^ 64" using unsigned_less [of x, where 'a = nat] by simp
    then have "unat x < base ^ Suc 19" using assms(1) by auto
    then show ?thesis using rev_digits_bound [of base "unat x" 19] assms(1) False by auto
  qed
  moreover have "sign \<and> sint xx < 0 \<longleftrightarrow> v < 0" unfolding v_def by auto
  ultimately show ?thesis
    using digit_loop_eq [of base "[]" "unat x" ds] assms(1) x
    unfolding printint_def Let_def put_def by (auto simp: x_def rev_map split: if_splits)
qed

text \<open>C35: \<open>printint\<close> never overruns its buffer of 20 characters, for every 64-bit value, signed and unsigned, in
  base 10 and 16; what it prints is the sign, if negative, and the digits of the value without
  leading zeros.\<close>

theorem printint_prints:
  fixes xx :: "64 word" and sign :: bool
  assumes "base = 10 \<or> base = 16"
  defines "v \<equiv> (if sign then sint xx else uint xx)"
  shows "\<exists>ns. printint ds xx base sign = Some ((if v < 0 then ''-'' else []) @ map (at ds) ns) \<and>
    foldl (\<lambda>a d. a * base + d) 0 ns = nat \<bar>v\<bar> \<and> (\<forall>d \<in> set ns. d < base) \<and> ns \<noteq> [] \<and> (hd ns = 0 \<longrightarrow> ns = [0])"
proof (intro exI conjI)
  have b: "2 \<le> base" using assms(1) by auto
  show "printint ds xx base sign = Some ((if v < 0 then ''-'' else []) @ map (at ds) (rev (rev_digits base (nat \<bar>v\<bar>))))"
    unfolding v_def by (rule printint_rev_digits [OF assms(1)])
  show "foldl (\<lambda>a d. a * base + d) 0 (rev (rev_digits base (nat \<bar>v\<bar>))) = nat \<bar>v\<bar>"
    using rev_digits_value [OF b] by (simp add: foldl_conv_foldr)
  show "\<forall>d \<in> set (rev (rev_digits base (nat \<bar>v\<bar>))). d < base" "rev (rev_digits base (nat \<bar>v\<bar>)) \<noteq> []"
    "hd (rev (rev_digits base (nat \<bar>v\<bar>))) = 0 \<longrightarrow> rev (rev_digits base (nat \<bar>v\<bar>)) = [0]"
    using rev_digits_ok [OF b, of "nat \<bar>v\<bar>"] by (auto simp: hd_rev)
qed

theorem printint_prints_witness:
  "\<exists>ns. printint digits (- 42) 10 True = Some (''-'' @ map (at digits) ns) \<and> foldl (\<lambda>a d. a * 10 + d) 0 ns = 42"
proof -
  have "(10 :: nat) = 10 \<or> (10 :: nat) = 16" by simp
  from printint_prints [OF this, of digits "- 42" True]
  have "\<exists>ns. printint digits (- 42) 10 True = Some (''-'' @ map (at digits) ns) \<and>
    foldl (\<lambda>a d. a * 10 + d) 0 ns = nat 42" by simp blast
  then show ?thesis by simp
qed

end
