(* ===== verification/User_Printf.thy ===== *)
theory User_Printf
  imports Kernel_Printk
begin

text \<open>
  Formatted output of user programs, \<^verbatim>\<open>xv6/user/printf.c\<close>, as the list of the writes of one
  character to a descriptor.  Arguments are taken as in the kernel's \<open>printk\<close>, with which it is compared.
\<close>

section \<open>Numbers\<close>

definition digits :: string where "digits = ''0123456789ABCDEF''"

definition putc :: "nat \<Rightarrow> char \<Rightarrow> (nat \<times> char) list" where "putc fd c = [(fd, c)]"

fun put_back :: "nat \<Rightarrow> string \<Rightarrow> (nat \<times> char) list" where
  "put_back fd [] = []"
| "put_back fd (c # buf) = put_back fd buf @ putc fd c"

definition printint :: "nat \<Rightarrow> 64 word \<Rightarrow> nat \<Rightarrow> bool \<Rightarrow> (nat \<times> char) list option" where
  "printint fd xx base sg =
    (let (neg, x) = (if sg \<and> sint xx < 0 then (True, - xx) else (False, xx))
     in case digit_loop digits base (unat x) [] of None \<Rightarrow> None
        | Some buf \<Rightarrow> map_option (put_back fd) (if neg then put buf (CHR ''-'') else Some buf))"

fun ptr_loop :: "nat \<Rightarrow> nat \<Rightarrow> 64 word \<Rightarrow> (nat \<times> char) list" where
  "ptr_loop fd 0 x = []"
| "ptr_loop fd (Suc n) x = putc fd (at digits (unat (drop_bit 60 x))) @ ptr_loop fd n (push_bit 4 x)"

definition printptr :: "nat \<Rightarrow> 64 word \<Rightarrow> (nat \<times> char) list" where
  "printptr fd x = putc fd (CHR ''0'') @ putc fd (CHR ''x'') @ ptr_loop fd 16 x"

section \<open>Formats\<close>

fun puts :: "nat \<Rightarrow> string \<Rightarrow> (nat \<times> char) list" where
  "puts fd [] = []"
| "puts fd (c # s) = putc fd c @ puts fd s"

definition number :: "nat \<Rightarrow> (64 word \<times> arg list) option \<Rightarrow> nat \<Rightarrow> bool \<Rightarrow> nat \<Rightarrow>
    ((nat \<times> char) list \<times> nat \<times> arg list) option" where
  "number fd a base sg k =
    (case a of None \<Rightarrow> None | Some (x, as) \<Rightarrow> map_option (\<lambda>s. (s, k, as)) (printint fd x base sg))"

definition vprintf_item :: "nat \<Rightarrow> char \<Rightarrow> char \<Rightarrow> char \<Rightarrow> arg list \<Rightarrow> ((nat \<times> char) list \<times> nat \<times> arg list) option" where
  "vprintf_item fd c0 c1 c2 as =
    (if c0 = CHR ''d'' then number fd (arg_int as) 10 True 0
     else if c0 = CHR ''l'' \<and> c1 = CHR ''d'' then number fd (arg_uint64 as) 10 True 1
     else if c0 = CHR ''l'' \<and> c1 = CHR ''l'' \<and> c2 = CHR ''d'' then number fd (arg_uint64 as) 10 True 2
     else if c0 = CHR ''u'' then number fd (arg_uint32 as) 10 False 0
     else if c0 = CHR ''l'' \<and> c1 = CHR ''u'' then number fd (arg_uint64 as) 10 False 1
     else if c0 = CHR ''l'' \<and> c1 = CHR ''l'' \<and> c2 = CHR ''u'' then number fd (arg_uint64 as) 10 False 2
     else if c0 = CHR ''x'' then number fd (arg_uint32 as) 16 False 0
     else if c0 = CHR ''l'' \<and> c1 = CHR ''x'' then number fd (arg_uint64 as) 16 False 1
     else if c0 = CHR ''l'' \<and> c1 = CHR ''l'' \<and> c2 = CHR ''x'' then number fd (arg_uint64 as) 16 False 2
     else if c0 = CHR ''p'' then map_option (\<lambda>(x, as). (printptr fd x, 0, as)) (arg_uint64 as)
     else if c0 = CHR ''c'' then map_option (\<lambda>(x, as). (putc fd (char_of (unat x)), 0, as)) (arg_uint32 as)
     else if c0 = CHR ''s'' then map_option (\<lambda>(s, as). (puts fd s, 0, as)) (arg_str as)
     else if c0 = CHR ''%'' then Some (putc fd (CHR ''%''), 0, as)
     else Some (putc fd (CHR ''%'') @ putc fd c0, 0, as))"

text \<open>The loop over the format; \<open>percent\<close> is the state \<open>'%'\<close>.\<close>

function vprintf_loop :: "nat \<Rightarrow> bool \<Rightarrow> string \<Rightarrow> arg list \<Rightarrow> (nat \<times> char) list \<Rightarrow> (nat \<times> char) list option" where
  "vprintf_loop fd percent [] as out = Some out"
| "vprintf_loop fd percent (c0 # fmt) as out =
    (if \<not> percent then
       (if c0 = CHR ''%'' then vprintf_loop fd True fmt as out
        else vprintf_loop fd False fmt as (out @ putc fd c0))
     else (case vprintf_item fd c0 (at fmt 0) (at fmt 1) as of
             None \<Rightarrow> None
           | Some (ws, k, as) \<Rightarrow> vprintf_loop fd False (drop k fmt) as (out @ ws)))"
  by pat_completeness auto
termination by (relation "measure (\<lambda>(fd, percent, fmt, as, out). length fmt)") auto

definition vprintf :: "nat \<Rightarrow> string \<Rightarrow> arg list \<Rightarrow> (nat \<times> char) list option" where
  "vprintf fd fmt as = vprintf_loop fd False fmt as []"


definition printf :: "string \<Rightarrow> arg list \<Rightarrow> (nat \<times> char) list option" where
  "printf fmt as = vprintf 1 fmt as"

section \<open>Correctness\<close>









end
