(* ===== verification/Kernel_Console.thy ===== *)
theory Kernel_Console
  imports Kernel_Blocking Kernel_Example C_Memory Ring_Buffer
begin

text \<open>
  The console and its serial line, \<^verbatim>\<open>xv6/kernel/console.c\<close> and \<^verbatim>\<open>xv6/kernel/uart.c\<close>: line editing on
  interrupts, reads of a line, and writes that wait for the line to be free.  The state is a part of the field \<open>world\<close>; what
  the transmit register receives is the list \<open>sent\<close>.  The device side is given by parameters: whether the transmitter is idle
  and which characters have arrived.  The two spin loops on a device register (\<open>uartputc_sync\<close>) end as the device becomes idle;
  \<open>copyin\<close> and \<open>copyout\<close> work on the extension of the record, which holds user memory.
\<close>

section \<open>State\<close>

definition INPUT_BUF_SIZE :: nat where "INPUT_BUF_SIZE = 128"

record console =
  cons_buf :: "byte list"
  cons_r :: "32 word"
  cons_w :: "32 word"
  cons_e :: "32 word"

record console_world =
  cons :: console
  tx_busy :: int
  sent :: "byte list"

type_synonym 'a ckernel = "'a console_world_scheme kernel"

definition cons_of :: "'a ckernel \<Rightarrow> console" where
  "cons_of s = cons (world s)"

definition set_cons :: "console \<Rightarrow> 'a ckernel \<Rightarrow> 'a ckernel" where
  "set_cons c s = s\<lparr>world := (world s)\<lparr>cons := c\<rparr>\<rparr>"

definition set_busy :: "int \<Rightarrow> 'a ckernel \<Rightarrow> 'a ckernel" where
  "set_busy b s = s\<lparr>world := (world s)\<lparr>tx_busy := b\<rparr>\<rparr>"

definition write_thr :: "byte \<Rightarrow> 'a ckernel \<Rightarrow> 'a ckernel" where
  "write_thr b s = s\<lparr>world := (world s)\<lparr>sent := sent (world s) @ [b]\<rparr>\<rparr>"

definition user_memory :: "'a ckernel \<Rightarrow> 'a" where
  "user_memory s = console_world.more (world s)"

definition set_user_memory :: "'a \<Rightarrow> 'a ckernel \<Rightarrow> 'a ckernel" where
  "set_user_memory m s = s\<lparr>world := console_world.more_update (\<lambda>_. m) (world s)\<rparr>"

section \<open>The serial line\<close>

definition uartputc_sync :: "byte \<Rightarrow> 'a ckernel \<Rightarrow> 'a ckernel res" where
  "uartputc_sync b s = seq (pop_off (push_off (cpu s))) (\<lambda>c. Inr ((write_thr b s)\<lparr>cpu := c\<rparr>))"

function uartwrite_loop :: "byte list \<Rightarrow> int \<Rightarrow> int \<Rightarrow> 'a ckernel \<Rightarrow> ((int, unit) outcome \<times> 'a ckernel) res" where
  "uartwrite_loop buf n i s =
    (if i < n then
       (if tx_busy (world s) \<noteq> 0 then seq (sleep TxChan TxLock s) (\<lambda>s. Inr (Slept i, s))
        else uartwrite_loop buf n (i + 1) (set_busy 1 (write_thr (buf ! nat i) s)))
     else seq (rel TxLock s) (\<lambda>s. Inr (Returned (), s)))"
  by pat_completeness auto
termination by (relation "measure (\<lambda>(buf, n, i, s). nat (n - i))") auto

definition uartwrite :: "byte list \<Rightarrow> int \<Rightarrow> 'a ckernel \<Rightarrow> ((int, unit) outcome \<times> 'a ckernel) res" where
  "uartwrite buf n s = seq (acq TxLock s) (uartwrite_loop buf n 0)"

section \<open>The console\<close>

definition BACKSPACE :: int where "BACKSPACE = 0x100"

definition ctrl :: "int \<Rightarrow> int" where "ctrl x = x - 64"

definition consputc :: "int \<Rightarrow> 'a ckernel \<Rightarrow> 'a ckernel res" where
  "consputc c s =
    (if c = BACKSPACE then
       seq (uartputc_sync 8 s) (\<lambda>s. seq (uartputc_sync 32 s) (uartputc_sync 8))
     else uartputc_sync (of_int c) s)"

function kill_line :: "console \<Rightarrow> 'a ckernel \<Rightarrow> (console \<times> 'a ckernel) res" where
  "kill_line x s =
    (if cons_e x \<noteq> cons_w x \<and> cons_buf x ! (unat (cons_e x - 1) mod INPUT_BUF_SIZE) \<noteq> 10 then
       seq (consputc BACKSPACE s) (kill_line (x\<lparr>cons_e := cons_e x - 1\<rparr>))
     else Inr (x, s))"
  by pat_completeness auto
termination
proof (relation "measure (\<lambda>(x, s). unat (cons_e x - cons_w x))")
  fix x :: console and s t :: "'a ckernel"
  assume "cons_e x \<noteq> cons_w x \<and> cons_buf x ! (unat (cons_e x - 1) mod INPUT_BUF_SIZE) \<noteq> 10"
  then have "cons_e x - cons_w x \<noteq> 0" by simp
  then have "unat (cons_e x - cons_w x - 1) < unat (cons_e x - cons_w x)"
    by (simp add: unat_minus_one unat_gt_0)
  then show "((x\<lparr>cons_e := cons_e x - 1\<rparr>, t), x, s) \<in> measure (\<lambda>(x, s). unat (cons_e x - cons_w x))"
    by (simp add: algebra_simps)
qed simp

definition consoleintr_switch :: "int \<Rightarrow> 'a ckernel \<Rightarrow> 'a ckernel res" where
  "consoleintr_switch c s =
    (if c = ctrl 80 then Inr (procdump s)
     else if c = ctrl 85 then seq (kill_line (cons_of s) s) (\<lambda>(x, s). Inr (set_cons x s))
     else if c = ctrl 72 \<or> c = 0x7f then
       (if cons_e (cons_of s) \<noteq> cons_w (cons_of s) then
          consputc BACKSPACE (set_cons ((cons_of s)\<lparr>cons_e := cons_e (cons_of s) - 1\<rparr>) s)
        else Inr s)
     else if c \<noteq> 0 \<and> cons_e (cons_of s) - cons_r (cons_of s) < of_nat INPUT_BUF_SIZE then
       let c = (if c = 13 then 10 else c) in
       seq (consputc c s) (\<lambda>s.
         let x = cons_of s;
             x = x\<lparr>cons_buf := (cons_buf x)[unat (cons_e x) mod INPUT_BUF_SIZE := of_int c], cons_e := cons_e x + 1\<rparr>
         in if c = 10 \<or> c = ctrl 68 \<or> cons_e x - cons_r x = of_nat INPUT_BUF_SIZE
            then wakeup ConsChan (set_cons (x\<lparr>cons_w := cons_e x\<rparr>) s)
            else Inr (set_cons x s))
     else Inr s)"

definition consoleintr :: "int \<Rightarrow> 'a ckernel \<Rightarrow> 'a ckernel res" where
  "consoleintr c s = seq (acq ConsLock s) (\<lambda>s. seq (consoleintr_switch c s) (rel ConsLock))"

definition consoleread_end :: "int \<Rightarrow> int \<Rightarrow> 'a ckernel \<Rightarrow> ((64 word \<times> int, int) outcome \<times> 'a ckernel) res" where
  "consoleread_end target n s = seq (rel ConsLock s) (\<lambda>s. Inr (Returned (target - n), s))"

function consoleread_loop :: "(64 word \<Rightarrow> byte \<Rightarrow> 'a \<Rightarrow> bool \<times> 'a) \<Rightarrow> nat \<Rightarrow> int \<Rightarrow> 64 word \<Rightarrow> int \<Rightarrow> 'a ckernel \<Rightarrow>
    ((64 word \<times> int, int) outcome \<times> 'a ckernel) res" where
  "consoleread_loop copyout p target dst n s =
    (if n > 0 then
       (let x = cons_of s in
        if cons_r x = cons_w x then
          seq (killed p s) (\<lambda>(k, s).
            if k \<noteq> 0 then seq (rel ConsLock s) (\<lambda>s. Inr (Returned (-1), s))
            else seq (sleep ConsChan ConsLock s) (\<lambda>s. Inr (Slept (dst, n), s)))
        else
          let c = cons_buf x ! (unat (cons_r x) mod INPUT_BUF_SIZE); x' = x\<lparr>cons_r := cons_r x + 1\<rparr> in
          if uint c = ctrl 68 then
            consoleread_end target n (set_cons (if n < target then x'\<lparr>cons_r := cons_r x' - 1\<rparr> else x') s)
          else (case copyout dst c (user_memory s) of
              (False, m) \<Rightarrow> consoleread_end target n (set_cons x' (set_user_memory m s))
            | (True, m) \<Rightarrow>
                (if c = 10 then consoleread_end target (n - 1) (set_cons x' (set_user_memory m s))
                 else consoleread_loop copyout p target (dst + 1) (n - 1) (set_cons x' (set_user_memory m s)))))
     else consoleread_end target n s)"
  by pat_completeness auto
termination by (relation "measure (\<lambda>(copyout, p, target, dst, n, s). nat n)") auto


text \<open>\<open>consolewrite\<close>; asleep in \<open>uartwrite\<close> it keeps its index, the batch and the index in the batch.\<close>

function consolewrite_loop :: "(64 word \<Rightarrow> int \<Rightarrow> 'a \<Rightarrow> byte list option \<times> 'a) \<Rightarrow> 64 word \<Rightarrow> int \<Rightarrow> int \<Rightarrow> 'a ckernel \<Rightarrow>
    ((int \<times> byte list \<times> int \<times> int, int) outcome \<times> 'a ckernel) res" where
  "consolewrite_loop copyin src n i s =
    (if i < n then
       (let nn = (if 32 > n - i then n - i else 32) in
        case copyin (src + of_int i) nn (user_memory s) of
          (None, m) \<Rightarrow> Inr (Returned i, set_user_memory m s)
        | (Some buf, m) \<Rightarrow>
            seq (uartwrite buf nn (set_user_memory m s)) (\<lambda>(r, s).
              case r of Slept k \<Rightarrow> Inr (Slept (i, buf, nn, k), s)
              | Returned _ \<Rightarrow> consolewrite_loop copyin src n (i + nn) s))
     else Inr (Returned i, s))"
  by pat_completeness auto
termination by (relation "measure (\<lambda>(copyin, src, n, i, s). nat (n - i))") auto

definition consolewrite :: "(64 word \<Rightarrow> int \<Rightarrow> 'a \<Rightarrow> byte list option \<times> 'a) \<Rightarrow> 64 word \<Rightarrow> int \<Rightarrow> 'a ckernel \<Rightarrow>
    ((int \<times> byte list \<times> int \<times> int, int) outcome \<times> 'a ckernel) res" where
  "consolewrite copyin src n s = consolewrite_loop copyin src n 0 s"

text \<open>The rest of \<open>consolewrite\<close>, when \<open>uartwrite\<close> has been woken and has its lock again.\<close>

definition consolewrite_resume :: "(64 word \<Rightarrow> int \<Rightarrow> 'a \<Rightarrow> byte list option \<times> 'a) \<Rightarrow> 64 word \<Rightarrow> int \<Rightarrow>
    int \<times> byte list \<times> int \<times> int \<Rightarrow> 'a ckernel \<Rightarrow> ((int \<times> byte list \<times> int \<times> int, int) outcome \<times> 'a ckernel) res" where
  "consolewrite_resume copyin src n k s =
    (case k of (i, buf, nn, j) \<Rightarrow>
       seq (uartwrite_loop buf nn j s) (\<lambda>(r, s).
         case r of Slept j \<Rightarrow> Inr (Slept (i, buf, nn, j), s)
         | Returned _ \<Rightarrow> consolewrite_loop copyin src n (i + nn) s))"

section \<open>Interrupts of the serial line\<close>

fun uartgetc :: "byte list \<Rightarrow> int \<times> byte list" where
  "uartgetc [] = (-1, [])"
| "uartgetc (b # rx) = (uint b, rx)"

lemma uartgetc_shorter: "(c, rx') = uartgetc rx \<Longrightarrow> c \<noteq> -1 \<Longrightarrow> length rx' < length rx"
  by (cases rx) auto

function uartintr_loop :: "byte list \<Rightarrow> 'a ckernel \<Rightarrow> 'a ckernel res" where
  "uartintr_loop rx s =
    (case uartgetc rx of (c, rx) \<Rightarrow> if c = -1 then Inr s else seq (consoleintr c s) (uartintr_loop rx))"
  by pat_completeness auto
termination by (relation "measure (\<lambda>(rx, s). length rx)") (auto simp: uartgetc_shorter)

definition uartintr :: "bool \<Rightarrow> byte list \<Rightarrow> 'a ckernel \<Rightarrow> 'a ckernel res" where
  "uartintr idle rx s =
    seq (acq TxLock s) (\<lambda>s.
    seq (if idle then wakeup TxChan (set_busy 0 s) else Inr s) (\<lambda>s.
    seq (rel TxLock s) (uartintr_loop rx)))"

section \<open>The line discipline\<close>

text \<open>The two windows of the ring: bytes of complete lines, and the line that is being typed.\<close>

definition ready_in :: "console \<Rightarrow> byte list" where
  "ready_in x = ring_seg (cons_buf x) (cons_r x) (unat (cons_w x - cons_r x))"

definition pending_in :: "console \<Rightarrow> byte list" where
  "pending_in x = ring_seg (cons_buf x) (cons_w x) (unat (cons_e x - cons_w x))"

definition cons_ok :: "console \<Rightarrow> bool" where
  "cons_ok x \<longleftrightarrow> length (cons_buf x) = INPUT_BUF_SIZE \<and>
     unat (cons_w x - cons_r x) + unat (cons_e x - cons_w x) \<le> INPUT_BUF_SIZE \<and> 10 \<notin> set (pending_in x)"

text \<open>What one character does to them, and what is echoed.\<close>

definition edit :: "int \<Rightarrow> byte list \<times> byte list \<Rightarrow> byte list \<times> byte list" where
  "edit c q =
    (let (ready, line) = q; b = (if c = 13 then 10 else of_int c) in
     if c = 16 then q
     else if c = 21 then (ready, [])
     else if c = 8 \<or> c = 127 then (ready, butlast line)
     else if c \<noteq> 0 \<and> length ready + length line < INPUT_BUF_SIZE then
       (if b = 10 \<or> b = 4 \<or> length ready + length line + 1 = INPUT_BUF_SIZE then (ready @ line @ [b], [])
        else (ready, line @ [b]))
     else q)"

definition echo :: "int \<Rightarrow> byte list \<times> byte list \<Rightarrow> byte list" where
  "echo c q =
    (let (ready, line) = q in
     if c = 16 then []
     else if c = 21 then concat (replicate (length line) [8, 32, 8])
     else if c = 8 \<or> c = 127 then (if line = [] then [] else [8, 32, 8])
     else if c \<noteq> 0 \<and> length ready + length line < INPUT_BUF_SIZE then [if c = 13 then 10 else of_int c]
     else [])"

definition put_all :: "byte list \<Rightarrow> 'a ckernel \<Rightarrow> 'a ckernel" where
  "put_all bs s = s\<lparr>world := (world s)\<lparr>sent := sent (world s) @ bs\<rparr>\<rparr>"

lemma cons_state_simps [simp]:
  "cons_of (set_cons x s) = x" "cons_of (put_all bs s) = cons_of s" "cons_of (s\<lparr>cpu := c\<rparr>) = cons_of s"
  "cons_of (set_user_memory m s) = cons_of s" "user_memory (set_cons x s) = user_memory s"
  "user_memory (set_user_memory m s) = m" "user_memory (s\<lparr>cpu := c\<rparr>) = user_memory s"
  "procs (set_cons x s) = procs s" "procs (put_all bs s) = procs s" "procs (set_user_memory m s) = procs s"
  "cproc (set_cons x s) = cproc s" "cproc (put_all bs s) = cproc s" "cproc (set_user_memory m s) = cproc s"
  "sched_inv (set_cons x s) = sched_inv s" "sched_inv (put_all bs s) = sched_inv s" "sched_inv (set_user_memory m s) = sched_inv s"
  "quiet L (set_cons x s) = quiet L s" "quiet L (put_all bs s) = quiet L s" "quiet L (set_user_memory m s) = quiet L s"
  "sent (world (put_all bs s)) = sent (world s) @ bs" "sent (world (set_cons x s)) = sent (world s)"
  by (simp_all add: cons_of_def set_cons_def put_all_def set_user_memory_def user_memory_def)

lemma cons_state_norm [simp]:
  "set_cons x (s\<lparr>cpu := c\<rparr>) = (set_cons x s)\<lparr>cpu := c\<rparr>" "put_all bs (s\<lparr>cpu := c\<rparr>) = (put_all bs s)\<lparr>cpu := c\<rparr>"
  "set_user_memory m (s\<lparr>cpu := c\<rparr>) = (set_user_memory m s)\<lparr>cpu := c\<rparr>"
  "put_all bs (set_cons x s) = set_cons x (put_all bs s)" "put_all cs (put_all bs s) = put_all (bs @ cs) s"
  "put_all [] s = s" "set_cons y (set_cons x s) = set_cons y s" "set_cons (cons_of s) s = s"
  "set_user_memory m (set_cons x s) = set_cons x (set_user_memory m s)" "set_user_memory m' (set_user_memory m s) = set_user_memory m' s"
  "set_user_memory (user_memory s) s = s"
  by (simp_all add: set_cons_def put_all_def cons_of_def set_user_memory_def user_memory_def)

lemma hart_ok_nested:
  assumes "hart_ok L c" and "L \<noteq> {}"
  shows "\<exists>c'. pop_off (push_off c) = Inr c' \<and> hart_ok L c'"
  using assms by (auto simp: pop_off_def push_off_def hart_ok_def Let_def card_eq_0_iff)

lemma uartputc_ok:
  assumes "quiet L s" and "L \<noteq> {}"
  shows "\<exists>c. uartputc_sync b s = Inr ((put_all [b] s)\<lparr>cpu := c\<rparr>) \<and> hart_ok L c"
  using hart_ok_nested [of L "cpu s"] assms by (auto simp: uartputc_sync_def quiet_def write_thr_def put_all_def)

lemma consputc_ok:
  assumes "quiet L s" and "L \<noteq> {}"
  shows "\<exists>c. consputc ch s = Inr ((put_all (if ch = BACKSPACE then [8, 32, 8] else [of_int ch]) s)\<lparr>cpu := c\<rparr>) \<and> hart_ok L c"
proof (cases "ch = BACKSPACE")
  case True
  obtain c1 where c1: "uartputc_sync 8 s = Inr ((put_all [8] s)\<lparr>cpu := c1\<rparr>)" "hart_ok L c1"
    using uartputc_ok [OF assms] by blast
  obtain c2 where c2: "uartputc_sync 32 ((put_all [8] s)\<lparr>cpu := c1\<rparr>) = Inr ((put_all [8, 32] s)\<lparr>cpu := c2\<rparr>)" "hart_ok L c2"
    using uartputc_ok [of L "(put_all [8] s)\<lparr>cpu := c1\<rparr>" 32] c1(2) assms(2) by auto
  show ?thesis
    using uartputc_ok [of L "(put_all [8, 32] s)\<lparr>cpu := c2\<rparr>" 8] c1(1) c2 assms(2) True by (auto simp: consputc_def)
next
  case False
  then show ?thesis using uartputc_ok [OF assms, of "of_int ch"] by (simp add: consputc_def)
qed

declare kill_line.simps [simp del] consoleread_loop.simps [simp del] uartwrite_loop.simps [simp del]
  consolewrite_loop.simps [simp del] uartintr_loop.simps [simp del]

lemma small_counter: "k \<le> INPUT_BUF_SIZE \<Longrightarrow> unat (of_nat k :: 32 word) = k"
  by (simp add: unat_of_nat INPUT_BUF_SIZE_def)

lemma INPUT_dvd: "INPUT_BUF_SIZE dvd 2 ^ 32"
  by (simp add: INPUT_BUF_SIZE_def)

lemma pending_nonempty: "cons_e x \<noteq> cons_w x \<longleftrightarrow> pending_in x \<noteq> []"
  by (metis eq_iff_diff_eq_0 length_0_conv length_ring_seg pending_in_def unat_eq_0)


text \<open>Taking back the last character of the line.\<close>

lemma pending_back:
  assumes "cons_ok x" and "cons_e x \<noteq> cons_w x"
  defines "y \<equiv> x\<lparr>cons_e := cons_e x - 1\<rparr>"
  shows "pending_in x = pending_in y @ [cons_buf x ! (unat (cons_e x - 1) mod INPUT_BUF_SIZE)]"
    and "ready_in y = ready_in x" and "cons_ok y"
proof -
  have "cons_e x - cons_w x \<noteq> 0" using assms(2) by simp
  then have n: "unat (cons_e x - cons_w x) = Suc (unat (cons_e x - cons_w x - 1))"
    by (simp add: unat_minus_one unat_gt_0)
  have e: "cons_e x - 1 - cons_w x = cons_e x - cons_w x - 1" by (simp add: algebra_simps)
  have "cons_w x + of_nat (unat (cons_e x - cons_w x - 1)) = cons_e x - 1" by (simp add: algebra_simps)
  then show p: "pending_in x = pending_in y @ [cons_buf x ! (unat (cons_e x - 1) mod INPUT_BUF_SIZE)]"
    using ring_seg_snoc [of "cons_buf x" "cons_w x" "unat (cons_e x - cons_w x - 1)"] assms(1) INPUT_dvd
    by (simp add: pending_in_def y_def n e cons_ok_def)
  show "ready_in y = ready_in x" by (simp add: ready_in_def y_def)
  have "10 \<notin> set (pending_in y)" using p assms(1) by (simp add: cons_ok_def)
  then show "cons_ok y" using assms(1) n by (simp add: cons_ok_def y_def e)
qed

lemma kill_line_ok:
  assumes "cons_ok x" and "quiet L s" and "L \<noteq> {}"
  shows "\<exists>c. kill_line x s = Inr (x\<lparr>cons_e := cons_w x\<rparr>,
      (put_all (concat (replicate (length (pending_in x)) [8, 32, 8])) s)\<lparr>cpu := c\<rparr>) \<and> hart_ok L c"
  using assms(1,2)
proof (induction "length (pending_in x)" arbitrary: x s)
  case 0
  then have "cons_e x = cons_w x" using pending_nonempty [of x] by simp
  moreover have "s = s\<lparr>cpu := cpu s\<rparr>" by simp
  ultimately show ?case using 0 by (auto simp: kill_line.simps quiet_def intro!: exI [of _ "cpu s"])
next
  case (Suc n)
  let ?y = "x\<lparr>cons_e := cons_e x - 1\<rparr>"
  have ne: "cons_e x \<noteq> cons_w x" using Suc.hyps(2) pending_nonempty [of x] by auto
  note bk = pending_back [OF Suc.prems(1) ne]
  have "cons_buf x ! (unat (cons_e x - 1) mod INPUT_BUF_SIZE) \<noteq> 10"
    using bk(1) Suc.prems(1) by (auto simp: cons_ok_def)
  moreover obtain c1 where c1: "consputc BACKSPACE s = Inr ((put_all [8, 32, 8] s)\<lparr>cpu := c1\<rparr>)" "hart_ok L c1"
    using consputc_ok [OF Suc.prems(2) assms(3), of BACKSPACE] by auto
  moreover have n: "n = length (pending_in ?y)" using bk(1) Suc.hyps(2) by simp
  moreover obtain c where "kill_line ?y ((put_all [8, 32, 8] s)\<lparr>cpu := c1\<rparr>) = Inr (?y\<lparr>cons_e := cons_w ?y\<rparr>,
      (put_all (concat (replicate (length (pending_in ?y)) [8, 32, 8])) ((put_all [8, 32, 8] s)\<lparr>cpu := c1\<rparr>))\<lparr>cpu := c\<rparr>)" "hart_ok L c"
    using Suc.hyps(1) [OF n bk(3), of "(put_all [8, 32, 8] s)\<lparr>cpu := c1\<rparr>"] c1(2) by auto
  ultimately show ?case using ne Suc.hyps(2) [symmetric]
    by (intro exI [of _ c]) (subst kill_line.simps, simp)
qed

text \<open>Storing a character behind the line, and closing the line.\<close>

lemma pending_store:
  fixes b :: byte
  assumes "cons_ok x" and "length (ready_in x) + length (pending_in x) < INPUT_BUF_SIZE"
  defines "y \<equiv> x\<lparr>cons_buf := (cons_buf x)[unat (cons_e x) mod INPUT_BUF_SIZE := b], cons_e := cons_e x + 1\<rparr>"
  shows "pending_in y = pending_in x @ [b]" and "ready_in y = ready_in x" and "b \<noteq> 10 \<Longrightarrow> cons_ok y"
    and "ready_in (y\<lparr>cons_w := cons_e y\<rparr>) = ready_in x @ pending_in x @ [b]" and "pending_in (y\<lparr>cons_w := cons_e y\<rparr>) = []"
    and "cons_ok (y\<lparr>cons_w := cons_e y\<rparr>)"
    and "unat (cons_e y - cons_r y) = Suc (length (ready_in x) + length (pending_in x))"
proof -
  let ?n1 = "unat (cons_w x - cons_r x)" and ?n2 = "unat (cons_e x - cons_w x)"
  let ?d = "(cons_buf x)[unat (cons_e x) mod INPUT_BUF_SIZE := b]"
  have len: "length (cons_buf x) = INPUT_BUF_SIZE" "10 \<notin> set (pending_in x)" using assms(1) by (simp_all add: cons_ok_def)
  have lt: "?n1 + ?n2 < INPUT_BUF_SIZE" using assms(2) by (simp add: ready_in_def pending_in_def)
  have w: "cons_r x + of_nat ?n1 = cons_w x" by simp
  then have e: "cons_r x + of_nat (?n1 + ?n2) = cons_e x" by (simp add: add.assoc [symmetric])
  have "unat (of_nat (Suc (?n1 + ?n2)) :: 32 word) = Suc (?n1 + ?n2)" "unat (of_nat (Suc ?n2) :: 32 word) = Suc ?n2"
    using lt by (intro small_counter; simp)+
  moreover have "cons_e x + 1 - cons_r x = of_nat (Suc (?n1 + ?n2))" "cons_e x + 1 - cons_w x = of_nat (Suc ?n2)"
    using e by (simp_all add: algebra_simps)
  ultimately have u: "unat (cons_e x + 1 - cons_r x) = Suc (?n1 + ?n2)" "unat (cons_e x + 1 - cons_w x) = Suc ?n2" by (simp_all only:)
  have old: "ring_seg (cons_buf x) (cons_r x) (?n1 + ?n2) = ready_in x @ pending_in x"
    using ring_seg_append [of "cons_buf x" "cons_r x" ?n1 ?n2] len(1) INPUT_dvd w by (simp add: ready_in_def pending_in_def)
  have new: "ring_seg ?d (cons_r x) (Suc (?n1 + ?n2)) = ready_in x @ pending_in x @ [b]"
    using ring_seg_update [of "cons_buf x" "?n1 + ?n2" "cons_r x" b] len(1) INPUT_dvd lt old e by simp
  moreover have "ring_seg ?d (cons_r x) (Suc (?n1 + ?n2)) = ring_seg ?d (cons_r x) ?n1 @ ring_seg ?d (cons_w x) (Suc ?n2)"
    using ring_seg_append [of ?d "cons_r x" ?n1 "Suc ?n2"] len(1) INPUT_dvd w by simp
  moreover have "length (ready_in x) = ?n1" by (simp add: ready_in_def)
  ultimately have split: "ring_seg ?d (cons_r x) ?n1 = ready_in x" "ring_seg ?d (cons_w x) (Suc ?n2) = pending_in x @ [b]"
    by (metis append_eq_append_conv length_ring_seg)+
  show "unat (cons_e y - cons_r y) = Suc (length (ready_in x) + length (pending_in x))"
    using u(1) by (simp add: y_def ready_in_def pending_in_def)
  show p: "pending_in y = pending_in x @ [b]" using split(2) u(2) by (simp add: pending_in_def y_def)
  show "ready_in y = ready_in x" using split(1) by (simp add: ready_in_def y_def)
  show "cons_ok y" if "b \<noteq> 10" using that p len lt u(2) by (simp add: cons_ok_def y_def)
  show "ready_in (y\<lparr>cons_w := cons_e y\<rparr>) = ready_in x @ pending_in x @ [b]"
    using new u(1) by (simp add: ready_in_def y_def)
  show p2: "pending_in (y\<lparr>cons_w := cons_e y\<rparr>) = []" by (simp add: pending_in_def y_def)
  show "cons_ok (y\<lparr>cons_w := cons_e y\<rparr>)" using p2 len(1) lt u(1) by (simp add: cons_ok_def y_def)
qed

lemma room_test:
  assumes "cons_ok x"
  shows "unat (cons_e x - cons_r x) = length (ready_in x) + length (pending_in x)"
proof -
  let ?k = "unat (cons_w x - cons_r x) + unat (cons_e x - cons_w x)"
  have "cons_e x - cons_r x = of_nat ?k" by simp
  then have "unat (cons_e x - cons_r x) = unat (of_nat ?k :: 32 word)" by (simp only:)
  also have "\<dots> = ?k" using assms by (intro small_counter) (simp add: cons_ok_def)
  finally show ?thesis by (simp add: ready_in_def pending_in_def)
qed

text \<open>What a character leaves, against the state before it.\<close>

definition edited :: "int \<Rightarrow> 'a ckernel \<Rightarrow> 'a ckernel \<Rightarrow> bool" where
  "edited c s u \<longleftrightarrow> sched_inv u \<and> cons_ok (cons_of u) \<and> user_memory u = user_memory s \<and>
     (ready_in (cons_of u), pending_in (cons_of u)) = edit c (ready_in (cons_of s), pending_in (cons_of s)) \<and>
     sent (world u) = sent (world s) @ echo c (ready_in (cons_of s), pending_in (cons_of s)) \<and>
     (\<forall>x \<in> set (procs u). sleeps_on ConsChan x \<longrightarrow> x \<in> set (procs s) \<and> ready_in (cons_of u) = ready_in (cons_of s))"

lemma edited_cpu [simp]: "edited c s (u\<lparr>cpu := k\<rparr>) = edited c s u" "edited c (s\<lparr>cpu := k\<rparr>) u = edited c s u"
  by (simp_all add: edited_def)

lemma after_wakeup_cons:
  assumes "after_wakeup ch s u"
  shows "cons_of u = cons_of s" "user_memory u = user_memory s" "sent (world u) = sent (world s)"
  using after_wakeup_procs(2) [OF assms] by (simp_all add: cons_of_def user_memory_def)

lemma procdump_simps [simp]:
  "cons_of (procdump s) = cons_of s" "user_memory (procdump s) = user_memory s" "world (procdump s) = world s"
  "sched_inv (procdump s) = sched_inv s" "quiet L (procdump s) = quiet L s" "procs (procdump s) = procs s"
  by (simp_all add: procdump_def cons_of_def user_memory_def)

lemma user_memory_put_all [simp]: "user_memory (put_all bs s) = user_memory s"
  by (simp add: user_memory_def put_all_def)

lemma cons_ok_killed: "cons_ok x \<Longrightarrow> cons_ok (x\<lparr>cons_e := cons_w x\<rparr>)"
  by (simp add: cons_ok_def pending_in_def)

lemma byte_of_char:
  assumes "0 \<le> c" and "c < 256"
  shows "(of_int c :: byte) = 10 \<longleftrightarrow> c = 10" "(of_int c :: byte) = 4 \<longleftrightarrow> c = 4"
  using assms by (simp_all add: word_uint_eq_iff uint_word_of_int)

lemma room_word: "unat (w :: 32 word) < INPUT_BUF_SIZE \<longleftrightarrow> w < of_nat INPUT_BUF_SIZE"
  "unat w = INPUT_BUF_SIZE \<longleftrightarrow> w = of_nat INPUT_BUF_SIZE"
  by (simp_all add: word_less_nat_alt word_unat_eq_iff small_counter)

lemma switch_store:
  fixes c :: int
  assumes "quiet {ConsLock} s" and "sched_inv s" and "cons_ok (cons_of s)" and "0 \<le> c" and "c < 256"
    and "c \<notin> {0, 8, 16, 21, 127}" and "length (ready_in (cons_of s)) + length (pending_in (cons_of s)) < INPUT_BUF_SIZE"
  shows "\<exists>u. consoleintr_switch c s = Inr u \<and> quiet {ConsLock} u \<and> edited c s u"
proof -
  define x where "x = cons_of s"
  define d where "d = (if c = 13 then 10 else c)"
  define b :: byte where "b = of_int d"
  define y where "y = x\<lparr>cons_buf := (cons_buf x)[unat (cons_e x) mod INPUT_BUF_SIZE := b], cons_e := cons_e x + 1\<rparr>"
  have room: "length (ready_in x) + length (pending_in x) < INPUT_BUF_SIZE" using assms(7) by (simp add: x_def)
  have ok: "cons_ok x" using assms(3) by (simp add: x_def)
  note st = pending_store [OF ok room, of b, folded y_def]
  have d: "0 \<le> d" "d < 256" "d \<noteq> BACKSPACE" using assms(4,5) by (auto simp: d_def BACKSPACE_def)
  then have bd: "b = 10 \<longleftrightarrow> d = 10" "b = 4 \<longleftrightarrow> d = 4" using byte_of_char [of d] by (simp_all add: b_def)
  have be: "b = (if c = 13 then 10 else of_int c)" by (simp add: b_def d_def)
  obtain c1 where c1: "consputc d s = Inr ((put_all [b] s)\<lparr>cpu := c1\<rparr>)" "hart_ok {ConsLock} c1"
    using consputc_ok [OF assms(1), of d] d(3) by (auto simp: b_def)
  have full: "cons_e y - cons_r y = of_nat INPUT_BUF_SIZE \<longleftrightarrow> length (ready_in x) + length (pending_in x) + 1 = INPUT_BUF_SIZE"
    using st(7) room_word(2) [of "cons_e y - cons_r y"] by simp
  have small: "cons_e x - cons_r x < of_nat INPUT_BUF_SIZE"
    using room room_test [OF ok] room_word(1) [of "cons_e x - cons_r x"] by simp
  have sw: "consoleintr_switch c s = (if d = 10 \<or> d = 4 \<or> cons_e y - cons_r y = of_nat INPUT_BUF_SIZE
      then wakeup ConsChan ((set_cons (y\<lparr>cons_w := cons_e y\<rparr>) (put_all [b] s))\<lparr>cpu := c1\<rparr>)
      else Inr ((set_cons y (put_all [b] s))\<lparr>cpu := c1\<rparr>))"
    using assms(6) small c1(1) unfolding consoleintr_switch_def Let_def d_def [symmetric] ctrl_def
    by (simp add: x_def b_def y_def)
  have ec: "echo c (ready_in x, pending_in x) = [b]" using assms(6) room by (simp add: echo_def be)
  show ?thesis
  proof (cases "d = 10 \<or> d = 4 \<or> length (ready_in x) + length (pending_in x) + 1 = INPUT_BUF_SIZE")
    case True
    let ?t = "set_cons (y\<lparr>cons_w := cons_e y\<rparr>) (put_all [b] s)"
    obtain u where u: "wakeup ConsChan (?t\<lparr>cpu := c1\<rparr>) = Inr u" "quiet {ConsLock} u" "sched_inv u"
        "woken_upto NPROC ConsChan (?t\<lparr>cpu := c1\<rparr>) u"
      using wakeup_ok [of "{ConsLock}" "?t\<lparr>cpu := c1\<rparr>" ConsChan] c1(2) assms(2) by auto
    then have w: "after_wakeup ConsChan ?t u" by (simp add: after_wakeup_def)
    have "edit c (ready_in x, pending_in x) = (ready_in x @ pending_in x @ [b], [])"
      using True assms(6) room bd be by (auto simp: edit_def)
    moreover have "\<forall>z \<in> set (procs u). \<not> sleeps_on ConsChan z"
      using after_wakeup_procs(1) [OF w] by auto
    ultimately have "edited c s u"
      using u(3) after_wakeup_cons [OF w] st(4-6) ec by (simp add: edited_def x_def)
    moreover have "consoleintr_switch c s = Inr u" using sw True full u(1) by simp
    ultimately show ?thesis using u(2) by blast
  next
    case False
    then have "edit c (ready_in x, pending_in x) = (ready_in x, pending_in x @ [b])"
      using assms(6) room bd be by (auto simp: edit_def)
    then have "edited c s (set_cons y (put_all [b] s))"
      using st(1-3) ec assms(2) False bd by (simp add: edited_def x_def)
    then show ?thesis using sw False full c1(2) by simp
  qed
qed

lemma switch_ok:
  assumes "quiet {ConsLock} s" and "sched_inv s" and "cons_ok (cons_of s)" and "0 \<le> c" and "c < 256"
  shows "\<exists>u. consoleintr_switch c s = Inr u \<and> quiet {ConsLock} u \<and> edited c s u"
proof -
  let ?x = "cons_of s"
  have ok: "edited c s s" if "edit c (ready_in ?x, pending_in ?x) = (ready_in ?x, pending_in ?x)" "echo c (ready_in ?x, pending_in ?x) = []"
    using that assms(2,3) by (simp add: edited_def)
  consider "c = 16" | "c = 21" | "c = 8 \<or> c = 127" "pending_in ?x \<noteq> []" | "c = 8 \<or> c = 127" "pending_in ?x = []"
    | "c \<notin> {0, 8, 16, 21, 127}" "length (ready_in ?x) + length (pending_in ?x) < INPUT_BUF_SIZE"
    | "c = 0" | "c \<notin> {0, 8, 16, 21, 127}" "\<not> length (ready_in ?x) + length (pending_in ?x) < INPUT_BUF_SIZE"
    by auto
  then show ?thesis
  proof cases
    case 1
    then show ?thesis using assms by (simp add: consoleintr_switch_def ctrl_def edited_def edit_def echo_def)
  next
    case 2
    obtain k where "kill_line ?x s = Inr (?x\<lparr>cons_e := cons_w ?x\<rparr>,
        (put_all (concat (replicate (length (pending_in ?x)) [8, 32, 8])) s)\<lparr>cpu := k\<rparr>)" "hart_ok {ConsLock} k"
      using kill_line_ok [OF assms(3,1)] by auto
    moreover have "ready_in (?x\<lparr>cons_e := cons_w ?x\<rparr>) = ready_in ?x" "pending_in (?x\<lparr>cons_e := cons_w ?x\<rparr>) = []"
      by (simp_all add: ready_in_def pending_in_def)
    ultimately show ?thesis using 2 assms(2) cons_ok_killed [OF assms(3)]
      by (simp add: consoleintr_switch_def ctrl_def edited_def edit_def echo_def)
  next
    case 3
    let ?y = "?x\<lparr>cons_e := cons_e ?x - 1\<rparr>"
    have ne: "cons_e ?x \<noteq> cons_w ?x" using 3 pending_nonempty [of ?x] by simp
    note bk = pending_back [OF assms(3) ne]
    obtain k where "consputc BACKSPACE (set_cons ?y s) = Inr ((put_all [8, 32, 8] (set_cons ?y s))\<lparr>cpu := k\<rparr>)" "hart_ok {ConsLock} k"
      using consputc_ok [of "{ConsLock}" "set_cons ?y s" BACKSPACE] assms(1) by auto
    then show ?thesis using 3 ne assms(2) bk
      by (auto simp: consoleintr_switch_def ctrl_def edited_def edit_def echo_def)
  next
    case 4
    then show ?thesis using ok pending_nonempty [of ?x] assms(1)
      by (auto simp: consoleintr_switch_def ctrl_def edit_def echo_def)
  next
    case 5
    then show ?thesis using switch_store [OF assms] by blast
  next
    case 6
    then show ?thesis using ok assms(1) by (simp add: consoleintr_switch_def ctrl_def edit_def echo_def)
  next
    case 7
    then have "\<not> cons_e ?x - cons_r ?x < of_nat INPUT_BUF_SIZE" using room_test [OF assms(3)] room_word(1) [of "cons_e ?x - cons_r ?x"] by simp
    then show ?thesis using 7 ok assms(1) by (simp add: consoleintr_switch_def ctrl_def edit_def echo_def)
  qed
qed

lemma consoleintr_ok:
  assumes "quiet {} s" and "sched_inv s" and "cons_ok (cons_of s)" and "0 \<le> c" and "c < 256"
  shows "\<exists>u. consoleintr c s = Inr u \<and> quiet {} u \<and> edited c s u"
proof -
  obtain k where k: "acq ConsLock s = Inr (s\<lparr>cpu := k\<rparr>)" "hart_ok {ConsLock} k"
    using acq_ok [OF assms(1), of ConsLock] by auto
  obtain u where u: "consoleintr_switch c (s\<lparr>cpu := k\<rparr>) = Inr u" "quiet {ConsLock} u" "edited c s u"
    using switch_ok [of "s\<lparr>cpu := k\<rparr>" c] assms k(2) by auto
  obtain k' where "rel ConsLock u = Inr (u\<lparr>cpu := k'\<rparr>)" "hart_ok {} k'"
    using rel_ok [OF u(2), of ConsLock] by auto
  then show ?thesis using k(1) u by (auto simp: consoleintr_def)
qed

text \<open>No reader sleeps while a line is ready.\<close>

definition readers_ok :: "'a ckernel \<Rightarrow> bool" where
  "readers_ok s \<longleftrightarrow> (\<forall>x \<in> set (procs s). sleeps_on ConsChan x \<longrightarrow> ready_in (cons_of s) = [])"

definition windows :: "'a ckernel \<Rightarrow> byte list \<times> byte list" where
  "windows s = (ready_in (cons_of s), pending_in (cons_of s))"

lemma uartintr_loop_ok:
  assumes "quiet {} s" and "sched_inv s" and "cons_ok (cons_of s)" and "readers_ok s"
  shows "\<exists>u. uartintr_loop rx s = Inr u \<and> quiet {} u \<and> sched_inv u \<and> cons_ok (cons_of u) \<and> readers_ok u \<and>
    windows u = fold (\<lambda>b. edit (uint b)) rx (windows s)"
  using assms
proof (induction rx arbitrary: s)
  case Nil
  then show ?case by (simp add: uartintr_loop.simps)
next
  case (Cons b rx)
  have b: "0 \<le> uint b" "uint b < 256" "uint b \<noteq> -1"
    using uint_lt2p [of b] uint_ge_0 [of b] by (simp, simp, linarith)
  obtain t where t: "consoleintr (uint b) s = Inr t" "quiet {} t" "edited (uint b) s t"
    using consoleintr_ok [OF Cons.prems(1-3) b(1,2)] by blast
  have "readers_ok t" "windows t = edit (uint b) (windows s)" "sched_inv t" "cons_ok (cons_of t)"
    using t(3) Cons.prems(4) by (auto simp: readers_ok_def edited_def windows_def)
  with Cons.IH [OF t(2)] show ?case using t(1) b(3) by (subst uartintr_loop.simps) simp
qed

lemma uartintr_ok:
  assumes "quiet {} s" and "sched_inv s" and "cons_ok (cons_of s)" and "readers_ok s"
  shows "\<exists>u. uartintr idle rx s = Inr u \<and> quiet {} u \<and> sched_inv u \<and> cons_ok (cons_of u) \<and> readers_ok u \<and>
    windows u = fold (\<lambda>b. edit (uint b)) rx (windows s)"
proof -
  obtain k where k: "acq TxLock s = Inr (s\<lparr>cpu := k\<rparr>)" "hart_ok {TxLock} k"
    using acq_ok [OF assms(1), of TxLock] by auto
  obtain t where t: "(if idle then wakeup TxChan (set_busy 0 (s\<lparr>cpu := k\<rparr>)) else Inr (s\<lparr>cpu := k\<rparr>)) = Inr t"
      "quiet {TxLock} t" "sched_inv t" "cons_of t = cons_of s" "readers_ok t"
  proof (cases idle)
    case True
    let ?s = "set_busy 0 (s\<lparr>cpu := k\<rparr>)"
    have s: "sched_inv ?s" "quiet {TxLock} ?s" "cons_of ?s = cons_of s" "procs ?s = procs s"
      using assms(2) k(2) by (simp_all add: set_busy_def cons_of_def)
    obtain t where "wakeup TxChan ?s = Inr t" "quiet {TxLock} t" "sched_inv t" "woken_upto NPROC TxChan ?s t"
      using wakeup_ok [OF s(2) _ _ s(1), of TxChan] by auto
    moreover from this have w: "after_wakeup TxChan ?s t" by (simp add: after_wakeup_def)
    ultimately show ?thesis
      using that [of t] True after_wakeup_cons(1) [OF w] after_wakeup_procs(1) [OF w] s(3,4) assms(4)
      by (auto simp: readers_ok_def)
  next
    case False
    then show ?thesis using that [of "s\<lparr>cpu := k\<rparr>"] k(2) assms by (simp add: readers_ok_def)
  qed
  obtain k' where k': "rel TxLock t = Inr (t\<lparr>cpu := k'\<rparr>)" "hart_ok {} k'" using rel_ok [OF t(2), of TxLock] by auto
  have "uartintr idle rx s = uartintr_loop rx (t\<lparr>cpu := k'\<rparr>)" using k(1) t(1) k'(1) by (simp add: uartintr_def)
  moreover have "readers_ok (t\<lparr>cpu := k'\<rparr>)" "windows (t\<lparr>cpu := k'\<rparr>) = windows s"
    using t(4,5) by (simp_all add: readers_ok_def windows_def)
  ultimately show ?thesis using uartintr_loop_ok [of "t\<lparr>cpu := k'\<rparr>" rx] k'(2) t(3,4) assms(3) by simp
qed

text \<open>C23: The interrupt handler of the serial line implements the line discipline: however many characters have arrived, and
  wherever the 32-bit indices of the ring stand, the complete lines and the line being typed change as the specification \<open>edit\<close>
  says, character by character; no line is lost or overwritten, no panic occurs, and no reader is left asleep with input to read.\<close>

theorem uartintr_edits:
  assumes "quiet {} s" and "sched_inv s" and "cons_ok (cons_of s)" and "readers_ok s"
  shows "\<exists>u. uartintr idle rx s = Inr u \<and> quiet {} u \<and> sched_inv u \<and> cons_ok (cons_of u) \<and> readers_ok u \<and>
    windows u = fold (\<lambda>b. edit (uint b)) rx (windows s)"
  by (rule uartintr_ok [OF assms])

definition example_console :: "unit console_world_scheme" where
  "example_console = \<lparr>cons = \<lparr>cons_buf = replicate 128 0, cons_r = - 1, cons_w = - 1, cons_e = - 1\<rparr>, tx_busy = 0, sent = []\<rparr>"

lemma example_console_ok:
  "cons_ok (cons_of (solo L example_console))" "readers_ok (solo L example_console)" "windows (solo L example_console) = ([], [])"
  by (simp_all add: example_console_def cons_of_def cons_ok_def readers_ok_def windows_def ready_in_def pending_in_def
      INPUT_BUF_SIZE_def)

theorem uartintr_edits_witness:
  "\<exists>u. uartintr True [97, 98, 8, 99, 13] (solo {} example_console) = Inr u \<and> windows u = ([97, 99, 10], [])"
  using uartintr_edits [of "solo {} example_console" True "[97, 98, 8, 99, 13]"]
  by (simp add: example_console_ok edit_def INPUT_BUF_SIZE_def) blast

section \<open>Reading\<close>








end
