(* ===== verification/Kernel_Kalloc.thy ===== *)
theory Kernel_Kalloc
  imports Kernel_Blocking Kernel_Example Kernel_String
begin

text \<open>
  The allocator of physical pages, \<^verbatim>\<open>xv6/kernel/kalloc.c\<close>.  The free pages form a list linked through the first eight
  bytes of each page, in the memory itself; the memory and the head of the list are a part of the field \<open>world\<close>.  The end of the
  kernel image, which the linker sets, is the parameter \<open>kend\<close>.
\<close>

section \<open>State\<close>

definition PGSIZE :: nat where "PGSIZE = 4096"
definition PHYSTOP :: nat where "PHYSTOP = 0x80000000 + 128 * 1024 * 1024"

definition PGROUNDUP :: "nat \<Rightarrow> nat" where
  "PGROUNDUP z = (z + PGSIZE - 1) - (z + PGSIZE - 1) mod PGSIZE"

record kmem_world =
  freelist :: nat
  ram :: mem

type_synonym 'a mkernel = "'a kmem_world_scheme kernel"

definition upd_kmem :: "nat \<Rightarrow> mem \<Rightarrow> 'a mkernel \<Rightarrow> 'a mkernel" where
  "upd_kmem p m s = s\<lparr>world := (world s)\<lparr>freelist := p, ram := m\<rparr>\<rparr>"

section \<open>Operations\<close>

definition kfree :: "nat \<Rightarrow> nat \<Rightarrow> 'a mkernel \<Rightarrow> 'a mkernel res" where
  "kfree kend pa s =
    (if pa mod PGSIZE \<noteq> 0 \<or> pa < kend \<or> pa \<ge> PHYSTOP then Inl ''kfree''
     else let s = upd_kmem (freelist (world s)) (memset (ram (world s)) pa 1 PGSIZE) s in
       seq (acq KmemLock s) (\<lambda>s.
         rel KmemLock (upd_kmem pa (put_le (ram (world s)) pa 8 (freelist (world s))) s)))"

definition kalloc :: "'a mkernel \<Rightarrow> (nat \<times> 'a mkernel) res" where
  "kalloc s =
    seq (acq KmemLock s) (\<lambda>s.
      let r = freelist (world s);
          s = (if r \<noteq> 0 then upd_kmem (get_le (ram (world s)) r 8) (ram (world s)) s else s)
      in seq (rel KmemLock s) (\<lambda>s.
        Inr (r, if r \<noteq> 0 then upd_kmem (freelist (world s)) (memset (ram (world s)) r 5 PGSIZE) s else s)))"

function freerange_loop :: "nat \<Rightarrow> nat \<Rightarrow> nat \<Rightarrow> 'a mkernel \<Rightarrow> 'a mkernel res" where
  "freerange_loop kend p pa_end s =
    (if p + PGSIZE \<le> pa_end then seq (kfree kend p s) (freerange_loop kend (p + PGSIZE) pa_end) else Inr s)"
  by pat_completeness auto
termination by (relation "measure (\<lambda>(kend, p, pa_end, s). pa_end - p)") (auto simp: PGSIZE_def)

definition freerange :: "nat \<Rightarrow> nat \<Rightarrow> nat \<Rightarrow> 'a mkernel \<Rightarrow> 'a mkernel res" where
  "freerange kend pa_start pa_end s = freerange_loop kend (PGROUNDUP pa_start) pa_end s"

definition kinit :: "nat \<Rightarrow> 'a mkernel \<Rightarrow> 'a mkernel res" where
  "kinit kend s = freerange kend kend PHYSTOP s"

section \<open>The list of free pages\<close>

fun linked :: "mem \<Rightarrow> nat \<Rightarrow> nat list \<Rightarrow> bool" where
  "linked m p [] = (p = 0)"
| "linked m p (x # xs) = (p = x \<and> linked m (get_le m x 8) xs)"

definition page_ok :: "nat \<Rightarrow> nat \<Rightarrow> bool" where
  "page_ok kend pa \<longleftrightarrow> pa mod PGSIZE = 0 \<and> kend \<le> pa \<and> pa < PHYSTOP"

definition free_pages :: "nat \<Rightarrow> 'a mkernel \<Rightarrow> nat list \<Rightarrow> bool" where
  "free_pages kend s ps \<longleftrightarrow> linked (ram (world s)) (freelist (world s)) ps \<and> distinct ps \<and> 0 < kend \<and> (\<forall>p \<in> set ps. page_ok kend p)"

definition in_page :: "nat \<Rightarrow> nat \<Rightarrow> bool" where
  "in_page p q \<longleftrightarrow> p \<le> q \<and> q < p + PGSIZE"

lemma kmem_simps [simp]:
  "freelist (world (upd_kmem p m s)) = p" "ram (world (upd_kmem p m s)) = m" "quiet L (upd_kmem p m s) = quiet L s"
  "upd_kmem p m (s\<lparr>cpu := c\<rparr>) = (upd_kmem p m s)\<lparr>cpu := c\<rparr>" "upd_kmem p' m' (upd_kmem p m s) = upd_kmem p' m' s"
  "upd_kmem (freelist (world s)) (ram (world s)) s = s"
  by (simp_all add: upd_kmem_def)

lemma free_pages_cpu [simp]: "free_pages kend (s\<lparr>cpu := c\<rparr>) ps = free_pages kend s ps"
  by (simp add: free_pages_def)

lemma memset_loop_eq:
  "i \<le> n \<Longrightarrow> memset_loop m p b i n = (\<lambda>q. if p + i \<le> q \<and> q < p + n then b else m q)"
proof (induction "n - i" arbitrary: m i)
  case 0
  then show ?case by (subst memset_loop.simps) (auto simp: fun_eq_iff)
next
  case (Suc k)
  have "i < n" using Suc.hyps(2) by simp
  then have "memset_loop m p b i n = memset_loop (m(p + i := b)) p b (i + 1) n" by (subst memset_loop.simps) simp
  also have "\<dots> = (\<lambda>q. if p + (i + 1) \<le> q \<and> q < p + n then b else (m(p + i := b)) q)"
    by (rule Suc.hyps) (use Suc.hyps(2) in auto)
  finally show ?case using Suc.hyps(2) by (auto simp: fun_eq_iff)
qed

lemma memset_eq: "memset m p c n = (\<lambda>q. if p \<le> q \<and> q < p + n then of_int c else m q)"
  by (simp add: memset_def memset_loop_eq)

lemma linked_cong: "(\<And>x q. x \<in> set ps \<Longrightarrow> x \<le> q \<Longrightarrow> q < x + 8 \<Longrightarrow> m q = m' q) \<Longrightarrow> linked m p ps = linked m' p ps"
proof (induction ps arbitrary: p)
  case (Cons x ps)
  have "get_le m x 8 = get_le m' x 8" using Cons.prems by (intro get_le_cong) auto
  then show ?case using Cons by auto
qed simp

text \<open>Pages do not overlap.\<close>

lemma pages_disjoint:
  assumes "x mod PGSIZE = 0" and "y mod PGSIZE = 0" and "in_page x q" and "in_page y q"
  shows "x = y"
proof -
  have "q div PGSIZE = x div PGSIZE" "q div PGSIZE = y div PGSIZE"
    using assms by (auto simp: in_page_def PGSIZE_def div_nat_eqI)
  then show ?thesis using assms(1,2) by (metis mod_0_imp_dvd dvd_div_mult_self)
qed

lemma linked_other_page:
  assumes "\<And>q. \<not> in_page p q \<Longrightarrow> m q = m' q" and "p mod PGSIZE = 0" and "p \<notin> set ps" and "\<forall>x \<in> set ps. x mod PGSIZE = 0"
  shows "linked m r ps = linked m' r ps"
proof (rule linked_cong)
  fix x q assume "x \<in> set ps" "x \<le> q" "q < x + 8"
  then have "\<not> in_page p q" using pages_disjoint [of x p q] assms(2-4) by (auto simp: in_page_def PGSIZE_def)
  then show "m q = m' q" by (rule assms(1))
qed

lemma free_pages_pop:
  assumes "free_pages kend s (p # ps)"
  shows "freelist (world s) = p" "p \<noteq> 0" "p \<notin> set ps" "page_ok kend p"
    "free_pages kend (upd_kmem (get_le (ram (world s)) p 8) (memset (ram (world s)) p 5 PGSIZE) s) ps"
proof -
  show f: "freelist (world s) = p" "p \<noteq> 0" "p \<notin> set ps" "page_ok kend p"
    using assms by (auto simp: free_pages_def page_ok_def)
  have "linked (memset (ram (world s)) p 5 PGSIZE) (get_le (ram (world s)) p 8) ps =
      linked (ram (world s)) (get_le (ram (world s)) p 8) ps"
    using assms f by (intro linked_other_page [of p]) (auto simp: memset_eq in_page_def free_pages_def page_ok_def)
  then show "free_pages kend (upd_kmem (get_le (ram (world s)) p 8) (memset (ram (world s)) p 5 PGSIZE) s) ps"
    using assms by (simp add: free_pages_def)
qed

lemma kfree_ok:
  assumes "quiet {} s" and "free_pages kend s ps" and "page_ok kend p" and "p \<notin> set ps"
  shows "\<exists>s'. kfree kend p s = Inr s' \<and> quiet {} s' \<and> free_pages kend s' (p # ps) \<and>
    (\<forall>q. \<not> in_page p q \<longrightarrow> ram (world s') q = ram (world s) q)"
proof -
  let ?m1 = "memset (ram (world s)) p 1 PGSIZE" and ?f = "freelist (world s)"
  let ?m = "put_le ?m1 p 8 ?f"
  let ?s1 = "upd_kmem ?f ?m1 s" and ?s = "upd_kmem p ?m s"
  obtain c where c: "acq KmemLock ?s1 = Inr (?s1\<lparr>cpu := c\<rparr>)" "hart_ok {KmemLock} c"
    using acq_ok [of "{}" ?s1 KmemLock] assms(1) by auto
  obtain c' where c': "rel KmemLock (?s\<lparr>cpu := c\<rparr>) = Inr (?s\<lparr>cpu := c'\<rparr>)" "hart_ok {} c'"
    using rel_ok [of "{KmemLock}" "?s\<lparr>cpu := c\<rparr>" KmemLock] c(2) by auto
  have out: "?m q = ram (world s) q" if "\<not> in_page p q" for q
  proof -
    have "?m q = ?m1 q" by (rule put_le_outside) (use that in \<open>auto simp: in_page_def PGSIZE_def\<close>)
    then show ?thesis using that by (auto simp: memset_eq in_page_def)
  qed
  have ps: "linked (ram (world s)) ?f ps" "distinct ps" "0 < kend" "\<forall>x \<in> set ps. page_ok kend x"
    using assms(2) by (auto simp: free_pages_def)
  have "?f < 2 ^ 64"
    using ps(1,4) by (cases ps) (auto simp: page_ok_def PHYSTOP_def)
  then have "get_le ?m p 8 = ?f" by (simp add: get_put_le)
  moreover have "linked ?m ?f ps = linked (ram (world s)) ?f ps"
    using assms(3,4) ps(4) by (intro linked_other_page [of p]) (auto simp: out page_ok_def)
  ultimately have "free_pages kend ?s (p # ps)" using ps assms(3,4) by (simp add: free_pages_def)
  moreover have "kfree kend p s = Inr (?s\<lparr>cpu := c'\<rparr>)"
    using assms(3) c(1) c'(1) by (simp add: kfree_def page_ok_def Let_def)
  ultimately show ?thesis using c'(2) out by simp
qed

lemma kalloc_ok:
  assumes "quiet {} s" and "free_pages kend s ps"
  shows "\<exists>s'. kalloc s = Inr (case ps of [] \<Rightarrow> 0 | p # _ \<Rightarrow> p, s') \<and> quiet {} s' \<and> free_pages kend s' (tl ps) \<and>
    ram (world s') = (case ps of [] \<Rightarrow> ram (world s) | p # _ \<Rightarrow> memset (ram (world s)) p 5 PGSIZE)"
proof -
  obtain c where c: "acq KmemLock s = Inr (s\<lparr>cpu := c\<rparr>)" "hart_ok {KmemLock} c"
    using acq_ok [OF assms(1), of KmemLock] by auto
  show ?thesis
  proof (cases ps)
    case Nil
    then have "freelist (world s) = 0" using assms(2) by (simp add: free_pages_def)
    moreover obtain c' where "rel KmemLock (s\<lparr>cpu := c\<rparr>) = Inr (s\<lparr>cpu := c'\<rparr>)" "hart_ok {} c'"
      using rel_ok [of "{KmemLock}" "s\<lparr>cpu := c\<rparr>" KmemLock] c(2) by auto
    ultimately show ?thesis using Nil c(1) assms(2) by (simp add: kalloc_def Let_def)
  next
    case (Cons p qs)
    let ?s = "upd_kmem (get_le (ram (world s)) p 8) (ram (world s)) s"
    obtain c' where "rel KmemLock (?s\<lparr>cpu := c\<rparr>) = Inr (?s\<lparr>cpu := c'\<rparr>)" "hart_ok {} c'"
      using rel_ok [of "{KmemLock}" "?s\<lparr>cpu := c\<rparr>" KmemLock] c(2) by auto
    then show ?thesis using Cons c(1) free_pages_pop [OF assms(2) [unfolded Cons]] by (simp add: kalloc_def Let_def)
  qed
qed

text \<open>All pages between \<open>p\<close> and the end of memory, the last first.\<close>

lemma freerange_loop_ok:
  assumes "quiet {} s" and "free_pages kend s ps" and "p mod PGSIZE = 0" and "kend \<le> p" and "\<forall>x \<in> set ps. x < p"
    and "p \<le> PHYSTOP"
  shows "\<exists>s'. freerange_loop kend p PHYSTOP s = Inr s' \<and> quiet {} s' \<and>
    free_pages kend s' (rev (map (\<lambda>i. p + i * PGSIZE) [0..<(PHYSTOP - p) div PGSIZE]) @ ps)"
  using assms
proof (induction "(PHYSTOP - p) div PGSIZE" arbitrary: p ps s)
  case 0
  then have "\<not> p + PGSIZE \<le> PHYSTOP" by (auto simp: PGSIZE_def PHYSTOP_def)
  then show ?case using 0 by (subst freerange_loop.simps) simp
next
  case (Suc n)
  have le: "p + PGSIZE \<le> PHYSTOP"
  proof (rule ccontr)
    assume "\<not> p + PGSIZE \<le> PHYSTOP"
    then have "(PHYSTOP - p) div PGSIZE = 0" by (simp add: PGSIZE_def)
    then show False using Suc.hyps(2) by simp
  qed
  then have n: "(PHYSTOP - (p + PGSIZE)) div PGSIZE = n"
    using Suc.hyps(2) by (simp add: PGSIZE_def)
  obtain t where t: "kfree kend p s = Inr t" "quiet {} t" "free_pages kend t (p # ps)"
    using kfree_ok [OF Suc.prems(1,2), of p] Suc.prems(3-5) le by (auto simp: page_ok_def PGSIZE_def)
  obtain u where u: "freerange_loop kend (p + PGSIZE) PHYSTOP t = Inr u" "quiet {} u"
      "free_pages kend u (rev (map (\<lambda>i. p + PGSIZE + i * PGSIZE) [0..<n]) @ p # ps)"
    using Suc.hyps(1) [OF n [symmetric] t(2,3)] Suc.prems(3-5) le n by (fastforce simp: PGSIZE_def)
  have "map (\<lambda>i. p + i * PGSIZE) [0..<Suc n] = p # map (\<lambda>i. p + PGSIZE + i * PGSIZE) [0..<n]"
    by (simp add: upt_conv_Cons map_Suc_upt [symmetric] comp_def algebra_simps del: upt_Suc)
  then have "rev (map (\<lambda>i. p + i * PGSIZE) [0..<Suc n]) @ ps = rev (map (\<lambda>i. p + PGSIZE + i * PGSIZE) [0..<n]) @ p # ps"
    by (simp del: upt_Suc)
  moreover have "freerange_loop kend p PHYSTOP s = Inr u" using le t(1) u(1) by (subst freerange_loop.simps) simp
  ultimately show ?case using u(2,3) Suc.hyps(2) [symmetric] by simp
qed

section \<open>Properties\<close>

text \<open>C22: \<open>kalloc\<close> and \<open>kfree\<close> on the linked list in memory are a stack of free pages: \<open>kalloc\<close> takes the page on top, which is
  then on the list no more and holds 4096 bytes of value 5, or returns 0 if there is none; \<open>kfree\<close> puts a page that was not free back on top.
  The list stays well formed, no byte of any other page changes, and an address that is no page of free memory is a panic.\<close>

theorem kalloc_kfree_stack:
  assumes "quiet {} s" and "free_pages kend s ps"
  shows "(\<exists>s'. kalloc s = Inr (case ps of [] \<Rightarrow> 0 | p # _ \<Rightarrow> p, s') \<and> quiet {} s' \<and> free_pages kend s' (tl ps) \<and>
      (\<forall>q. ram (world s') q = (if ps \<noteq> [] \<and> in_page (hd ps) q then 5 else ram (world s) q))) \<and>
    (if page_ok kend pa
     then pa \<notin> set ps \<longrightarrow> (\<exists>s'. kfree kend pa s = Inr s' \<and> quiet {} s' \<and> free_pages kend s' (pa # ps) \<and>
       (\<forall>q. \<not> in_page pa q \<longrightarrow> ram (world s') q = ram (world s) q))
     else kfree kend pa s = Inl ''kfree'')"
proof (rule conjI)
  show "\<exists>s'. kalloc s = Inr (case ps of [] \<Rightarrow> 0 | p # _ \<Rightarrow> p, s') \<and> quiet {} s' \<and> free_pages kend s' (tl ps) \<and>
      (\<forall>q. ram (world s') q = (if ps \<noteq> [] \<and> in_page (hd ps) q then 5 else ram (world s) q))"
    using kalloc_ok [OF assms] by (cases ps) (auto simp: memset_eq in_page_def)
qed (use kfree_ok [OF assms, of pa] in \<open>auto simp: kfree_def page_ok_def\<close>)

text \<open>C32: \<open>kinit\<close> ends without a panic and puts every whole page between the end of the kernel and the end of memory on the list, once.\<close>

theorem kinit_frees_all:
  assumes "quiet {} s" and "freelist (world s) = 0" and "0 < kend" and "kend \<le> PHYSTOP"
  shows "\<exists>s' ps. kinit kend s = Inr s' \<and> quiet {} s' \<and> free_pages kend s' ps \<and> distinct ps \<and>
    set ps = {pa. pa mod PGSIZE = 0 \<and> kend \<le> pa \<and> pa + PGSIZE \<le> PHYSTOP}"
proof -
  define k where "k = (kend + 4095) div 4096"
  have up: "PGROUNDUP kend = k * 4096"
    unfolding PGROUNDUP_def k_def PGSIZE_def by (simp add: minus_mod_eq_div_mult)
  have stop: "PHYSTOP = 557056 * 4096" by (simp add: PHYSTOP_def)
  have iff: "kend \<le> j * 4096 \<longleftrightarrow> k \<le> j" for j
    using div_less_iff_less_mult [of 4096 "kend + 4095" "Suc j"] unfolding k_def less_Suc_eq_le by auto
  have k: "kend \<le> k * 4096" "k * 4096 \<le> PHYSTOP" "kend \<le> j * 4096 \<longleftrightarrow> k \<le> j" for j
    using iff [of k] iff [of 557056] iff [of j] assms(4) stop by simp_all
  have "free_pages kend s []" using assms(2,3) by (simp add: free_pages_def)
  from freerange_loop_ok [OF assms(1) this, of "k * 4096"] k(1,2) obtain s' where
    s': "kinit kend s = Inr s'" "quiet {} s'"
      "free_pages kend s' (rev (map (\<lambda>i. k * 4096 + i * PGSIZE) [0..<(PHYSTOP - k * 4096) div PGSIZE]))"
    by (auto simp: kinit_def freerange_def up PGSIZE_def)
  have cnt: "(PHYSTOP - k * 4096) div PGSIZE = 557056 - k"
    unfolding stop PGSIZE_def by (simp add: left_diff_distrib [symmetric] del: left_diff_distrib)
  have each: "(\<exists>i < 557056 - k. pa = k * 4096 + i * 4096) \<longleftrightarrow> pa mod 4096 = 0 \<and> kend \<le> pa \<and> pa + 4096 \<le> 557056 * 4096" for pa
  proof
    assume "\<exists>i < 557056 - k. pa = k * 4096 + i * 4096"
    then obtain i where "i < 557056 - k" "pa = (k + i) * 4096" by (auto simp: algebra_simps)
    then show "pa mod 4096 = 0 \<and> kend \<le> pa \<and> pa + 4096 \<le> 557056 * 4096" using k(3) [of "k + i"] by simp
  next
    assume a: "pa mod 4096 = 0 \<and> kend \<le> pa \<and> pa + 4096 \<le> 557056 * 4096"
    then obtain j where j: "pa = j * 4096" by (metis mod_0_imp_dvd dvd_div_mult_self)
    then have "k \<le> j" "j < 557056" using a k(3) [of j] by simp_all
    then show "\<exists>i < 557056 - k. pa = k * 4096 + i * 4096"
      using j by (intro exI [of _ "j - k"]) (simp add: add_mult_distrib [symmetric])
  qed
  have "set (rev (map (\<lambda>i. k * 4096 + i * PGSIZE) [0..<(PHYSTOP - k * 4096) div PGSIZE])) =
      {pa. \<exists>i < 557056 - k. pa = k * 4096 + i * 4096}"
    unfolding cnt by (auto simp: PGSIZE_def)
  then have "set (rev (map (\<lambda>i. k * 4096 + i * PGSIZE) [0..<(PHYSTOP - k * 4096) div PGSIZE])) =
      {pa. pa mod PGSIZE = 0 \<and> kend \<le> pa \<and> pa + PGSIZE \<le> PHYSTOP}"
    unfolding each stop PGSIZE_def .
  then show ?thesis using s' by (auto simp: free_pages_def)
qed

definition example_ram :: "unit kmem_world_scheme" where
  "example_ram = \<lparr>freelist = 0, ram = (\<lambda>_. 0)\<rparr>"

theorem kinit_frees_all_witness:
  "\<exists>s' ps. kinit 2281693184 (solo {} example_ram) = Inr s' \<and> free_pages 2281693184 s' ps \<and>
    set ps = {pa. pa mod PGSIZE = 0 \<and> 2281693184 \<le> pa \<and> pa + PGSIZE \<le> PHYSTOP}"
  using kinit_frees_all [of "solo {} example_ram" 2281693184] by (auto simp: example_ram_def PHYSTOP_def)

theorem kalloc_kfree_stack_witness:
  "\<exists>s'. kfree 4096 8192 (solo {} example_ram) = Inr s' \<and> free_pages 4096 s' [8192]"
proof -
  have "free_pages 4096 (solo {} example_ram) []" by (simp add: free_pages_def example_ram_def)
  from kalloc_kfree_stack [of "solo {} example_ram" 4096 "[]" 8192, OF _ this]
  show ?thesis by (auto simp: page_ok_def PGSIZE_def PHYSTOP_def)
qed

end
