(* ===== verification/Kernel_Sleeplock.thy ===== *)
theory Kernel_Sleeplock
  imports Kernel_Blocking
begin

text \<open>
  Sleep locks, \<^verbatim>\<open>xv6/kernel/sleeplock.c\<close>.  A sleep lock is embedded in another structure of the field
  \<open>world\<close>; \<open>get\<close> and \<open>put\<close> access it there, and the number \<open>n\<close> names its spin lock and its channel.
\<close>

record sleeplock =
  slocked :: int
  spid :: int

definition initsleeplock :: sleeplock where
  "initsleeplock = \<lparr>slocked = 0, spid = 0\<rparr>"

definition acquiresleep_loop :: "nat \<Rightarrow> ('w \<Rightarrow> sleeplock) \<Rightarrow> (sleeplock \<Rightarrow> 'w \<Rightarrow> 'w) \<Rightarrow> 'w kernel \<Rightarrow>
    ((unit, unit) outcome \<times> 'w kernel) res" where
  "acquiresleep_loop n get put s =
    (if slocked (get (world s)) \<noteq> 0 then seq (sleep (SleepChan n) (SleepLock n) s) (\<lambda>s. Inr (Slept (), s))
     else case cproc s of None \<Rightarrow> Inl ''acquiresleep: no process''
       | Some p \<Rightarrow> seq (rel (SleepLock n) (s\<lparr>world := put \<lparr>slocked = 1, spid = pid (procs s ! p)\<rparr> (world s)\<rparr>))
           (\<lambda>s. Inr (Returned (), s)))"

definition acquiresleep :: "nat \<Rightarrow> ('w \<Rightarrow> sleeplock) \<Rightarrow> (sleeplock \<Rightarrow> 'w \<Rightarrow> 'w) \<Rightarrow> 'w kernel \<Rightarrow>
    ((unit, unit) outcome \<times> 'w kernel) res" where
  "acquiresleep n get put s = seq (acq (SleepLock n) s) (acquiresleep_loop n get put)"

definition releasesleep :: "nat \<Rightarrow> (sleeplock \<Rightarrow> 'w \<Rightarrow> 'w) \<Rightarrow> 'w kernel \<Rightarrow> 'w kernel res" where
  "releasesleep n put s =
    seq (acq (SleepLock n) s) (\<lambda>s.
    seq (wakeup (SleepChan n) (s\<lparr>world := put \<lparr>slocked = 0, spid = 0\<rparr> (world s)\<rparr>)) (rel (SleepLock n)))"

definition holdingsleep :: "nat \<Rightarrow> ('w \<Rightarrow> sleeplock) \<Rightarrow> 'w kernel \<Rightarrow> (bool \<times> 'w kernel) res" where
  "holdingsleep n get s =
    seq (acq (SleepLock n) s) (\<lambda>s.
    case cproc s of None \<Rightarrow> Inl ''holdingsleep: no process''
    | Some p \<Rightarrow>
        let r = (slocked (get (world s)) \<noteq> 0 \<and> spid (get (world s)) = pid (procs s ! p))
        in seq (rel (SleepLock n) s) (\<lambda>s. Inr (r, s)))"

section \<open>Lemmas\<close>

text \<open>
  A process at rest: it runs, holds no spin lock, and the scheduler's invariant holds.  Calls that do not sleep lead from
  such a state to one whose hart and ready queues may differ, and in which other processes may have been woken.
\<close>

definition resting :: "nat \<Rightarrow> int \<Rightarrow> 'w kernel \<Rightarrow> bool" where
  "resting p k s \<longleftrightarrow> quiet {} s \<and> sched_inv s \<and> cproc s = Some p \<and> pid (procs s ! p) = k"

lemma resting_cpu: "resting p k s \<Longrightarrow> hart_ok {} c \<Longrightarrow> resting p k (s\<lparr>cpu := c\<rparr>)"
  by (simp add: resting_def)

lemma resting_world [simp]: "resting p k (s\<lparr>world := w\<rparr>) = resting p k s"
  by (simp add: resting_def)

lemma resting_wakeup:
  assumes "resting p k s" and "lk \<noteq> MlfqLock" and "\<And>i. lk \<noteq> PLock i" and "hart_ok {lk} c"
  shows "\<exists>u. wakeup ch (s\<lparr>cpu := c\<rparr>) = Inr u \<and> quiet {lk} u \<and> world u = world s \<and>
    (\<forall>c'. hart_ok {} c' \<longrightarrow> resting p k (u\<lparr>cpu := c'\<rparr>))"
proof -
  have s: "sched_inv s" "cproc s = Some p" "pid (procs s ! p) = k" using assms(1) by (simp_all add: resting_def)
  obtain u where u: "wakeup ch (s\<lparr>cpu := c\<rparr>) = Inr u" "quiet {lk} u" "sched_inv u" "woken_upto NPROC ch (s\<lparr>cpu := c\<rparr>) u"
    using wakeup_ok [of "{lk}" "s\<lparr>cpu := c\<rparr>" ch] assms(2-4) s(1) by auto
  then have w: "after_wakeup ch s u" by (simp add: after_wakeup_def)
  have "p < length (procs s)" using s(1,2) by (simp add: sched_inv_def running_ok_def)
  then have "pid (procs u ! p) = k"
    using after_wakeup_procs(1) [OF w] s(3) by (simp add: woken_def)
  then show ?thesis
    using u after_wakeup_procs(2,3) [OF w] s(2) by (simp add: resting_def)
qed

lemma resting_acq:
  assumes "resting p k s"
  shows "\<exists>c. acq lk s = Inr (s\<lparr>cpu := c\<rparr>) \<and> hart_ok {lk} c"
  using acq_ok [of "{}" s lk] assms by (auto simp: resting_def)

lemma resting_rel:
  assumes "quiet {lk} s"
  shows "\<exists>c. rel lk s = Inr (s\<lparr>cpu := c\<rparr>) \<and> hart_ok {} c"
  using rel_ok [OF assms, of lk] by auto

lemma acquiresleep_ok:
  assumes "resting p k s" and "slocked (get (world s)) = 0"
  shows "\<exists>s'. acquiresleep n get put s = Inr (Returned (), s') \<and> resting p k s' \<and>
    world s' = put \<lparr>slocked = 1, spid = k\<rparr> (world s)"
proof -
  let ?w = "put \<lparr>slocked = 1, spid = k\<rparr> (world s)"
  obtain c where c: "acq (SleepLock n) s = Inr (s\<lparr>cpu := c\<rparr>)" "hart_ok {SleepLock n} c"
    using resting_acq [OF assms(1)] by blast
  obtain c' where c': "rel (SleepLock n) (s\<lparr>world := ?w, cpu := c\<rparr>) = Inr (s\<lparr>world := ?w, cpu := c'\<rparr>)" "hart_ok {} c'"
    using resting_rel [of "SleepLock n" "s\<lparr>world := ?w, cpu := c\<rparr>"] c(2) by auto
  have "cproc s = Some p" "pid (procs s ! p) = k" using assms(1) by (simp_all add: resting_def)
  then have "acquiresleep n get put s = Inr (Returned (), s\<lparr>world := ?w, cpu := c'\<rparr>)"
    using c(1) c'(1) assms(2) by (simp add: acquiresleep_def acquiresleep_loop_def)
  moreover have "resting p k (s\<lparr>world := ?w, cpu := c'\<rparr>)" using resting_cpu [of p k "s\<lparr>world := ?w\<rparr>"] assms(1) c'(2) by simp
  ultimately show ?thesis by auto
qed

lemma releasesleep_ok:
  assumes "resting p k s"
  shows "\<exists>s'. releasesleep n put s = Inr s' \<and> resting p k s' \<and> world s' = put \<lparr>slocked = 0, spid = 0\<rparr> (world s)"
proof -
  let ?s = "s\<lparr>world := put \<lparr>slocked = 0, spid = 0\<rparr> (world s)\<rparr>"
  obtain c where c: "acq (SleepLock n) s = Inr (s\<lparr>cpu := c\<rparr>)" "hart_ok {SleepLock n} c"
    using resting_acq [OF assms] by blast
  obtain u where u: "wakeup (SleepChan n) (?s\<lparr>cpu := c\<rparr>) = Inr u" "quiet {SleepLock n} u" "world u = world ?s"
      "\<forall>c'. hart_ok {} c' \<longrightarrow> resting p k (u\<lparr>cpu := c'\<rparr>)"
    using resting_wakeup [of p k ?s "SleepLock n" c "SleepChan n"] assms c(2) by auto
  then show ?thesis using resting_rel [OF u(2)] c(1) by (auto simp: releasesleep_def)
qed

lemma holdingsleep_ok:
  assumes "resting p k s"
  shows "\<exists>s'. holdingsleep n get s = Inr (slocked (get (world s)) \<noteq> 0 \<and> spid (get (world s)) = k, s') \<and> resting p k s' \<and>
    world s' = world s"
proof -
  obtain c where c: "acq (SleepLock n) s = Inr (s\<lparr>cpu := c\<rparr>)" "hart_ok {SleepLock n} c"
    using resting_acq [OF assms] by blast
  obtain c' where "rel (SleepLock n) (s\<lparr>cpu := c\<rparr>) = Inr (s\<lparr>cpu := c'\<rparr>)" "hart_ok {} c'"
    using resting_rel [of "SleepLock n" "s\<lparr>cpu := c\<rparr>"] c(2) by auto
  then show ?thesis using c(1) assms resting_cpu [OF assms] by (auto simp: holdingsleep_def resting_def Let_def)
qed

end
