(* ===== verification/Kernel_Bio.thy ===== *)
theory Kernel_Bio
  imports Kernel_Sleeplock Kernel_Example
begin

text \<open>
  The buffer cache, \<^verbatim>\<open>xv6/kernel/bio.c\<close>.  A buffer is its index in the array \<open>bcache.buf\<close>; the ring through
  \<open>prev\<close> and \<open>next\<close> is the list \<open>lru\<close> of its elements, \<open>head.next\<close> first.  The disk holds the blocks;
  \<open>virtio_disk_rw\<close> returns when the transfer is done, and \<open>io\<close> records the writes in the order in which they were done.
  A call that waits for the lock of a buffer ends with \<open>Slept b\<close>; it goes on with \<open>acquiresleep_loop\<close>.
\<close>

section \<open>State\<close>

definition MAXOPBLOCKS :: nat where "MAXOPBLOCKS = 10"
definition NBUF :: nat where "NBUF = MAXOPBLOCKS * 3"

type_synonym block = "byte list"

record buf =
  valid :: int
  dev :: nat
  blockno :: nat
  buf_lock :: sleeplock
  refcnt :: int
  data :: block

record bcache_world =
  bufs :: "buf list"
  lru :: "nat list"
  disk :: "nat \<Rightarrow> nat \<Rightarrow> block"
  io :: "(nat \<times> nat \<times> block) list"

type_synonym 'a bkernel = "'a bcache_world_scheme kernel"

definition buf_of :: "nat \<Rightarrow> 'a bkernel \<Rightarrow> buf" where
  "buf_of b s = bufs (world s) ! b"

definition upd_buf :: "nat \<Rightarrow> (buf \<Rightarrow> buf) \<Rightarrow> 'a bkernel \<Rightarrow> 'a bkernel" where
  "upd_buf b f s = s\<lparr>world := (world s)\<lparr>bufs := (bufs (world s))[b := f (bufs (world s) ! b)]\<rparr>\<rparr>"

definition get_lock :: "nat \<Rightarrow> 'a bcache_world_scheme \<Rightarrow> sleeplock" where
  "get_lock b w = buf_lock (bufs w ! b)"

definition put_lock :: "nat \<Rightarrow> sleeplock \<Rightarrow> 'a bcache_world_scheme \<Rightarrow> 'a bcache_world_scheme" where
  "put_lock b l w = w\<lparr>bufs := (bufs w)[b := (bufs w ! b)\<lparr>buf_lock := l\<rparr>]\<rparr>"

section \<open>Operations\<close>

definition binit_one :: "nat \<Rightarrow> 'a bkernel \<Rightarrow> 'a bkernel" where
  "binit_one b s = (let s = upd_buf b (\<lambda>x. x\<lparr>buf_lock := initsleeplock\<rparr>) s in s\<lparr>world := (world s)\<lparr>lru := b # lru (world s)\<rparr>\<rparr>)"

definition binit :: "'a bkernel \<Rightarrow> 'a bkernel" where
  "binit s = fold binit_one [0..<NBUF] (s\<lparr>world := (world s)\<lparr>lru := []\<rparr>\<rparr>)"

definition virtio_disk_rw :: "nat \<Rightarrow> bool \<Rightarrow> 'a bkernel \<Rightarrow> 'a bkernel" where
  "virtio_disk_rw b writing s =
    (let x = buf_of b s; w = world s in
     if writing then s\<lparr>world := w\<lparr>disk := (disk w)(dev x := (disk w (dev x))(blockno x := data x)),
       io := io w @ [(dev x, blockno x, data x)]\<rparr>\<rparr>
     else upd_buf b (\<lambda>x. x\<lparr>data := disk w (dev x) (blockno x)\<rparr>) s)"

definition lock_buf :: "nat \<Rightarrow> 'a bkernel \<Rightarrow> ((nat, nat) outcome \<times> 'a bkernel) res" where
  "lock_buf b s =
    seq (acquiresleep b (get_lock b) (put_lock b) s) (\<lambda>(r, s).
      Inr (case r of Slept _ \<Rightarrow> Slept b | Returned _ \<Rightarrow> Returned b, s))"

definition bget :: "nat \<Rightarrow> nat \<Rightarrow> 'a bkernel \<Rightarrow> ((nat, nat) outcome \<times> 'a bkernel) res" where
  "bget d n s =
    seq (acq BcacheLock s) (\<lambda>s.
    case find (\<lambda>b. dev (buf_of b s) = d \<and> blockno (buf_of b s) = n) (lru (world s)) of
      Some b \<Rightarrow> seq (rel BcacheLock (upd_buf b (\<lambda>x. x\<lparr>refcnt := refcnt x + 1\<rparr>) s)) (lock_buf b)
    | None \<Rightarrow> (case find (\<lambda>b. refcnt (buf_of b s) = 0) (rev (lru (world s))) of
        Some b \<Rightarrow> seq (rel BcacheLock (upd_buf b (\<lambda>x. x\<lparr>dev := d, blockno := n, valid := 0, refcnt := 1\<rparr>) s)) (lock_buf b)
      | None \<Rightarrow> Inl ''bget: no buffers''))"

definition bread :: "nat \<Rightarrow> nat \<Rightarrow> 'a bkernel \<Rightarrow> ((nat, nat) outcome \<times> 'a bkernel) res" where
  "bread d n s =
    seq (bget d n s) (\<lambda>(r, s).
      case r of Slept b \<Rightarrow> Inr (Slept b, s)
      | Returned b \<Rightarrow>
          Inr (Returned b, if valid (buf_of b s) = 0
            then upd_buf b (\<lambda>x. x\<lparr>valid := 1\<rparr>) (virtio_disk_rw b False s) else s))"

definition bwrite :: "nat \<Rightarrow> 'a bkernel \<Rightarrow> 'a bkernel res" where
  "bwrite b s =
    seq (holdingsleep b (get_lock b) s) (\<lambda>(h, s). if \<not> h then Inl ''bwrite'' else Inr (virtio_disk_rw b True s))"

definition move_front :: "nat \<Rightarrow> nat list \<Rightarrow> nat list" where
  "move_front b l = b # remove1 b l"

definition brelse :: "nat \<Rightarrow> 'a bkernel \<Rightarrow> 'a bkernel res" where
  "brelse b s =
    seq (holdingsleep b (get_lock b) s) (\<lambda>(h, s).
    if \<not> h then Inl ''brelse''
    else seq (releasesleep b (put_lock b) s) (\<lambda>s.
      seq (acq BcacheLock s) (\<lambda>s.
        let s = upd_buf b (\<lambda>x. x\<lparr>refcnt := refcnt x - 1\<rparr>) s;
            s = (if refcnt (buf_of b s) = 0 then s\<lparr>world := (world s)\<lparr>lru := move_front b (lru (world s))\<rparr>\<rparr> else s)
        in rel BcacheLock s)))"

definition bpin :: "nat \<Rightarrow> 'a bkernel \<Rightarrow> 'a bkernel res" where
  "bpin b s = with_lock BcacheLock (\<lambda>s. Inr (upd_buf b (\<lambda>x. x\<lparr>refcnt := refcnt x + 1\<rparr>) s)) s"

definition bunpin :: "nat \<Rightarrow> 'a bkernel \<Rightarrow> 'a bkernel res" where
  "bunpin b s = with_lock BcacheLock (\<lambda>s. Inr (upd_buf b (\<lambda>x. x\<lparr>refcnt := refcnt x - 1\<rparr>) s)) s"

section \<open>The invariant of the cache\<close>

text \<open>
  The cache as one process sees it that holds the buffers \<open>held\<close> and no other process holds any; \<open>pins b\<close> counts the calls of
  \<open>bpin\<close> on a buffer.  Buffers nobody refers to agree with the disk, so they can be recycled.  Device 0 names no disk: it is what
  unused buffers have.
\<close>

definition buf_ok :: "bool \<Rightarrow> nat \<Rightarrow> int \<Rightarrow> (nat \<Rightarrow> nat \<Rightarrow> block) \<Rightarrow> buf \<Rightarrow> bool" where
  "buf_ok held pins k dsk x \<longleftrightarrow> refcnt x = (if held then 1 else 0) + int pins \<and>
     (if held then buf_lock x = \<lparr>slocked = 1, spid = k\<rparr> else slocked (buf_lock x) = 0) \<and>
     (valid x = 0 \<longrightarrow> \<not> held \<and> pins = 0) \<and>
     (refcnt x = 0 \<and> valid x \<noteq> 0 \<and> dev x \<noteq> 0 \<longrightarrow> data x = dsk (dev x) (blockno x))"

definition cache_ok :: "nat set \<Rightarrow> (nat \<Rightarrow> nat) \<Rightarrow> int \<Rightarrow> 'a bcache_world_scheme \<Rightarrow> bool" where
  "cache_ok held pins k w \<longleftrightarrow> length (bufs w) = NBUF \<and> distinct (lru w) \<and> set (lru w) = {..<NBUF} \<and>
     (\<forall>i < NBUF. \<forall>j < NBUF. dev (bufs w ! i) \<noteq> 0 \<and> dev (bufs w ! i) = dev (bufs w ! j) \<and>
        blockno (bufs w ! i) = blockno (bufs w ! j) \<longrightarrow> i = j) \<and>
     (\<forall>i < NBUF. buf_ok (i \<in> held) (pins i) k (disk w) (bufs w ! i))"

text \<open>The contents of a block: what a buffer has of it, else what the disk has.\<close>

definition caches :: "nat \<Rightarrow> nat \<Rightarrow> buf \<Rightarrow> bool" where
  "caches d n x \<longleftrightarrow> dev x = d \<and> blockno x = n \<and> valid x \<noteq> 0"

definition content :: "'a bcache_world_scheme \<Rightarrow> nat \<Rightarrow> nat \<Rightarrow> block" where
  "content w d n = (case find (caches d n) (bufs w) of Some x \<Rightarrow> data x | None \<Rightarrow> disk w d n)"

lemma content_cached:
  assumes "cache_ok held pins k w" and "i < NBUF" and "caches d n (bufs w ! i)" and "d \<noteq> 0"
  shows "content w d n = data (bufs w ! i)"
proof -
  have "j = i" if "j < NBUF" "caches d n (bufs w ! j)" for j
    using assms that by (auto simp: cache_ok_def caches_def)
  then have "find (caches d n) (bufs w) = Some (bufs w ! i)"
    using assms(1-3) unfolding find_Some_iff cache_ok_def by (metis (full_types) order.strict_trans order_less_irrefl)
  then show ?thesis by (simp add: content_def)
qed

lemma content_uncached:
  assumes "length (bufs w) = NBUF" and "\<And>i. i < NBUF \<Longrightarrow> \<not> caches d n (bufs w ! i)"
  shows "content w d n = disk w d n"
proof -
  have "find (caches d n) (bufs w) = None" using assms by (auto simp: find_None_iff in_set_conv_nth)
  then show ?thesis by (simp add: content_def)
qed

text \<open>The contents do not depend on locks, reference counts and the order of use.\<close>

definition kept_part :: "buf \<Rightarrow> nat \<times> nat \<times> int \<times> block" where
  "kept_part x = (dev x, blockno x, valid x, data x)"

lemma content_cong:
  assumes "map kept_part (bufs w') = map kept_part (bufs w)" and "disk w' = disk w"
  shows "content w' d n = content w d n"
proof -
  have "(case find (caches d n) xs of Some x \<Rightarrow> data x | None \<Rightarrow> z) =
      (case find (\<lambda>(a, b, v, _). a = d \<and> b = n \<and> v \<noteq> 0) (map kept_part xs) of Some (_, _, _, y) \<Rightarrow> y | None \<Rightarrow> z)" for xs z
    by (induction xs) (auto simp: caches_def kept_part_def)
  then show ?thesis unfolding content_def by (simp only: assms)
qed

lemma content_same_part:
  assumes "kept_part x = kept_part (bufs w ! b)"
  shows "content (w\<lparr>bufs := (bufs w)[b := x]\<rparr>) d n = content w d n"
    "content (w\<lparr>bufs := (bufs w)[b := x], lru := l\<rparr>) d n = content w d n"
proof -
  have "map kept_part ((bufs w)[b := x]) = map kept_part (bufs w)"
    using assms by (cases "b < length (bufs w)") (simp_all add: map_update list_update_same_conv list_update_beyond)
  then show "content (w\<lparr>bufs := (bufs w)[b := x]\<rparr>) d n = content w d n"
    "content (w\<lparr>bufs := (bufs w)[b := x], lru := l\<rparr>) d n = content w d n"
    by (auto intro!: content_cong)
qed

lemma cache_ok_upd:
  assumes "cache_ok held pins k w" and "b < NBUF" and "buf_ok (b \<in> held') (pins' b) k (disk w) x"
    and "\<And>i. i < NBUF \<Longrightarrow> i \<noteq> b \<Longrightarrow> (i \<in> held' \<longleftrightarrow> i \<in> held) \<and> pins' i = pins i"
    and "\<And>i. i < NBUF \<Longrightarrow> i \<noteq> b \<Longrightarrow> \<not> (dev x \<noteq> 0 \<and> dev (bufs w ! i) = dev x \<and> blockno (bufs w ! i) = blockno x)"
  shows "cache_ok held' pins' k (w\<lparr>bufs := (bufs w)[b := x]\<rparr>)"
proof -
  have w: "length (bufs w) = NBUF" "distinct (lru w)" "set (lru w) = {..<NBUF}"
    and ok: "\<And>i. i < NBUF \<Longrightarrow> buf_ok (i \<in> held) (pins i) k (disk w) (bufs w ! i)"
    and uniq: "\<And>i j. i < NBUF \<Longrightarrow> j < NBUF \<Longrightarrow> dev (bufs w ! i) \<noteq> 0 \<and> dev (bufs w ! i) = dev (bufs w ! j) \<and>
        blockno (bufs w ! i) = blockno (bufs w ! j) \<Longrightarrow> i = j"
    using assms(1) by (auto simp: cache_ok_def)
  have "i = j" if "i < NBUF" "j < NBUF" "dev ((bufs w)[b := x] ! i) \<noteq> 0" "dev ((bufs w)[b := x] ! i) = dev ((bufs w)[b := x] ! j)"
      "blockno ((bufs w)[b := x] ! i) = blockno ((bufs w)[b := x] ! j)" for i j
    using that uniq [of i j] assms(5) [of i] assms(5) [of j] w(1) by (cases "i = b"; cases "j = b") auto
  moreover have "buf_ok (i \<in> held') (pins' i) k (disk w) ((bufs w)[b := x] ! i)" if "i < NBUF" for i
    using that ok [of i] assms(3,4) w(1) by (cases "i = b") auto
  ultimately show ?thesis using w unfolding cache_ok_def by simp
qed

text \<open>Contents that change at most by one buffer, which has another block or other data.\<close>

lemma content_upd:
  assumes "cache_ok held pins k w" and "cache_ok held' pins' k (w\<lparr>bufs := (bufs w)[b := x]\<rparr>)" and "b < NBUF" and "d \<noteq> 0"
    and "\<not> caches d n x" and "caches d n (bufs w ! b) \<Longrightarrow> data (bufs w ! b) = disk w d n"
  shows "content (w\<lparr>bufs := (bufs w)[b := x]\<rparr>) d n = content w d n"
proof (cases "\<exists>i < NBUF. i \<noteq> b \<and> caches d n (bufs w ! i)")
  case True
  then obtain i where i: "i < NBUF" "i \<noteq> b" "caches d n (bufs w ! i)" by blast
  then show ?thesis
    using content_cached [OF assms(1) i(1,3) assms(4)] content_cached [OF assms(2) i(1) _ assms(4), of n] by simp
next
  case False
  have len: "length (bufs w) = NBUF" using assms(1) by (simp add: cache_ok_def)
  have "\<not> caches d n ((bufs w)[b := x] ! i)" if "i < NBUF" for i
    using that False assms(5) len by (cases "i = b") auto
  then have "content (w\<lparr>bufs := (bufs w)[b := x]\<rparr>) d n = disk w d n"
    using content_uncached [of "w\<lparr>bufs := (bufs w)[b := x]\<rparr>" d n] len by simp
  moreover have "content w d n = disk w d n"
    using content_cached [OF assms(1,3) _ assms(4)] content_uncached [of w d n] False assms(6) len by metis
  ultimately show ?thesis by simp
qed

section \<open>What the operations do\<close>

lemma bufs_upd_buf: "world (upd_buf b f s) = (world s)\<lparr>bufs := (bufs (world s))[b := f (bufs (world s) ! b)]\<rparr>"
  by (simp add: upd_buf_def)

lemma upd_buf_cpu [simp]: "upd_buf b f (s\<lparr>cpu := c\<rparr>) = (upd_buf b f s)\<lparr>cpu := c\<rparr>" "buf_of b (s\<lparr>cpu := c\<rparr>) = buf_of b s"
  "quiet L (upd_buf b f s) = quiet L s" "resting p k (upd_buf b f s) = resting p k s"
  by (simp_all add: upd_buf_def buf_of_def)

lemma find_memD: "find P l = Some b \<Longrightarrow> b \<in> set l \<and> P b"
  by (auto simp: find_Some_iff)

lemma lock_buf_ok:
  assumes "resting p k s" and "b < length (bufs (world s))" and "slocked (buf_lock (bufs (world s) ! b)) = 0"
  shows "\<exists>s'. lock_buf b s = Inr (Returned b, s') \<and> resting p k s' \<and>
    world s' = (world s)\<lparr>bufs := (bufs (world s))[b := (bufs (world s) ! b)\<lparr>buf_lock := \<lparr>slocked = 1, spid = k\<rparr>\<rparr>]\<rparr>"
  using acquiresleep_ok [of p k s "get_lock b" b "put_lock b"] assms
  by (auto simp: lock_buf_def get_lock_def put_lock_def)

lemma bget_ok:
  assumes "resting p k s" and "cache_ok held pins k (world s)"
    and "\<And>i. i \<in> held \<Longrightarrow> \<not> (dev (buf_of i s) = d \<and> blockno (buf_of i s) = n)"
    and "(\<exists>i < NBUF. dev (buf_of i s) = d \<and> blockno (buf_of i s) = n) \<or> (\<exists>i < NBUF. refcnt (buf_of i s) = 0)"
  shows "\<exists>b x s'. bget d n s = Inr (Returned b, s') \<and> resting p k s' \<and> b < NBUF \<and> b \<notin> held \<and>
    world s' = (world s)\<lparr>bufs := (bufs (world s))[b := x\<lparr>buf_lock := \<lparr>slocked = 1, spid = k\<rparr>\<rparr>]\<rparr> \<and>
    (dev (buf_of b s) = d \<and> blockno (buf_of b s) = n \<and> x = (buf_of b s)\<lparr>refcnt := refcnt (buf_of b s) + 1\<rparr> \<or>
     (\<forall>i < NBUF. \<not> (dev (buf_of i s) = d \<and> blockno (buf_of i s) = n)) \<and> refcnt (buf_of b s) = 0 \<and>
       x = (buf_of b s)\<lparr>dev := d, blockno := n, valid := 0, refcnt := 1\<rparr>)"
proof -
  have w: "length (bufs (world s)) = NBUF" "set (lru (world s)) = {..<NBUF}"
    and ok: "\<And>i. i < NBUF \<Longrightarrow> buf_ok (i \<in> held) (pins i) k (disk (world s)) (buf_of i s)"
    using assms(2) by (simp_all add: cache_ok_def buf_of_def)
  obtain c where c: "acq BcacheLock s = Inr (s\<lparr>cpu := c\<rparr>)" "hart_ok {BcacheLock} c" using resting_acq [OF assms(1)] by blast
  have get: "\<exists>s'. seq (rel BcacheLock ((upd_buf b f s)\<lparr>cpu := c\<rparr>)) (lock_buf b) = Inr (Returned b, s') \<and> resting p k s' \<and>
      world s' = (world s)\<lparr>bufs := (bufs (world s))[b := (f (buf_of b s))\<lparr>buf_lock := \<lparr>slocked = 1, spid = k\<rparr>\<rparr>]\<rparr>"
    if b: "b < NBUF" "slocked (buf_lock (f (buf_of b s))) = 0" for b f
  proof -
    obtain c' where "rel BcacheLock ((upd_buf b f s)\<lparr>cpu := c\<rparr>) = Inr ((upd_buf b f s)\<lparr>cpu := c'\<rparr>)" "hart_ok {} c'"
      using resting_rel [of BcacheLock "(upd_buf b f s)\<lparr>cpu := c\<rparr>"] c(2) by auto
    moreover have "resting p k ((upd_buf b f s)\<lparr>cpu := c'\<rparr>)" using resting_cpu [of p k "upd_buf b f s" c'] assms(1) calculation(2) by simp
    ultimately show ?thesis
      using lock_buf_ok [of p k "(upd_buf b f s)\<lparr>cpu := c'\<rparr>" b] b w(1) by (auto simp: bufs_upd_buf buf_of_def)
  qed
  show ?thesis
  proof (cases "find (\<lambda>b. dev (buf_of b s) = d \<and> blockno (buf_of b s) = n) (lru (world s))")
    case (Some b)
    then have b: "b < NBUF" "dev (buf_of b s) = d \<and> blockno (buf_of b s) = n" using find_memD w(2) by fastforce+
    then have nh: "b \<notin> held" using assms(3) by blast
    then have "slocked (buf_lock (buf_of b s)) = 0" using ok [OF b(1)] by (simp add: buf_ok_def)
    from get [of b "\<lambda>x. x\<lparr>refcnt := refcnt x + 1\<rparr>"] b(1) this obtain s' where
      "seq (rel BcacheLock ((upd_buf b (\<lambda>x. x\<lparr>refcnt := refcnt x + 1\<rparr>) s)\<lparr>cpu := c\<rparr>)) (lock_buf b) = Inr (Returned b, s')" "resting p k s'"
      "world s' = (world s)\<lparr>bufs := (bufs (world s))[b := (buf_of b s)\<lparr>refcnt := refcnt (buf_of b s) + 1, buf_lock := \<lparr>slocked = 1, spid = k\<rparr>\<rparr>]\<rparr>"
      by auto
    then show ?thesis using Some c(1) b nh
      by (intro exI [of _ b] exI [of _ "(buf_of b s)\<lparr>refcnt := refcnt (buf_of b s) + 1\<rparr>"] exI [of _ s']) (simp add: bget_def)
  next
    case None
    then have no: "\<forall>i < NBUF. \<not> (dev (buf_of i s) = d \<and> blockno (buf_of i s) = n)" using w(2) by (auto simp: find_None_iff)
    then obtain i where "i < NBUF" "refcnt (buf_of i s) = 0" using assms(4) by blast
    then have "find (\<lambda>b. refcnt (buf_of b s) = 0) (rev (lru (world s))) \<noteq> None" using w(2) by (auto simp: find_None_iff)
    then obtain b where f: "find (\<lambda>b. refcnt (buf_of b s) = 0) (rev (lru (world s))) = Some b" by blast
    then have b: "b < NBUF" "refcnt (buf_of b s) = 0" using find_memD w(2) by fastforce+
    then have nh: "b \<notin> held" "slocked (buf_lock (buf_of b s)) = 0" using ok [OF b(1)] by (auto simp: buf_ok_def split: if_splits)
    from get [of b "\<lambda>x. x\<lparr>dev := d, blockno := n, valid := 0, refcnt := 1\<rparr>"] b(1) nh(2) obtain s' where
      "seq (rel BcacheLock ((upd_buf b (\<lambda>x. x\<lparr>dev := d, blockno := n, valid := 0, refcnt := 1\<rparr>) s)\<lparr>cpu := c\<rparr>)) (lock_buf b) = Inr (Returned b, s')"
      "resting p k s'" "world s' = (world s)\<lparr>bufs := (bufs (world s))[b :=
        (buf_of b s)\<lparr>dev := d, blockno := n, valid := 0, refcnt := 1, buf_lock := \<lparr>slocked = 1, spid = k\<rparr>\<rparr>]\<rparr>"
      by auto
    then show ?thesis using None f c(1) b nh(1) no
      by (intro exI [of _ b] exI [of _ "(buf_of b s)\<lparr>dev := d, blockno := n, valid := 0, refcnt := 1\<rparr>"] exI [of _ s']) (simp add: bget_def)
  qed
qed

lemma bread_ok:
  assumes "resting p k s" and "cache_ok held pins k (world s)" and "d \<noteq> 0"
    and "\<And>i. i \<in> held \<Longrightarrow> \<not> (dev (buf_of i s) = d \<and> blockno (buf_of i s) = n)"
    and "(\<exists>i < NBUF. dev (buf_of i s) = d \<and> blockno (buf_of i s) = n) \<or> (\<exists>i < NBUF. refcnt (buf_of i s) = 0)"
  shows "\<exists>b y s'. bread d n s = Inr (Returned b, s') \<and> resting p k s' \<and> b < NBUF \<and> b \<notin> held \<and>
    world s' = (world s)\<lparr>bufs := (bufs (world s))[b := y]\<rparr> \<and> cache_ok (insert b held) pins k (world s') \<and>
    caches d n y \<and> data y = content (world s) d n \<and> (\<forall>e m. e \<noteq> 0 \<longrightarrow> content (world s') e m = content (world s) e m) \<and>
    (dev (buf_of b s) = d \<and> blockno (buf_of b s) = n \<or> refcnt (buf_of b s) = 0)"
proof -
  let ?w = "world s" and ?l = "\<lparr>slocked = 1, spid = k\<rparr>"
  obtain b x t where t: "bget d n s = Inr (Returned b, t)" "resting p k t" "b < NBUF" "b \<notin> held"
      "world t = ?w\<lparr>bufs := (bufs ?w)[b := x\<lparr>buf_lock := ?l\<rparr>]\<rparr>"
    and x: "dev (buf_of b s) = d \<and> blockno (buf_of b s) = n \<and> x = (buf_of b s)\<lparr>refcnt := refcnt (buf_of b s) + 1\<rparr> \<or>
     (\<forall>i < NBUF. \<not> (dev (buf_of i s) = d \<and> blockno (buf_of i s) = n)) \<and> refcnt (buf_of b s) = 0 \<and>
       x = (buf_of b s)\<lparr>dev := d, blockno := n, valid := 0, refcnt := 1\<rparr>"
    using bget_ok [OF assms(1,2,4,5)] by blast
  have len: "length (bufs ?w) = NBUF" and ok: "buf_ok False (pins b) k (disk ?w) (buf_of b s)"
    and uniq: "\<And>i. i < NBUF \<Longrightarrow> dev (buf_of b s) \<noteq> 0 \<Longrightarrow> dev (buf_of i s) = dev (buf_of b s) \<Longrightarrow>
      blockno (buf_of i s) = blockno (buf_of b s) \<Longrightarrow> i = b"
    using assms(2) t(3,4) by (auto simp: cache_ok_def buf_of_def)
  define y where "y = (if valid x = 0 then x\<lparr>buf_lock := ?l, data := disk ?w d n, valid := 1\<rparr> else x\<lparr>buf_lock := ?l\<rparr>)"
  define u where "u = (if valid x = 0 then upd_buf b (\<lambda>x. x\<lparr>valid := 1\<rparr>) (virtio_disk_rw b False t) else t)"
  have bt: "buf_of b t = x\<lparr>buf_lock := ?l\<rparr>" using t(3,5) len by (simp add: buf_of_def)
  have dx: "dev x = d" "blockno x = n" using x by auto
  have wu: "world u = ?w\<lparr>bufs := (bufs ?w)[b := y]\<rparr>"
    using t(3,5) len bt dx by (simp add: u_def y_def virtio_disk_rw_def bufs_upd_buf buf_of_def Let_def)
  have br: "bread d n s = Inr (Returned b, u)" using t(1) bt by (simp add: bread_def u_def)
  have ru: "resting p k u" using t(2) by (simp add: u_def virtio_disk_rw_def Let_def)
  have cy: "caches d n y" using dx by (simp add: y_def caches_def)
  have hit: "data y = content ?w d n"
  proof (cases "caches d n (buf_of b s)")
    case True
    then have "x = (buf_of b s)\<lparr>refcnt := refcnt (buf_of b s) + 1\<rparr>" using x t(3) by (auto simp: caches_def)
    then have "valid x \<noteq> 0" "data x = data (buf_of b s)" using True by (simp_all add: caches_def)
    then have "data y = data (buf_of b s)" by (simp add: y_def)
    then show ?thesis using content_cached [OF assms(2) t(3) True [unfolded buf_of_def] assms(3)] by (simp only: buf_of_def)
  next
    case False
    have "\<not> caches d n (bufs ?w ! i)" if i: "i < NBUF" for i
    proof
      assume c: "caches d n (bufs ?w ! i)"
      then have di: "dev (buf_of i s) = d" "blockno (buf_of i s) = n" by (simp_all add: caches_def buf_of_def)
      then have "dev (buf_of b s) = d \<and> blockno (buf_of b s) = n" using x i by blast
      then have "i = b" using uniq [of i] di assms(3) i by simp
      then show False using c False by (simp add: buf_of_def)
    qed
    then have "content ?w d n = disk ?w d n" by (intro content_uncached len)
    moreover have "valid x = 0" using x False by (elim disjE conjE) (simp_all add: caches_def)
    ultimately show ?thesis by (simp add: y_def)
  qed
  have oky: "buf_ok True (pins b) k (disk ?w) y"
    using ok x by (elim disjE conjE) (simp_all add: y_def buf_ok_def)
  have nd: "\<not> (dev y \<noteq> 0 \<and> dev (bufs ?w ! i) = dev y \<and> blockno (bufs ?w ! i) = blockno y)" if i: "i < NBUF" "i \<noteq> b" for i
  proof
    assume "dev y \<noteq> 0 \<and> dev (bufs ?w ! i) = dev y \<and> blockno (bufs ?w ! i) = blockno y"
    then have di: "dev (buf_of i s) = d" "blockno (buf_of i s) = n" using cy by (simp_all add: caches_def buf_of_def)
    then have "dev (buf_of b s) = d \<and> blockno (buf_of b s) = n" using x i(1) by blast
    then show False using uniq [of i] di assms(3) i by simp
  qed
  have ok': "cache_ok (insert b held) pins k (?w\<lparr>bufs := (bufs ?w)[b := y]\<rparr>)"
    by (rule cache_ok_upd [OF assms(2) t(3)]) (use oky nd in auto)
  have "content (?w\<lparr>bufs := (bufs ?w)[b := y]\<rparr>) e m = content ?w e m" if "e \<noteq> 0" for e m
  proof (cases "e = d \<and> m = n")
    case True
    then show ?thesis using content_cached [OF ok' t(3) _ assms(3), of n] cy hit len t(3) by simp
  next
    case False
    have "data (bufs ?w ! b) = disk ?w e m" if c: "caches e m (bufs ?w ! b)"
    proof -
      have "refcnt (buf_of b s) = 0" using x c False by (elim disjE conjE) (simp_all add: caches_def buf_of_def)
      then show ?thesis using ok c \<open>e \<noteq> 0\<close> by (simp add: caches_def buf_of_def buf_ok_def)
    qed
    then show ?thesis using False cy that by (intro content_upd [OF assms(2) ok' t(3)]) (auto simp: caches_def)
  qed
  moreover have "dev (buf_of b s) = d \<and> blockno (buf_of b s) = n \<or> refcnt (buf_of b s) = 0" using x by blast
  ultimately show ?thesis using br ru t(3,4) wu ok' cy hit by (intro exI [of _ b] exI [of _ y] exI [of _ u]) simp
qed

text \<open>A buffer the process holds is valid, so it has the contents of its block.\<close>

lemma held_ok:
  assumes "cache_ok held pins k w" and "b \<in> held" and "b < NBUF"
  shows "valid (bufs w ! b) \<noteq> 0" "buf_lock (bufs w ! b) = \<lparr>slocked = 1, spid = k\<rparr>" "refcnt (bufs w ! b) = 1 + int (pins b)"
    "caches (dev (bufs w ! b)) (blockno (bufs w ! b)) (bufs w ! b)"
proof -
  have "buf_ok True (pins b) k (disk w) (bufs w ! b)" using assms by (auto simp: cache_ok_def)
  then show v: "valid (bufs w ! b) \<noteq> 0" and "buf_lock (bufs w ! b) = \<lparr>slocked = 1, spid = k\<rparr>"
    and "refcnt (bufs w ! b) = 1 + int (pins b)" by (auto simp: buf_ok_def)
  then show "caches (dev (bufs w ! b)) (blockno (bufs w ! b)) (bufs w ! b)" by (simp add: caches_def)
qed

text \<open>The process changes the data of a buffer it holds.\<close>

lemma set_data_ok:
  fixes v :: block
  assumes "cache_ok held pins k w" and "b \<in> held" and "b < NBUF" and "dev (bufs w ! b) \<noteq> 0"
  defines "w' \<equiv> w\<lparr>bufs := (bufs w)[b := (bufs w ! b)\<lparr>data := v\<rparr>]\<rparr>"
  shows "cache_ok held pins k w'"
    and "e \<noteq> 0 \<Longrightarrow> content w' e m = (if e = dev (bufs w ! b) \<and> m = blockno (bufs w ! b) then v else content w e m)"
proof -
  note h = held_ok [OF assms(1-3)]
  have len: "length (bufs w) = NBUF" using assms(1) by (simp add: cache_ok_def)
  have ok: "buf_ok True (pins b) k (disk w) (bufs w ! b)" using assms(1-3) by (auto simp: cache_ok_def)
  have uniq: "\<not> (dev (bufs w ! b) \<noteq> 0 \<and> dev (bufs w ! i) = dev (bufs w ! b) \<and> blockno (bufs w ! i) = blockno (bufs w ! b))"
    if "i < NBUF" "i \<noteq> b" for i using assms(1,3) that unfolding cache_ok_def by metis
  show ok': "cache_ok held pins k w'" unfolding w'_def
    by (rule cache_ok_upd [OF assms(1,3)]) (use ok uniq assms(2) in \<open>auto simp: buf_ok_def\<close>)
  assume e: "e \<noteq> 0"
  show "content w' e m = (if e = dev (bufs w ! b) \<and> m = blockno (bufs w ! b) then v else content w e m)"
  proof (cases "e = dev (bufs w ! b) \<and> m = blockno (bufs w ! b)")
    case True
    then show ?thesis using content_cached [OF ok' assms(3) _ e, of m] h(4) len assms(3) by (simp add: w'_def caches_def)
  next
    case False
    then have "content w' e m = content w e m"
      unfolding w'_def using ok' e by (intro content_upd [OF assms(1) _ assms(3)]) (auto simp: w'_def caches_def)
    then show ?thesis using False by auto
  qed
qed

lemma bwrite_ok:
  assumes "resting p k s" and "cache_ok held pins k (world s)" and "b \<in> held" and "b < NBUF" and "dev (buf_of b s) \<noteq> 0"
  defines "d \<equiv> dev (buf_of b s)" and "n \<equiv> blockno (buf_of b s)"
  defines "w' \<equiv> (world s)\<lparr>disk := (disk (world s))(d := (disk (world s) d)(n := data (buf_of b s))),
    io := io (world s) @ [(d, n, data (buf_of b s))]\<rparr>"
  shows "\<exists>s'. bwrite b s = Inr s' \<and> resting p k s' \<and> world s' = w'" and "cache_ok held pins k w'"
    and "e \<noteq> 0 \<Longrightarrow> content w' e m = content (world s) e m"
proof -
  let ?w = "world s"
  note h = held_ok [OF assms(2-4)]
  obtain t where t: "holdingsleep b (get_lock b) s = Inr (True, t)" "resting p k t" "world t = ?w"
    using holdingsleep_ok [OF assms(1), of b "get_lock b"] h(2) by (auto simp: get_lock_def)
  then show "\<exists>s'. bwrite b s = Inr s' \<and> resting p k s' \<and> world s' = w'"
    by (simp add: bwrite_def virtio_disk_rw_def buf_of_def w'_def d_def n_def Let_def)
  have w: "length (bufs ?w) = NBUF" "distinct (lru ?w)" "set (lru ?w) = {..<NBUF}"
    and ok: "\<And>i. i < NBUF \<Longrightarrow> buf_ok (i \<in> held) (pins i) k (disk ?w) (bufs ?w ! i)"
    and uniq: "\<And>i j. i < NBUF \<Longrightarrow> j < NBUF \<Longrightarrow> dev (bufs ?w ! i) \<noteq> 0 \<Longrightarrow> dev (bufs ?w ! i) = dev (bufs ?w ! j) \<Longrightarrow>
        blockno (bufs ?w ! i) = blockno (bufs ?w ! j) \<Longrightarrow> i = j"
    using assms(2) by (auto simp: cache_ok_def)
  have ub: "i = b" if "i < NBUF" "dev (bufs ?w ! i) = d" "blockno (bufs ?w ! i) = n" for i
    using uniq [of i b] that assms(4,5) by (simp add: d_def n_def buf_of_def)
  have "buf_ok (i \<in> held) (pins i) k (disk w') (bufs ?w ! i)" if i: "i < NBUF" for i
    using ok [OF i] ub [OF i] h(3) by (auto simp: buf_ok_def w'_def)
  then show ok': "cache_ok held pins k w'" using w uniq unfolding cache_ok_def by (simp add: w'_def)
  assume e: "e \<noteq> 0"
  have bufs': "bufs w' = bufs ?w" by (simp add: w'_def)
  show "content w' e m = content ?w e m"
  proof (cases "\<exists>i < NBUF. caches e m (bufs ?w ! i)")
    case True
    then obtain i where i: "i < NBUF" "caches e m (bufs ?w ! i)" by blast
    then show ?thesis
      using content_cached [OF assms(2) i e] content_cached [OF ok' i(1) _ e, of m] bufs' by simp
  next
    case False
    then have "\<not> (e = d \<and> m = n)" using h(4) assms(4) by (auto simp: d_def n_def buf_of_def)
    moreover have "content w' e m = disk w' e m" "content ?w e m = disk ?w e m"
      using False w(1) bufs' by (auto intro!: content_uncached)
    ultimately show ?thesis by (auto simp: w'_def)
  qed
qed

lemma with_bcache_lock:
  assumes "resting p k s"
  shows "\<exists>s'. with_lock BcacheLock (\<lambda>s. Inr (upd_buf b f s)) s = Inr s' \<and> resting p k s' \<and> world s' = world (upd_buf b f s)"
proof -
  have q: "quiet {} s" using assms by (simp add: resting_def)
  obtain c where "with_lock BcacheLock (\<lambda>s. Inr (upd_buf b f s)) s = Inr ((upd_buf b f s)\<lparr>cpu := c\<rparr>)" "hart_ok {} c"
    using with_lock_eq [OF q, of BcacheLock "\<lambda>s. Inr (upd_buf b f s)" "upd_buf b f s"] by auto
  then show ?thesis using resting_cpu [of p k "upd_buf b f s" c] assms by simp
qed

text \<open>Changing the number of pins of a buffer the process holds.\<close>

lemma pins_ok:
  assumes "cache_ok held pins k w" and "b \<in> held" and "b < NBUF"
  defines "w' \<equiv> (\<lambda>r. w\<lparr>bufs := (bufs w)[b := (bufs w ! b)\<lparr>refcnt := r\<rparr>]\<rparr>)"
  shows "cache_ok held (pins(b := j)) k (w' (1 + int j))"
    and "e \<noteq> 0 \<Longrightarrow> content (w' r) e m = content w e m"
proof -
  have ok: "buf_ok True (pins b) k (disk w) (bufs w ! b)" using assms(1-3) by (auto simp: cache_ok_def)
  have uniq: "\<not> (dev (bufs w ! b) \<noteq> 0 \<and> dev (bufs w ! i) = dev (bufs w ! b) \<and> blockno (bufs w ! i) = blockno (bufs w ! b))"
    if "i < NBUF" "i \<noteq> b" for i using assms(1,3) that unfolding cache_ok_def by metis
  show "cache_ok held (pins(b := j)) k (w' (1 + int j))" unfolding w'_def
    by (rule cache_ok_upd [OF assms(1,3)]) (use ok uniq assms(2) in \<open>auto simp: buf_ok_def\<close>)
  show "content (w' r) e m = content w e m" unfolding w'_def by (rule content_same_part) (simp add: kept_part_def)
qed

lemma brelse_ok:
  assumes "resting p k s" and "cache_ok held pins k (world s)" and "b \<in> held" and "b < NBUF"
    and "pins b = 0 \<Longrightarrow> dev (buf_of b s) \<noteq> 0 \<Longrightarrow> data (buf_of b s) = disk (world s) (dev (buf_of b s)) (blockno (buf_of b s))"
  shows "\<exists>s' x l. brelse b s = Inr s' \<and> resting p k s' \<and> world s' = (world s)\<lparr>bufs := (bufs (world s))[b := x], lru := l\<rparr> \<and>
    kept_part x = kept_part (buf_of b s) \<and> cache_ok (held - {b}) pins k (world s')"
proof -
  let ?w = "world s" and ?x = "buf_of b s"
  note h = held_ok [OF assms(2-4)]
  define x where "x = ?x\<lparr>buf_lock := \<lparr>slocked = 0, spid = 0\<rparr>, refcnt := refcnt ?x - 1\<rparr>"
  define l where "l = (if refcnt ?x = 1 then move_front b (lru ?w) else lru ?w)"
  define w1 where "w1 = ?w\<lparr>bufs := (bufs ?w)[b := ?x\<lparr>buf_lock := \<lparr>slocked = 0, spid = 0\<rparr>\<rparr>]\<rparr>"
  have len: "length (bufs ?w) = NBUF" and lru: "distinct (lru ?w)" "set (lru ?w) = {..<NBUF}"
    using assms(2) by (simp_all add: cache_ok_def)
  obtain t where t: "holdingsleep b (get_lock b) s = Inr (True, t)" "resting p k t" "world t = ?w"
    using holdingsleep_ok [OF assms(1), of b "get_lock b"] h(2) by (auto simp: get_lock_def)
  obtain u where u: "releasesleep b (put_lock b) t = Inr u" "resting p k u" "world u = w1"
    using releasesleep_ok [OF t(2), of b "put_lock b"] t(3) by (auto simp: put_lock_def buf_of_def w1_def)
  obtain c where c: "acq BcacheLock u = Inr (u\<lparr>cpu := c\<rparr>)" "hart_ok {BcacheLock} c" using resting_acq [OF u(2)] by blast
  define v where "v = u\<lparr>world := ?w\<lparr>bufs := (bufs ?w)[b := x], lru := l\<rparr>\<rparr>"
  obtain c' where c': "rel BcacheLock (v\<lparr>cpu := c\<rparr>) = Inr (v\<lparr>cpu := c'\<rparr>)" "hart_ok {} c'"
    using resting_rel [of BcacheLock "v\<lparr>cpu := c\<rparr>"] c(2) by auto
  have bu: "bufs (world u) ! b = ?x\<lparr>buf_lock := \<lparr>slocked = 0, spid = 0\<rparr>\<rparr>" using u(3) len assms(4) by (simp add: w1_def)
  have "(let s = upd_buf b (\<lambda>x. x\<lparr>refcnt := refcnt x - 1\<rparr>) (u\<lparr>cpu := c\<rparr>);
            s = (if refcnt (buf_of b s) = 0 then s\<lparr>world := (world s)\<lparr>lru := move_front b (lru (world s))\<rparr>\<rparr> else s)
        in rel BcacheLock s) = rel BcacheLock (v\<lparr>cpu := c\<rparr>)"
    using bu u(3) len assms(4) by (simp add: Let_def upd_buf_def buf_of_def v_def x_def l_def w1_def)
  then have "brelse b s = Inr (v\<lparr>cpu := c'\<rparr>)"
    unfolding brelse_def t(1) seq.simps prod.case simp_thms if_False u(1) c(1) c'(1) by (simp only:)
  moreover have "resting p k (v\<lparr>cpu := c'\<rparr>)" using resting_cpu [of p k v c'] u(2) c'(2) by (simp add: v_def)
  moreover have "cache_ok (held - {b}) pins k (?w\<lparr>bufs := (bufs ?w)[b := x], lru := l\<rparr>)"
  proof -
    have ok: "buf_ok True (pins b) k (disk ?w) ?x" using assms(2-4) by (auto simp: cache_ok_def buf_of_def)
    have uniq: "\<not> (dev (bufs ?w ! b) \<noteq> 0 \<and> dev (bufs ?w ! i) = dev (bufs ?w ! b) \<and> blockno (bufs ?w ! i) = blockno (bufs ?w ! b))"
      if "i < NBUF" "i \<noteq> b" for i using assms(2,4) that unfolding cache_ok_def by metis
    have "buf_ok False (pins b) k (disk ?w) x" using ok assms(5) by (auto simp: buf_ok_def x_def)
    then have "cache_ok (held - {b}) pins k (?w\<lparr>bufs := (bufs ?w)[b := x]\<rparr>)"
      using uniq by (intro cache_ok_upd [OF assms(2,4)]) (auto simp: x_def buf_of_def)
    moreover have "distinct l" "set l = {..<NBUF}"
      using lru assms(4) by (auto simp: l_def move_front_def)
    ultimately show ?thesis by (simp add: cache_ok_def)
  qed
  ultimately show ?thesis by (intro exI [of _ "v\<lparr>cpu := c'\<rparr>"] exI [of _ x] exI [of _ l]) (simp add: v_def x_def kept_part_def)
qed

text \<open>The cache at boot: all fields zero, then \<open>binit\<close>.\<close>

definition zero_buf :: buf where
  "zero_buf = \<lparr>valid = 0, dev = 0, blockno = 0, buf_lock = \<lparr>slocked = 0, spid = 0\<rparr>, refcnt = 0, data = replicate 1024 0\<rparr>"

lemma binit_ok:
  assumes "bufs (world s) = replicate NBUF zero_buf"
  shows "world (binit s) = (world s)\<lparr>lru := rev [0..<NBUF]\<rparr>" and "cache_ok {} (\<lambda>_. 0) k (world (binit s))"
proof -
  have "n \<le> NBUF \<Longrightarrow> world (fold binit_one [0..<n] (s\<lparr>world := (world s)\<lparr>lru := []\<rparr>\<rparr>)) = (world s)\<lparr>lru := rev [0..<n]\<rparr>" for n
  proof (induction n)
    case (Suc n)
    have same: "(replicate NBUF zero_buf)[n := zero_buf] = replicate NBUF zero_buf"
      using Suc.prems by (metis Suc_le_lessD list_update_id nth_replicate)
    have "zero_buf\<lparr>buf_lock := initsleeplock\<rparr> = zero_buf" by (simp add: zero_buf_def initsleeplock_def)
    then show ?case using Suc same assms by (simp add: binit_one_def bufs_upd_buf Let_def)
  qed simp
  then show w: "world (binit s) = (world s)\<lparr>lru := rev [0..<NBUF]\<rparr>" by (simp add: binit_def)
  show "cache_ok {} (\<lambda>_. 0) k (world (binit s))"
    unfolding w cache_ok_def using assms by (auto simp: buf_ok_def zero_buf_def)
qed

section \<open>Properties\<close>

text \<open>C21: \<open>bread\<close> returns the current contents of the block, in a buffer that is locked for the caller: the contents an earlier holder left
  in the cache, written to the disk or not, else what the disk has.  Which buffer is recycled does not matter: the contents of no block
  change, nobody else's buffer changes, there is never a second buffer for a block, and the call does not panic as long as the block is cached or a buffer
  is unused.\<close>

theorem bread_returns_content:
  assumes "resting p k s" and "cache_ok held pins k (world s)" and "d \<noteq> 0"
    and "\<forall>i \<in> held. \<not> (dev (buf_of i s) = d \<and> blockno (buf_of i s) = n)"
    and "(\<exists>i < NBUF. dev (buf_of i s) = d \<and> blockno (buf_of i s) = n) \<or> (\<exists>i < NBUF. refcnt (buf_of i s) = 0)"
  shows "\<exists>b s'. bread d n s = Inr (Returned b, s') \<and> resting p k s' \<and> b < NBUF \<and> b \<notin> held \<and>
    dev (buf_of b s') = d \<and> blockno (buf_of b s') = n \<and> data (buf_of b s') = content (world s) d n \<and>
    cache_ok (insert b held) pins k (world s') \<and> (\<forall>e m. e \<noteq> 0 \<longrightarrow> content (world s') e m = content (world s) e m) \<and>
    (\<forall>i. i \<noteq> b \<longrightarrow> buf_of i s' = buf_of i s)"
proof -
  have len: "length (bufs (world s)) = NBUF" using assms(2) by (simp add: cache_ok_def)
  obtain b y s' where "bread d n s = Inr (Returned b, s')" "resting p k s'" "b < NBUF" "b \<notin> held"
      "world s' = (world s)\<lparr>bufs := (bufs (world s))[b := y]\<rparr>" "cache_ok (insert b held) pins k (world s')"
      "caches d n y" "data y = content (world s) d n" "\<forall>e m. e \<noteq> 0 \<longrightarrow> content (world s') e m = content (world s) e m"
    using bread_ok [OF assms(1-3) _ assms(5)] assms(4) by blast
  then show ?thesis using len by (intro exI [of _ b] exI [of _ s']) (simp add: buf_of_def caches_def)
qed

definition example_disk :: "unit bcache_world_scheme" where
  "example_disk = \<lparr>bufs = replicate NBUF zero_buf, lru = [], disk = (\<lambda>d n. replicate 1024 (of_nat n)), io = []\<rparr>"

lemma resting_solo: "resting 0 1 (solo {} w)"
  by (simp add: resting_def)

lemma resting_binit [simp]: "resting p k (binit s) = resting p k s"
proof -
  have "resting p k (fold binit_one l s) = resting p k s" for l and s :: "'a bkernel"
    by (induction l arbitrary: s) (simp_all add: binit_one_def Let_def)
  then show ?thesis by (simp add: binit_def)
qed

theorem bread_returns_content_witness:
  "\<exists>b s'. bread 1 7 (binit (solo {} example_disk)) = Inr (Returned b, s') \<and> data (buf_of b s') = replicate 1024 7"
proof -
  let ?s = "binit (solo {} example_disk)"
  have w: "world ?s = example_disk\<lparr>lru := rev [0..<NBUF]\<rparr>" "cache_ok {} (\<lambda>_. 0) 1 (world ?s)"
    using binit_ok(1) [of "solo {} example_disk"] binit_ok(2) [of "solo {} example_disk" 1] by (simp_all add: example_disk_def)
  have bufs: "bufs (world ?s) = replicate NBUF zero_buf" unfolding w(1) by (simp add: example_disk_def)
  have "refcnt (buf_of 0 ?s) = 0" unfolding buf_of_def bufs by (simp add: zero_buf_def NBUF_def MAXOPBLOCKS_def)
  then have free: "\<exists>i < NBUF. refcnt (buf_of i ?s) = 0" by (intro exI [of _ 0]) (simp add: NBUF_def MAXOPBLOCKS_def)
  have "content (world ?s) 1 7 = replicate 1024 7"
    unfolding w(1) by (subst content_uncached) (simp_all add: example_disk_def caches_def zero_buf_def)
  then show ?thesis
    using bread_returns_content [of 0 1 ?s "{}" "\<lambda>_. 0" 1 7] w(2) free by (auto simp: resting_solo)
qed

end
