(* ===== verification/Kernel_Log.thy ===== *)
theory Kernel_Log
  imports Kernel_Bio
begin

text \<open>
  The redo log, \<^verbatim>\<open>xv6/kernel/log.c\<close>, on top of the buffer cache.  The log header is kept in memory and, as little-endian
  integers, in the first block of the log.  Reading a buffer that another process has locked makes the process sleep; where a
  function here reads one, that is the error value \<open>''asleep''\<close>, which the theorems show not to occur as long as the process has the
  cache for itself.  The message \<open>install_trans\<close> prints while recovering is left out.
\<close>

section \<open>State\<close>

definition LOGBLOCKS :: nat where "LOGBLOCKS = MAXOPBLOCKS * 3"

record logheader =
  lh_n :: int
  lh_block :: "nat list"

record log =
  log_start :: nat
  outstanding :: int
  committing :: int
  log_dev :: nat
  ncommit :: int
  lh :: logheader

record log_world = bcache_world +
  the_log :: log

type_synonym 'a lkernel = "'a log_world_scheme kernel"

definition log_of :: "'a lkernel \<Rightarrow> log" where
  "log_of s = the_log (world s)"

definition upd_log :: "(log \<Rightarrow> log) \<Rightarrow> 'a lkernel \<Rightarrow> 'a lkernel" where
  "upd_log f s = s\<lparr>world := (world s)\<lparr>the_log := f (the_log (world s))\<rparr>\<rparr>"

text \<open>Integers of four bytes in a block.\<close>

fun get_int :: "block \<Rightarrow> nat \<Rightarrow> nat \<Rightarrow> nat" where
  "get_int d i 0 = 0"
| "get_int d i (Suc k) = unat (d ! i) + 256 * get_int d (Suc i) k"

fun put_int :: "block \<Rightarrow> nat \<Rightarrow> nat \<Rightarrow> nat \<Rightarrow> block" where
  "put_int d i 0 v = d"
| "put_int d i (Suc k) v = put_int (d[i := of_nat v]) (Suc i) k (v div 256)"

definition hd_n :: "block \<Rightarrow> int" where
  "hd_n d = sint (of_nat (get_int d 0 4) :: 32 word)"

definition hd_block :: "block \<Rightarrow> nat \<Rightarrow> nat" where
  "hd_block d i = get_int d (4 + 4 * i) 4"

section \<open>Operations\<close>

definition wait_for :: "((nat, nat) outcome \<times> 's) res \<Rightarrow> (nat \<Rightarrow> 's \<Rightarrow> 't res) \<Rightarrow> 't res" where
  "wait_for r f = seq r (\<lambda>(x, s). case x of Slept _ \<Rightarrow> Inl ''asleep'' | Returned b \<Rightarrow> f b s)"

definition set_data :: "nat \<Rightarrow> block \<Rightarrow> 'a bkernel \<Rightarrow> 'a bkernel" where
  "set_data b v = upd_buf b (\<lambda>x. x\<lparr>data := v\<rparr>)"

definition install_one :: "bool \<Rightarrow> nat \<Rightarrow> 'a lkernel \<Rightarrow> 'a lkernel res" where
  "install_one recovering tail s =
    wait_for (bread (log_dev (log_of s)) (log_start (log_of s) + tail + 1) s) (\<lambda>lbuf s.
    wait_for (bread (log_dev (log_of s)) (lh_block (lh (log_of s)) ! tail) s) (\<lambda>dbuf s.
      let s = set_data dbuf (data (buf_of lbuf s)) s in
      seq (bwrite dbuf s) (\<lambda>s.
      seq (if \<not> recovering then bunpin dbuf s else Inr s) (\<lambda>s.
      seq (brelse lbuf s) (brelse dbuf)))))"

definition install_trans :: "bool \<Rightarrow> 'a lkernel \<Rightarrow> 'a lkernel res" where
  "install_trans recovering s = for_each (install_one recovering) [0..<nat (lh_n (lh (log_of s)))] s"

fun read_head_loop :: "block \<Rightarrow> nat list \<Rightarrow> nat list \<Rightarrow> nat list res" where
  "read_head_loop d [] bl = Inr bl"
| "read_head_loop d (i # is) bl =
    (if i < LOGBLOCKS then read_head_loop d is (bl[i := hd_block d i]) else Inl ''log.lh.block index'')"

definition read_head :: "'a lkernel \<Rightarrow> 'a lkernel res" where
  "read_head s =
    wait_for (bread (log_dev (log_of s)) (log_start (log_of s)) s) (\<lambda>b s.
      let d = data (buf_of b s); n = hd_n d in
      seq (read_head_loop d [0..<nat n] (lh_block (lh (log_of s)))) (\<lambda>bl.
        brelse b (upd_log (\<lambda>l. l\<lparr>lh := \<lparr>lh_n = n, lh_block = bl\<rparr>\<rparr>) s)))"

definition put_head :: "logheader \<Rightarrow> block \<Rightarrow> block" where
  "put_head h d = fold (\<lambda>i d. put_int d (4 + 4 * i) 4 (lh_block h ! i)) [0..<nat (lh_n h)]
    (put_int d 0 4 (unat (of_int (lh_n h) :: 32 word)))"

definition write_head :: "'a lkernel \<Rightarrow> 'a lkernel res" where
  "write_head s =
    wait_for (bread (log_dev (log_of s)) (log_start (log_of s)) s) (\<lambda>b s.
      let s = set_data b (put_head (lh (log_of s)) (data (buf_of b s))) s in
      seq (bwrite b s) (brelse b))"

definition recover_from_log :: "'a lkernel \<Rightarrow> 'a lkernel res" where
  "recover_from_log s =
    seq (read_head s) (\<lambda>s. seq (install_trans True s) (\<lambda>s.
      write_head (upd_log (\<lambda>l. l\<lparr>lh := (lh l)\<lparr>lh_n := 0\<rparr>\<rparr>) s)))"

definition initlog :: "nat \<Rightarrow> nat \<Rightarrow> 'a lkernel \<Rightarrow> 'a lkernel res" where
  "initlog d logstart s =
    (if 4 + 4 * LOGBLOCKS \<ge> 1024 then Inl ''initlog: too big logheader''
     else recover_from_log (upd_log (\<lambda>l. l\<lparr>log_start := logstart, log_dev := d\<rparr>) s))"

definition begin_op_loop :: "'a lkernel \<Rightarrow> ((unit, unit) outcome \<times> 'a lkernel) res" where
  "begin_op_loop s =
    (let l = log_of s in
     if committing l \<noteq> 0 then seq (sleep LogChan LogLock s) (\<lambda>s. Inr (Slept (), s))
     else if lh_n (lh l) + (outstanding l + 1) * int MAXOPBLOCKS > int LOGBLOCKS then
       seq (sleep LogChan LogLock s) (\<lambda>s. Inr (Slept (), s))
     else seq (rel LogLock (upd_log (\<lambda>l. l\<lparr>outstanding := outstanding l + 1\<rparr>) s)) (\<lambda>s. Inr (Returned (), s)))"

definition begin_op :: "'a lkernel \<Rightarrow> ((unit, unit) outcome \<times> 'a lkernel) res" where
  "begin_op s = seq (acq LogLock s) begin_op_loop"

definition write_log_one :: "nat \<Rightarrow> 'a lkernel \<Rightarrow> 'a lkernel res" where
  "write_log_one tail s =
    wait_for (bread (log_dev (log_of s)) (log_start (log_of s) + tail + 1) s) (\<lambda>dst s.
    wait_for (bread (log_dev (log_of s)) (lh_block (lh (log_of s)) ! tail) s) (\<lambda>src s.
      let s = set_data dst (data (buf_of src s)) s in
      seq (bwrite dst s) (\<lambda>s. seq (brelse src s) (brelse dst))))"

definition write_log :: "'a lkernel \<Rightarrow> 'a lkernel res" where
  "write_log s = for_each write_log_one [0..<nat (lh_n (lh (log_of s)))] s"

definition commit :: "'a lkernel \<Rightarrow> 'a lkernel res" where
  "commit s =
    (if lh_n (lh (log_of s)) > 0 then
       seq (write_log s) (\<lambda>s. seq (write_head s) (\<lambda>s. seq (install_trans False s) (\<lambda>s.
         write_head (upd_log (\<lambda>l. l\<lparr>lh := (lh l)\<lparr>lh_n := 0\<rparr>\<rparr>) s))))
     else Inr s)"

definition end_op :: "'a lkernel \<Rightarrow> 'a lkernel res" where
  "end_op s =
    seq (acq LogLock s) (\<lambda>s.
      let s = upd_log (\<lambda>l. l\<lparr>outstanding := outstanding l - 1\<rparr>) s in
      if committing (log_of s) \<noteq> 0 then Inl ''log.committing''
      else if outstanding (log_of s) = 0 then
        seq (rel LogLock (upd_log (\<lambda>l. l\<lparr>committing := 1\<rparr>) s)) (\<lambda>s.
        seq (commit s) (\<lambda>s.
        seq (acq LogLock s) (\<lambda>s.
        seq (wakeup LogChan (upd_log (\<lambda>l. l\<lparr>committing := 0, ncommit := ncommit l + 1\<rparr>) s)) (rel LogLock))))
      else seq (wakeup LogChan s) (rel LogLock))"

fun log_slot :: "nat \<Rightarrow> nat list \<Rightarrow> nat \<Rightarrow> nat \<Rightarrow> nat" where
  "log_slot n bl i 0 = i"
| "log_slot n bl i (Suc k) = (if bl ! i = n then i else log_slot n bl (i + 1) k)"

definition log_write :: "nat \<Rightarrow> 'a lkernel \<Rightarrow> 'a lkernel res" where
  "log_write b s =
    seq (acq LogLock s) (\<lambda>s.
      let h = lh (log_of s) in
      if lh_n h \<ge> int LOGBLOCKS then Inl ''too big a transaction''
      else if outstanding (log_of s) < 1 then Inl ''log_write outside of trans''
      else
        let i = log_slot (blockno (buf_of b s)) (lh_block h) 0 (nat (lh_n h));
            s = upd_log (\<lambda>l. l\<lparr>lh := (lh l)\<lparr>lh_block := (lh_block (lh l))[i := blockno (buf_of b s)]\<rparr>\<rparr>) s
        in seq (if int i = lh_n h
                then seq (bpin b s) (\<lambda>s. Inr (upd_log (\<lambda>l. l\<lparr>lh := (lh l)\<lparr>lh_n := lh_n (lh l) + 1\<rparr>\<rparr>) s))
                else Inr s) (rel LogLock))"

definition sys_sync_loop :: "int \<Rightarrow> 'a lkernel \<Rightarrow> ((int, int) outcome \<times> 'a lkernel) res" where
  "sys_sync_loop n s =
    (if ncommit (log_of s) < n then seq (sleep LogChan LogLock s) (\<lambda>s. Inr (Slept n, s))
     else seq (rel LogLock s) (\<lambda>s. Inr (Returned 0, s)))"

definition sys_sync :: "'a lkernel \<Rightarrow> ((int, int) outcome \<times> 'a lkernel) res" where
  "sys_sync s =
    seq (acq LogLock s) (\<lambda>s.
      if committing (log_of s) \<noteq> 0 \<or> outstanding (log_of s) > 0 then sys_sync_loop (ncommit (log_of s) + 1) s
      else seq (rel LogLock s) (\<lambda>s. Inr (Returned 0, s)))"

section \<open>The cache under the log\<close>

text \<open>
  The blocks \<open>P\<close> of the log's device are pinned, each once, and are cached; \<open>H\<close> are the buffers the process holds.
\<close>

definition pinf :: "nat set \<Rightarrow> nat \<Rightarrow> 'a bcache_world_scheme \<Rightarrow> nat \<Rightarrow> nat" where
  "pinf P d w b = (if dev (bufs w ! b) = d \<and> blockno (bufs w ! b) \<in> P then 1 else 0)"

definition log_cache :: "nat set \<Rightarrow> nat set \<Rightarrow> nat \<Rightarrow> int \<Rightarrow> 'a bcache_world_scheme \<Rightarrow> bool" where
  "log_cache H P d k w \<longleftrightarrow> d \<noteq> 0 \<and> finite P \<and> finite H \<and> cache_ok H (pinf P d w) k w \<and> (\<forall>m \<in> P. \<exists>b < NBUF. caches d m (bufs w ! b))"

lemma log_cache_unused:
  assumes "log_cache H P d k w" and "card H + card P < NBUF"
  shows "\<exists>i < NBUF. refcnt (bufs w ! i) = 0"
proof (rule ccontr)
  assume no: "\<not> (\<exists>i < NBUF. refcnt (bufs w ! i) = 0)"
  let ?B = "{b. b < NBUF \<and> dev (bufs w ! b) = d \<and> blockno (bufs w ! b) \<in> P}"
  have ok: "cache_ok H (pinf P d w) k w" "finite P" "finite H" "d \<noteq> 0" using assms(1) by (auto simp: log_cache_def)
  have "b \<in> H \<union> ?B" if "b < NBUF" for b
    using ok(1) that no unfolding cache_ok_def by (auto simp: buf_ok_def pinf_def split: if_splits)
  then have "{..<NBUF} \<subseteq> H \<union> ?B" by auto
  then have "NBUF \<le> card (H \<union> ?B)" using card_mono [of "H \<union> ?B" "{..<NBUF}"] ok(3) by simp
  also have "\<dots> \<le> card H + card ?B" by (rule card_Un_le)
  also have "card ?B \<le> card P"
  proof (rule card_inj_on_le)
    show "inj_on (\<lambda>b. blockno (bufs w ! b)) ?B" using ok(1,4) unfolding cache_ok_def inj_on_def by auto
  qed (use ok(2) in auto)
  finally show False using assms(2) by simp
qed

lemma bread_log_ok:
  assumes "resting p k s" and "log_cache H P d k (world s)" and "card H + card P < NBUF"
    and "\<And>i. i \<in> H \<Longrightarrow> blockno (buf_of i s) \<noteq> n"
  shows "\<exists>b y s'. bread d n s = Inr (Returned b, s') \<and> resting p k s' \<and> b < NBUF \<and> b \<notin> H \<and>
    world s' = (world s)\<lparr>bufs := (bufs (world s))[b := y]\<rparr> \<and> log_cache (insert b H) P d k (world s') \<and>
    dev y = d \<and> blockno y = n \<and> data y = content (world s) d n \<and>
    (\<forall>e m. e \<noteq> 0 \<longrightarrow> content (world s') e m = content (world s) e m)"
proof -
  let ?w = "world s"
  have lc: "d \<noteq> 0" "finite P" "finite H" "cache_ok H (pinf P d ?w) k ?w" "\<And>m. m \<in> P \<Longrightarrow> \<exists>b < NBUF. caches d m (bufs ?w ! b)"
    using assms(2) by (auto simp: log_cache_def)
  have free: "\<exists>i < NBUF. refcnt (buf_of i s) = 0" using log_cache_unused [OF assms(2,3)] by (simp add: buf_of_def)
  obtain b y s' where s': "bread d n s = Inr (Returned b, s')" "resting p k s'" "b < NBUF" "b \<notin> H"
      "world s' = ?w\<lparr>bufs := (bufs ?w)[b := y]\<rparr>" "cache_ok (insert b H) (pinf P d ?w) k (world s')"
      "caches d n y" "data y = content ?w d n" "\<forall>e m. e \<noteq> 0 \<longrightarrow> content (world s') e m = content ?w e m"
      "dev (buf_of b s) = d \<and> blockno (buf_of b s) = n \<or> refcnt (buf_of b s) = 0"
    using bread_ok [OF assms(1) lc(4,1), of n] assms(4) free by blast
  have len: "length (bufs ?w) = NBUF" using lc(4) by (simp add: cache_ok_def)
  have bb: "bufs (world s') ! b = y" "\<And>i. i \<noteq> b \<Longrightarrow> bufs (world s') ! i = bufs ?w ! i" using s'(3,5) len by simp_all
  have y: "dev y = d" "blockno y = n" using s'(7) by (simp_all add: caches_def)
  \<comment> \<open>the pins of the chosen buffer stay\<close>
  have "buf_ok (b \<in> H) (pinf P d ?w b) k (disk ?w) (bufs ?w ! b)" using lc(4) s'(3) by (simp add: cache_ok_def)
  then have old: "pinf P d ?w b = 0" if "refcnt (buf_of b s) = 0"
    using that by (simp add: buf_ok_def buf_of_def split: if_splits)
  have home: "caches d n (bufs ?w ! b)" if nP: "n \<in> P"
  proof -
    obtain i where i: "i < NBUF" "caches d n (bufs ?w ! i)" using lc(5) [OF nP] by blast
    have "i = b"
    proof (rule ccontr)
      assume "i \<noteq> b"
      then have "dev (bufs (world s') ! i) = d" "blockno (bufs (world s') ! i) = n" using i(2) bb(2) by (simp_all add: caches_def)
      then show False using s'(3,6) i(1) bb(1) y lc(1) \<open>i \<noteq> b\<close> unfolding cache_ok_def by metis
    qed
    then show ?thesis using i(2) by simp
  qed
  have pb: "pinf P d (world s') b = pinf P d ?w b"
  proof (cases "n \<in> P")
    case True
    then show ?thesis using home bb(1) y by (simp add: pinf_def caches_def)
  next
    case False
    then show ?thesis using s'(10) old bb(1) y by (auto simp: pinf_def buf_of_def)
  qed
  have "pinf P d (world s') i = pinf P d ?w i" for i
    using pb bb(2) [of i] by (cases "i = b") (simp_all add: pinf_def)
  then have "pinf P d (world s') = pinf P d ?w" by (simp add: fun_eq_iff)
  moreover have "\<exists>i < NBUF. caches d m (bufs (world s') ! i)" if m: "m \<in> P" for m
  proof -
    obtain i where i: "i < NBUF" "caches d m (bufs ?w ! i)" using lc(5) [OF m] by blast
    show ?thesis
    proof (cases "i = b")
      case True
      then have "pinf P d ?w b = 1" using i(2) m by (simp add: pinf_def caches_def)
      then have "m = n" using s'(10) old True i(2) by (auto simp: caches_def buf_of_def)
      then show ?thesis using s'(3,7) bb(1) by auto
    next
      case False
      then show ?thesis using i bb(2) by auto
    qed
  qed
  ultimately have "log_cache (insert b H) P d k (world s')" using s'(6) lc by (simp add: log_cache_def)
  then show ?thesis using s' y by blast
qed

lemma log_cache_clean:
  assumes "log_cache {} P d k w" and "m \<notin> P"
  shows "content w d m = disk w d m"
proof (cases "\<exists>b < NBUF. caches d m (bufs w ! b)")
  case True
  then obtain b where b: "b < NBUF" "caches d m (bufs w ! b)" by blast
  have "cache_ok {} (pinf P d w) k w" "d \<noteq> 0" using assms(1) by (simp_all add: log_cache_def)
  moreover from this have "buf_ok False (pinf P d w b) k (disk w) (bufs w ! b)" using b(1) by (simp add: cache_ok_def)
  then have "data (bufs w ! b) = disk w d m"
    using b(2) assms(2) \<open>d \<noteq> 0\<close> by (simp add: buf_ok_def pinf_def caches_def)
  ultimately show ?thesis using content_cached [of "{}" "pinf P d w" k w b d m] b by simp
next
  case False
  have "length (bufs w) = NBUF" using assms(1) by (simp add: log_cache_def cache_ok_def)
  then show ?thesis using False content_uncached by blast
qed

text \<open>A change of one buffer that keeps its block.\<close>

lemma log_cache_upd:
  assumes "log_cache H P d k w" and "b < NBUF" and "dev x = dev (bufs w ! b)" and "blockno x = blockno (bufs w ! b)" and "valid x = valid (bufs w ! b)"
    and "cache_ok H' (pinf P' d w) k w'" and "bufs w' = (bufs w)[b := x]" and "finite H'" and "P' \<subseteq> P"
  shows "log_cache H' P' d k w'"
proof -
  have len: "length (bufs w) = NBUF" using assms(1) by (simp add: log_cache_def cache_ok_def)
  have same: "dev (bufs w' ! i) = dev (bufs w ! i)" "blockno (bufs w' ! i) = blockno (bufs w ! i)"
      "caches e m (bufs w' ! i) = caches e m (bufs w ! i)" for i e m
    using assms(2-5,7) len by (cases "i = b"; simp add: caches_def)+
  have "pinf P' d w' = pinf P' d w" by (simp add: fun_eq_iff pinf_def same)
  then show ?thesis using assms(1,6,8,9) by (auto simp: log_cache_def same intro: finite_subset)
qed

lemma set_data_log:
  assumes "log_cache H P d k (world s)" and "b \<in> H" and "b < NBUF" and "dev (buf_of b s) = d"
  shows "log_cache H P d k (world (set_data b v s))"
    and "e \<noteq> 0 \<Longrightarrow> content (world (set_data b v s)) e m = (if e = d \<and> m = blockno (buf_of b s) then v else content (world s) e m)"
proof -
  have lc: "cache_ok H (pinf P d (world s)) k (world s)" "d \<noteq> 0" "finite H" using assms(1) by (simp_all add: log_cache_def)
  have "dev (bufs (world s) ! b) \<noteq> 0" using assms(4) lc(2) by (simp add: buf_of_def)
  note ok = set_data_ok [OF lc(1) assms(2,3) this, where v = v]
  show "log_cache H P d k (world (set_data b v s))"
    by (rule log_cache_upd [OF assms(1,3)]) (use ok lc(3) in \<open>simp_all add: set_data_def bufs_upd_buf buf_of_def\<close>)
  show "e \<noteq> 0 \<Longrightarrow> content (world (set_data b v s)) e m = (if e = d \<and> m = blockno (buf_of b s) then v else content (world s) e m)"
    using ok(2) [of e m] assms(4) by (auto simp: set_data_def bufs_upd_buf buf_of_def)
qed

lemma bwrite_log:
  assumes "resting p k s" and "log_cache H P d k (world s)" and "b \<in> H" and "b < NBUF" and "dev (buf_of b s) = d"
  shows "\<exists>s'. bwrite b s = Inr s' \<and> resting p k s' \<and> log_cache H P d k (world s') \<and>
    world s' = (world s)\<lparr>disk := (disk (world s))(d := (disk (world s) d)(blockno (buf_of b s) := data (buf_of b s))),
      io := io (world s) @ [(d, blockno (buf_of b s), data (buf_of b s))]\<rparr> \<and>
    (\<forall>e m. e \<noteq> 0 \<longrightarrow> content (world s') e m = content (world s) e m)"
proof -
  have lc: "cache_ok H (pinf P d (world s)) k (world s)" "d \<noteq> 0" "finite H" using assms(2) by (simp_all add: log_cache_def)
  have d: "dev (buf_of b s) \<noteq> 0" using assms(5) lc(2) by simp
  note ok = bwrite_ok [OF assms(1) lc(1) assms(3,4) d, unfolded assms(5)]
  let ?w = "(world s)\<lparr>disk := (disk (world s))(d := (disk (world s) d)(blockno (buf_of b s) := data (buf_of b s))),
      io := io (world s) @ [(d, blockno (buf_of b s), data (buf_of b s))]\<rparr>"
  have "log_cache H P d k ?w"
    by (rule log_cache_upd [OF assms(2,4), of "bufs (world s) ! b"]) (use ok(2) lc(3) in simp_all)
  then show ?thesis using ok(1,3) by metis
qed

lemma brelse_log:
  assumes "resting p k s" and "log_cache H P d k (world s)" and "b \<in> H" and "b < NBUF" and "dev (buf_of b s) = d"
    and "blockno (buf_of b s) \<in> P \<or> content (world s) d (blockno (buf_of b s)) = disk (world s) d (blockno (buf_of b s))"
  shows "\<exists>s' x l. brelse b s = Inr s' \<and> resting p k s' \<and> log_cache (H - {b}) P d k (world s') \<and>
    world s' = (world s)\<lparr>bufs := (bufs (world s))[b := x], lru := l\<rparr> \<and> kept_part x = kept_part (buf_of b s) \<and>
    (\<forall>e m. content (world s') e m = content (world s) e m)"
proof -
  have lc: "cache_ok H (pinf P d (world s)) k (world s)" "d \<noteq> 0" "finite H" using assms(2) by (simp_all add: log_cache_def)
  have c: "content (world s) d (blockno (buf_of b s)) = data (buf_of b s)"
    using content_cached [OF lc(1) assms(4) held_ok(4) [OF lc(1) assms(3,4)]] assms(5) lc(2) by (simp add: buf_of_def)
  then have "\<exists>s' x l. brelse b s = Inr s' \<and> resting p k s' \<and> world s' = (world s)\<lparr>bufs := (bufs (world s))[b := x], lru := l\<rparr> \<and>
      kept_part x = kept_part (buf_of b s) \<and> cache_ok (H - {b}) (pinf P d (world s)) k (world s')"
    using assms(5,6) by (intro brelse_ok [OF assms(1) lc(1) assms(3,4)]) (auto simp: pinf_def buf_of_def split: if_splits)
  then obtain s' x l where s': "brelse b s = Inr s'" "resting p k s'" "world s' = (world s)\<lparr>bufs := (bufs (world s))[b := x], lru := l\<rparr>"
      "kept_part x = kept_part (buf_of b s)" "cache_ok (H - {b}) (pinf P d (world s)) k (world s')" by blast
  have "log_cache (H - {b}) P d k (world s')"
    by (rule log_cache_upd [OF assms(2,4), of x]) (use s'(3-5) lc(3) in \<open>simp_all add: kept_part_def buf_of_def\<close>)
  moreover have "content (world s') e m = content (world s) e m" for e m
    using content_same_part(2) [of x "world s" b l e m] s'(3,4) by (simp add: buf_of_def)
  ultimately show ?thesis using s' by blast
qed

lemma bunpin_log:
  assumes "resting p k s" and "log_cache H P d k (world s)" and "b \<in> H" and "b < NBUF" and "dev (buf_of b s) = d"
    and "blockno (buf_of b s) \<in> P"
  shows "\<exists>s' x. bunpin b s = Inr s' \<and> resting p k s' \<and> log_cache H (P - {blockno (buf_of b s)}) d k (world s') \<and>
    world s' = (world s)\<lparr>bufs := (bufs (world s))[b := x]\<rparr> \<and> kept_part x = kept_part (buf_of b s) \<and>
    (\<forall>e m. content (world s') e m = content (world s) e m)"
proof -
  let ?w = "world s" and ?m = "blockno (buf_of b s)"
  have lc: "cache_ok H (pinf P d ?w) k ?w" "d \<noteq> 0" "finite H" using assms(2) by (simp_all add: log_cache_def)
  define x where "x = (buf_of b s)\<lparr>refcnt := 1\<rparr>"
  have pb: "pinf P d ?w b = 1" using assms(5,6) by (simp add: pinf_def buf_of_def)
  have r: "refcnt (buf_of b s) = 2" using held_ok(3) [OF lc(1) assms(3,4)] pb by (simp add: buf_of_def)
  obtain s' where s': "bunpin b s = Inr s'" "resting p k s'" "world s' = ?w\<lparr>bufs := (bufs ?w)[b := x]\<rparr>"
    using with_bcache_lock [OF assms(1), of b "\<lambda>x. x\<lparr>refcnt := refcnt x - 1\<rparr>"] r
    by (auto simp: bunpin_def bufs_upd_buf x_def buf_of_def)
  have uniq: "i = b" if "i < NBUF" "dev (bufs ?w ! i) = d" "blockno (bufs ?w ! i) = ?m" for i
    using lc(1,2) that assms(4,5) unfolding cache_ok_def buf_of_def by metis
  have "cache_ok H ((pinf P d ?w)(b := 0)) k (?w\<lparr>bufs := (bufs ?w)[b := x]\<rparr>)"
    using pins_ok(1) [OF lc(1) assms(3,4), of 0] by (simp add: x_def buf_of_def)
  moreover have "((pinf P d ?w)(b := 0)) i = pinf (P - {?m}) d ?w i" if "i < NBUF" for i
    using uniq [OF that] assms(5) by (auto simp: pinf_def buf_of_def)
  ultimately have "cache_ok H (pinf (P - {?m}) d ?w) k (world s')" unfolding s'(3) by (simp add: cache_ok_def)
  then have "log_cache H (P - {?m}) d k (world s')"
    by (intro log_cache_upd [OF assms(2,4), of x]) (use s'(3) lc(3) in \<open>simp_all add: x_def buf_of_def\<close>)
  moreover have kp: "kept_part x = kept_part (buf_of b s)" by (simp add: x_def kept_part_def)
  moreover have "content (world s') e m = content ?w e m" for e m
    using content_same_part(1) [of x ?w b e m] s'(3) kp by (simp add: buf_of_def)
  ultimately show ?thesis using s' by blast
qed

text \<open>
  Copying a block: with the buffers \<open>f\<close> and \<open>t\<close> of the blocks \<open>x\<close> and \<open>y\<close> locked, the data of \<open>f\<close> go to \<open>t\<close> and to the disk, and both
  are released.
\<close>

definition copied :: "nat \<Rightarrow> nat \<Rightarrow> nat \<Rightarrow> 'a lkernel \<Rightarrow> 'a lkernel \<Rightarrow> bool" where
  "copied d x y s s' \<longleftrightarrow> log_of s' = log_of s \<and> log_world.more (world s') = log_world.more (world s) \<and>
     disk (world s') = (disk (world s))(d := (disk (world s) d)(y := content (world s) d x)) \<and>
     io (world s') = io (world s) @ [(d, y, content (world s) d x)] \<and>
     (\<forall>m. content (world s') d m = (if m = y then content (world s) d x else content (world s) d m))"

lemma finish_copy:
  fixes s :: "'a lkernel"
  assumes "resting p k s" and "log_cache {f, t} P d k (world s)" and "f \<noteq> t" and "f < NBUF" and "t < NBUF"
    and "dev (buf_of f s) = d" and "dev (buf_of t s) = d" and "blockno (buf_of f s) = x" and "blockno (buf_of t s) = y" and "x \<noteq> y"
    and "x \<in> P \<or> content (world s) d x = disk (world s) d x" and "y \<in> P \<longleftrightarrow> unpin"
  shows "\<exists>s'. seq (bwrite t (set_data t (data (buf_of f s)) s)) (\<lambda>s. seq (if unpin then bunpin t s else Inr s) (\<lambda>s.
      seq (brelse f s) (brelse t))) = Inr s' \<and> resting p k s' \<and> log_cache {} (P - {y}) d k (world s') \<and> copied d x y s s'"
proof -
  let ?v = "content (world s) d x"
  have lc: "cache_ok {f, t} (pinf P d (world s)) k (world s)" "d \<noteq> 0" using assms(2) by (simp_all add: log_cache_def)
  have len: "length (bufs (world s)) = NBUF" using lc(1) by (simp add: cache_ok_def)
  have v: "data (buf_of f s) = ?v"
    using content_cached [OF lc(1) assms(4) held_ok(4) [OF lc(1) _ assms(4)]] assms(6,8) lc(2) by (simp add: buf_of_def)
  define s1 where "s1 = set_data t ?v s"
  have b1: "buf_of t s1 = (buf_of t s)\<lparr>data := ?v\<rparr>" "buf_of f s1 = buf_of f s"
    using len assms(3,5) by (simp_all add: s1_def set_data_def buf_of_def bufs_upd_buf)
  have w1: "disk (world s1) = disk (world s)" "io (world s1) = io (world s)" "log_of s1 = log_of s"
      "log_world.more (world s1) = log_world.more (world s)" "resting p k s1"
    using assms(1) by (simp_all add: s1_def set_data_def bufs_upd_buf log_of_def)
  have lc1: "log_cache {f, t} P d k (world s1)"
      "\<And>m. content (world s1) d m = (if m = y then ?v else content (world s) d m)"
    using set_data_log [OF assms(2) _ assms(5,7), where v = ?v] assms(9) lc(2) by (simp_all add: s1_def)
  obtain s2 where s2: "bwrite t s1 = Inr s2" "resting p k s2" "log_cache {f, t} P d k (world s2)"
      "world s2 = (world s1)\<lparr>disk := (disk (world s1))(d := (disk (world s1) d)(y := ?v)), io := io (world s1) @ [(d, y, ?v)]\<rparr>"
      "\<And>m. content (world s2) d m = content (world s1) d m"
    using bwrite_log [OF w1(5) lc1(1) _ assms(5)] b1(1) assms(7,9) lc(2) by auto
  have b2: "buf_of t s2 = buf_of t s1" "buf_of f s2 = buf_of f s1" by (simp_all add: buf_of_def s2(4))
  obtain s3 x3 where s3: "(if unpin then bunpin t s2 else Inr s2) = Inr s3" "resting p k s3" "log_cache {f, t} (P - {y}) d k (world s3)"
      "world s3 = (world s2)\<lparr>bufs := (bufs (world s2))[t := x3]\<rparr>" "kept_part x3 = kept_part (buf_of t s2)"
      "\<And>m. content (world s3) d m = content (world s2) d m"
  proof (cases unpin)
    case True
    then have "y \<in> P" using assms(12) by simp
    then show ?thesis
      using bunpin_log [OF s2(2,3) _ assms(5)] that True b2(1) b1(1) assms(7,9) by auto
  next
    case False
    then have "P - {y} = P" using assms(12) by simp
    moreover have "world s2 = (world s2)\<lparr>bufs := (bufs (world s2))[t := buf_of t s2]\<rparr>" by (simp add: buf_of_def)
    ultimately show ?thesis using that [of s2 "buf_of t s2"] False s2(2,3) by simp
  qed
  have len3: "length (bufs (world s2)) = NBUF" using s2(3) by (simp add: log_cache_def cache_ok_def)
  have b3: "buf_of t s3 = x3" "buf_of f s3 = buf_of f s" using len3 assms(3,5) b2 b1 s3(4) by (simp_all add: buf_of_def)
  have k3: "dev (buf_of t s3) = d" "blockno (buf_of t s3) = y" "dev (buf_of f s3) = d" "blockno (buf_of f s3) = x"
    using s3(5) b3 b2(1) b1(1) assms(6-9) by (simp_all add: kept_part_def)
  have d3: "disk (world s3) d y = ?v" "disk (world s3) d x = disk (world s) d x" "content (world s3) d x = ?v" "content (world s3) d y = ?v"
    using s3(4,6) s2(4,5) w1(1) lc1(2) assms(10) by simp_all
  obtain s4 x4 l4 where s4: "brelse f s3 = Inr s4" "resting p k s4" "log_cache ({f, t} - {f}) (P - {y}) d k (world s4)"
      "world s4 = (world s3)\<lparr>bufs := (bufs (world s3))[f := x4], lru := l4\<rparr>"
      "\<And>e m. content (world s4) e m = content (world s3) e m"
    using brelse_log [OF s3(2,3) _ assms(4) k3(3)] k3(4) d3 assms(10,11) by auto
  have b4: "buf_of t s4 = buf_of t s3" using s4(4) assms(3) by (simp add: buf_of_def)
  have h4: "{f, t} - {f} = {t}" using assms(3) by auto
  obtain s5 x5 l5 where s5: "brelse t s4 = Inr s5" "resting p k s5" "log_cache ({t} - {t}) (P - {y}) d k (world s5)"
      "world s5 = (world s4)\<lparr>bufs := (bufs (world s4))[t := x5], lru := l5\<rparr>"
      "\<And>e m. content (world s5) e m = content (world s4) e m"
    using brelse_log [OF s4(2) s4(3) [unfolded h4] _ assms(5)] k3(1,2) b4 s4(4,5) d3 by auto
  have "copied d x y s s5"
    using s5(4,5) s4(4,5) s3(4,6) s2(4,5) w1 lc1(2) by (simp add: copied_def log_of_def)
  then show ?thesis using v s2(1) s3(1) s4(1) s5 by (simp add: s1_def)
qed

lemma read_two:
  fixes s :: "'a lkernel"
  assumes "resting p k s" and "log_cache {} P d k (world s)" and "card P + 2 \<le> NBUF" and "x \<noteq> y"
  shows "\<exists>a t b u. bread d x s = Inr (Returned a, t) \<and> bread d y t = Inr (Returned b, u) \<and> log_of t = log_of s \<and> resting p k u \<and>
    a \<noteq> b \<and> a < NBUF \<and> b < NBUF \<and> log_cache {a, b} P d k (world u) \<and> dev (buf_of a u) = d \<and> blockno (buf_of a u) = x \<and>
    dev (buf_of b u) = d \<and> blockno (buf_of b u) = y \<and> log_of u = log_of s \<and> log_world.more (world u) = log_world.more (world s) \<and>
    disk (world u) = disk (world s) \<and> io (world u) = io (world s) \<and> (\<forall>m. content (world u) d m = content (world s) d m)"
proof -
  have d: "d \<noteq> 0" and len: "length (bufs (world s)) = NBUF" using assms(2) by (simp_all add: log_cache_def cache_ok_def)
  obtain a z t where t: "bread d x s = Inr (Returned a, t)" "resting p k t" "a < NBUF" "world t = (world s)\<lparr>bufs := (bufs (world s))[a := z]\<rparr>"
      "log_cache {a} P d k (world t)" "dev z = d" "blockno z = x" "\<forall>e m. e \<noteq> 0 \<longrightarrow> content (world t) e m = content (world s) e m"
    using bread_log_ok [OF assms(1,2), of x] assms(3) by auto
  have ba: "buf_of a t = z" using t(3,4) len by (simp add: buf_of_def)
  have lent: "length (bufs (world t)) = NBUF" using t(4) len by simp
  have "card {a} + card P < NBUF" using assms(3) by simp
  from bread_log_ok [OF t(2,5) this, of y] assms(4) ba t(7) obtain b z' u where
    u: "bread d y t = Inr (Returned b, u)" "resting p k u" "b < NBUF" "b \<noteq> a" "world u = (world t)\<lparr>bufs := (bufs (world t))[b := z']\<rparr>"
      "log_cache {b, a} P d k (world u)" "dev z' = d" "blockno z' = y" "\<forall>e m. e \<noteq> 0 \<longrightarrow> content (world u) e m = content (world t) e m"
    by auto
  have "buf_of a u = z" "buf_of b u = z'" using u(3-5) ba lent by (simp_all add: buf_of_def)
  then show ?thesis using t u d by (intro exI [of _ a] exI [of _ t] exI [of _ b] exI [of _ u]) (simp add: log_of_def insert_commute)
qed

lemma copied_view:
  assumes "copied d x y u s'" and "log_of u = log_of s" and "log_world.more (world u) = log_world.more (world s)"
    and "disk (world u) = disk (world s)" and "io (world u) = io (world s)" and "\<forall>m. content (world u) d m = content (world s) d m"
  shows "copied d x y s s'"
  using assms by (simp add: copied_def)

lemma write_log_one_ok:
  assumes "resting p k s" and "log_cache {} P d k (world s)" and "card P + 2 \<le> NBUF" and "log_dev (log_of s) = d"
    and "lh_block (lh (log_of s)) ! tail = x" and "log_start (log_of s) + tail + 1 = y" and "x \<noteq> y" and "x \<in> P" and "y \<notin> P"
  shows "\<exists>s'. write_log_one tail s = Inr s' \<and> resting p k s' \<and> log_cache {} P d k (world s') \<and> copied d x y s s'"
proof -
  obtain a t b u where r: "bread d y s = Inr (Returned a, t)" "bread d x t = Inr (Returned b, u)" "log_of t = log_of s" "resting p k u"
    "a \<noteq> b" "a < NBUF" "b < NBUF" "log_cache {a, b} P d k (world u)" "dev (buf_of a u) = d" "blockno (buf_of a u) = y"
    "dev (buf_of b u) = d" "blockno (buf_of b u) = x"
    and same: "log_of u = log_of s" "log_world.more (world u) = log_world.more (world s)" "disk (world u) = disk (world s)"
      "io (world u) = io (world s)" "\<forall>m. content (world u) d m = content (world s) d m"
    using read_two [OF assms(1-3), of y x] assms(7) by auto
  have h: "{a, b} = {b, a}" by auto
  obtain s' where "seq (bwrite a (set_data a (data (buf_of b u)) u)) (\<lambda>s. seq (if False then bunpin a s else Inr s) (\<lambda>s.
      seq (brelse b s) (brelse a))) = Inr s'" "resting p k s'" "log_cache {} (P - {y}) d k (world s')" "copied d x y u s'"
    using finish_copy [OF r(4) r(8) [unfolded h], where x = x and y = y and unpin = False] r(5-7,9-12) assms(7-9) by auto
  then show ?thesis
    using r(1-3) assms(4-6,9) copied_view [OF _ same] by (simp add: write_log_one_def wait_for_def)
qed

lemma install_one_ok:
  assumes "resting p k s" and "log_cache {} P d k (world s)" and "card P + 2 \<le> NBUF" and "log_dev (log_of s) = d"
    and "lh_block (lh (log_of s)) ! tail = y" and "log_start (log_of s) + tail + 1 = x" and "x \<noteq> y" and "y \<in> P \<longleftrightarrow> \<not> recovering"
    and "x \<notin> P"
  shows "\<exists>s'. install_one recovering tail s = Inr s' \<and> resting p k s' \<and> log_cache {} (P - {y}) d k (world s') \<and> copied d x y s s'"
proof -
  obtain a t b u where r: "bread d x s = Inr (Returned a, t)" "bread d y t = Inr (Returned b, u)" "log_of t = log_of s" "resting p k u"
    "a \<noteq> b" "a < NBUF" "b < NBUF" "log_cache {a, b} P d k (world u)" "dev (buf_of a u) = d" "blockno (buf_of a u) = x"
    "dev (buf_of b u) = d" "blockno (buf_of b u) = y"
    and same: "log_of u = log_of s" "log_world.more (world u) = log_world.more (world s)" "disk (world u) = disk (world s)"
      "io (world u) = io (world s)" "\<forall>m. content (world u) d m = content (world s) d m"
    using read_two [OF assms(1-3), of x y] assms(7) by auto
  have "content (world u) d x = disk (world u) d x" using log_cache_clean [OF assms(2,9)] same(3,5) by simp
  then obtain s' where "seq (bwrite b (set_data b (data (buf_of a u)) u)) (\<lambda>s. seq (if \<not> recovering then bunpin b s else Inr s) (\<lambda>s.
      seq (brelse a s) (brelse b))) = Inr s'" "resting p k s'" "log_cache {} (P - {y}) d k (world s')" "copied d x y u s'"
    using finish_copy [OF r(4) r(8), where x = x and y = y and unpin = "\<not> recovering"] r(5-7,9-12) assms(7,8) by auto
  then show ?thesis
    using r(1-3) assms(4-6) copied_view [OF _ same] by (simp add: install_one_def wait_for_def)
qed

section \<open>Runs of disk writes\<close>

definition put_all :: "(nat \<times> block) list \<Rightarrow> (nat \<Rightarrow> block) \<Rightarrow> nat \<Rightarrow> block" where
  "put_all ws f = fold (\<lambda>(y, v) f. f(y := v)) ws f"

lemma put_all_simps [simp]: "put_all [] f = f" "put_all ((y, v) # ws) f = put_all ws (f(y := v))" "put_all (vs @ ws) f = put_all ws (put_all vs f)"
  by (simp_all add: put_all_def)

lemma put_all_outside: "m \<notin> fst ` set ws \<Longrightarrow> put_all ws f m = f m"
  by (induction ws arbitrary: f) auto

lemma put_all_distinct: "distinct (map fst ws) \<Longrightarrow> (y, v) \<in> set ws \<Longrightarrow> put_all ws f y = v"
  by (induction ws arbitrary: f) (force simp: put_all_outside)+

definition wrote :: "nat \<Rightarrow> (nat \<times> block) list \<Rightarrow> 'a lkernel \<Rightarrow> 'a lkernel \<Rightarrow> bool" where
  "wrote d ws s s' \<longleftrightarrow> log_of s' = log_of s \<and> log_world.more (world s') = log_world.more (world s) \<and>
     disk (world s') = (disk (world s))(d := put_all ws (disk (world s) d)) \<and>
     io (world s') = io (world s) @ map (Pair d) ws \<and> content (world s') d = put_all ws (content (world s) d)"

lemma wrote_nil [simp]: "wrote d [] s s"
  by (simp add: wrote_def)

lemma wrote_trans: "wrote d ws s t \<Longrightarrow> wrote d vs t u \<Longrightarrow> wrote d (ws @ vs) s u"
  by (simp add: wrote_def)

lemma copied_wrote: "copied d x y s s' \<Longrightarrow> wrote d [(y, content (world s) d x)] s s'"
  by (auto simp: copied_def wrote_def)

definition log_ok :: "log \<Rightarrow> bool" where
  "log_ok l \<longleftrightarrow> 0 \<le> lh_n (lh l) \<and> lh_n (lh l) \<le> int LOGBLOCKS \<and> length (lh_block (lh l)) = LOGBLOCKS \<and>
     distinct (take (nat (lh_n (lh l))) (lh_block (lh l))) \<and>
     (\<forall>m \<in> set (take (nat (lh_n (lh l))) (lh_block (lh l))). m < 2 ^ 32 \<and> (m < log_start l \<or> log_start l + LOGBLOCKS < m))"

definition logged :: "log \<Rightarrow> nat list" where
  "logged l = take (nat (lh_n (lh l))) (lh_block (lh l))"

lemma logged_nth:
  assumes "log_ok l"
  shows "length (logged l) = nat (lh_n (lh l))" and "i < nat (lh_n (lh l)) \<Longrightarrow> logged l ! i = lh_block (lh l) ! i" and "distinct (logged l)"
    and "m \<in> set (logged l) \<Longrightarrow> m < log_start l \<or> log_start l + LOGBLOCKS < m" and "m \<in> set (logged l) \<Longrightarrow> m < 2 ^ 32"
    and "nat (lh_n (lh l)) \<le> LOGBLOCKS"
  using assms by (auto simp: log_ok_def logged_def)

lemma write_log_loop:
  assumes "resting p k s" and "log_cache {} P d k (world s)" and "card P + 2 \<le> NBUF" and "log_dev (log_of s) = d"
    and "log_ok (log_of s)" and "P = set (logged (log_of s))" and "n = nat (lh_n (lh (log_of s)))" and "j \<le> n"
  shows "\<exists>s'. for_each write_log_one [j..<n] s = Inr s' \<and> resting p k s' \<and> log_cache {} P d k (world s') \<and>
    wrote d (map (\<lambda>i. (log_start (log_of s) + i + 1, content (world s) d (logged (log_of s) ! i))) [j..<n]) s s'"
  using assms
proof (induction "n - j" arbitrary: j s)
  case 0
  then show ?case by simp
next
  case (Suc x)
  let ?l = "log_of s"
  have j: "j < n" "[j..<n] = j # [Suc j..<n]" and x: "x = n - Suc j" using Suc.hyps(2) by (simp_all add: upt_conv_Cons)
  note l = logged_nth [OF Suc.prems(5)]
  have y: "lh_block (lh ?l) ! j = logged ?l ! j" "logged ?l ! j \<in> P"
    using l(2) [of j] nth_mem [of j "logged ?l"] l(1) j(1) Suc.prems(6,7) by simp_all
  have out: "log_start ?l + j + 1 \<notin> P" using l(4) [of "log_start ?l + j + 1"] l(6) j(1) Suc.prems(6,7) by auto
  have ne: "logged ?l ! i \<noteq> log_start ?l + j + 1" if "i < n" for i using out that l(1) Suc.prems(6,7) nth_mem by metis
  obtain t where t: "write_log_one j s = Inr t" "resting p k t" "log_cache {} P d k (world t)" "copied d (logged ?l ! j) (log_start ?l + j + 1) s t"
    using write_log_one_ok [OF Suc.prems(1-4) y(1) refl _ y(2) out] ne [OF j(1)] by auto
  have lt: "log_of t = ?l" "\<And>i. i < n \<Longrightarrow> content (world t) d (logged ?l ! i) = content (world s) d (logged ?l ! i)"
    using t(4) ne by (auto simp: copied_def)
  obtain s' where s': "for_each write_log_one [Suc j..<n] t = Inr s'" "resting p k s'" "log_cache {} P d k (world s')"
      "wrote d (map (\<lambda>i. (log_start ?l + i + 1, content (world t) d (logged ?l ! i))) [Suc j..<n]) t s'"
    using Suc.hyps(1) [OF x, of t] Suc.prems t(2,3) lt(1) j(1) by auto
  have "map (\<lambda>i. (log_start ?l + i + 1, content (world t) d (logged ?l ! i))) [Suc j..<n] =
      map (\<lambda>i. (log_start ?l + i + 1, content (world s) d (logged ?l ! i))) [Suc j..<n]" using lt(2) by simp
  note w = s'(4) [unfolded this]
  show ?case using s'(1-3) t(1) wrote_trans [OF copied_wrote [OF t(4)] w] j(2) by simp
qed

lemma install_loop:
  assumes "resting p k s" and "log_cache {} P d k (world s)" and "card P + 2 \<le> NBUF" and "log_dev (log_of s) = d"
    and "log_ok (log_of s)" and "P = (if recovering then {} else set (drop j (logged (log_of s))))"
    and "n = nat (lh_n (lh (log_of s)))" and "j \<le> n"
  shows "\<exists>s'. for_each (install_one recovering) [j..<n] s = Inr s' \<and> resting p k s' \<and> log_cache {} {} d k (world s') \<and>
    wrote d (map (\<lambda>i. (logged (log_of s) ! i, content (world s) d (log_start (log_of s) + i + 1))) [j..<n]) s s'"
  using assms
proof (induction "n - j" arbitrary: j s P)
  case 0
  then have "P = {}" using logged_nth(1) [OF 0(6)] by simp
  then show ?case using 0 by simp
next
  case (Suc x)
  let ?l = "log_of s" and ?y = "logged (log_of s) ! j"
  have j: "j < n" "[j..<n] = j # [Suc j..<n]" and x: "x = n - Suc j" using Suc.hyps(2) by (simp_all add: upt_conv_Cons)
  note l = logged_nth [OF Suc.prems(5)]
  have dr: "drop j (logged ?l) = ?y # drop (Suc j) (logged ?l)" using l(1) j(1) Suc.prems(7) by (simp add: Cons_nth_drop_Suc)
  have P': "P - {?y} = (if recovering then {} else set (drop (Suc j) (logged ?l)))"
    using Suc.prems(6) dr distinct_drop [OF l(3), of j] by auto
  have y: "lh_block (lh ?l) ! j = ?y" "?y \<in> P \<longleftrightarrow> \<not> recovering"
    using l(2) [of j] dr j(1) Suc.prems(6,7) by simp_all
  have inl: "log_start ?l + i + 1 \<notin> set (logged ?l)" if "i < n" for i
    using l(4) [of "log_start ?l + i + 1"] l(6) that Suc.prems(7) by auto
  have out: "log_start ?l + j + 1 \<notin> P" using inl [OF j(1)] Suc.prems(6) set_drop_subset [of j "logged ?l"] by auto
  have ne: "log_start ?l + i + 1 \<noteq> ?y" if "i < n" for i
    using inl [OF that] nth_mem [of j "logged ?l"] l(1) j(1) Suc.prems(7) by metis
  obtain t where t: "install_one recovering j s = Inr t" "resting p k t" "log_cache {} (P - {?y}) d k (world t)"
      "copied d (log_start ?l + j + 1) ?y s t"
    using install_one_ok [OF Suc.prems(1-4) y(1) refl ne [OF j(1)] y(2) out] by auto
  have lt: "log_of t = ?l" "\<And>i. i < n \<Longrightarrow> content (world t) d (log_start ?l + i + 1) = content (world s) d (log_start ?l + i + 1)"
    using t(4) ne by (auto simp: copied_def)
  have "card (P - {?y}) + 2 \<le> NBUF" using Suc.prems(3) card_Diff1_le [of P ?y] by linarith
  moreover have "log_dev (log_of t) = d" "log_ok (log_of t)" "P - {?y} = (if recovering then {} else set (drop (Suc j) (logged (log_of t))))"
      "n = nat (lh_n (lh (log_of t)))" "Suc j \<le> n"
    using Suc.prems(4,5,7) P' lt(1) j(1) by simp_all
  ultimately obtain s' where s': "for_each (install_one recovering) [Suc j..<n] t = Inr s'" "resting p k s'" "log_cache {} {} d k (world s')"
      "wrote d (map (\<lambda>i. (logged ?l ! i, content (world t) d (log_start ?l + i + 1))) [Suc j..<n]) t s'"
    using Suc.hyps(1) [OF x t(2,3)] lt(1) by auto
  have "map (\<lambda>i. (logged ?l ! i, content (world t) d (log_start ?l + i + 1))) [Suc j..<n] =
      map (\<lambda>i. (logged ?l ! i, content (world s) d (log_start ?l + i + 1))) [Suc j..<n]" using lt(2) by simp
  note w = s'(4) [unfolded this]
  show ?case using s'(1-3) t(1) wrote_trans [OF copied_wrote [OF t(4)] w] j(2) by simp
qed

section \<open>The header on the disk\<close>

lemma length_put_int [simp]: "length (put_int d i k v) = length d"
  by (induction d i k v rule: put_int.induct) simp_all

lemma nth_put_int: "j < i \<or> i + k \<le> j \<Longrightarrow> put_int d i k v ! j = d ! j"
  by (induction d i k v rule: put_int.induct) auto

lemma get_int_cong: "(\<And>j. i \<le> j \<Longrightarrow> j < i + k \<Longrightarrow> d ! j = e ! j) \<Longrightarrow> get_int d i k = get_int e i k"
  by (induction d i k rule: get_int.induct) simp_all

lemma get_int_other: "j + m \<le> i \<or> i + k \<le> j \<Longrightarrow> get_int (put_int d i k v) j m = get_int d j m"
  by (intro get_int_cong nth_put_int) auto

lemma get_put_int: "i + k \<le> length d \<Longrightarrow> get_int (put_int d i k v) i k = v mod 256 ^ k"
proof (induction d i k v rule: put_int.induct)
  case (2 d i k v)
  then have "unat (put_int (d[i := of_nat v]) (Suc i) k (v div 256) ! i) = v mod 256"
    by (simp add: nth_put_int unat_of_nat)
  then show ?case using 2 by (simp add: mod_mult2_eq)
qed simp

definition put_blocks :: "nat list \<Rightarrow> nat \<Rightarrow> block \<Rightarrow> block" where
  "put_blocks bl n = fold (\<lambda>i d. put_int d (4 + 4 * i) 4 (bl ! i)) [0..<n]"

lemma put_blocks_simps [simp]:
  "put_blocks bl 0 d = d" "put_blocks bl (Suc n) d = put_int (put_blocks bl n d) (4 + 4 * n) 4 (bl ! n)"
  by (simp_all add: put_blocks_def)

lemma put_head_eq: "put_head h d = put_blocks (lh_block h) (nat (lh_n h)) (put_int d 0 4 (unat (of_int (lh_n h) :: 32 word)))"
  by (simp add: put_head_def put_blocks_def)

lemma length_put_blocks [simp]: "length (put_blocks bl n d) = length d"
  by (induction n) simp_all

lemma length_put_head [simp]: "length (put_head h d) = length d"
  by (simp add: put_head_eq)

lemma put_blocks_n: "get_int (put_blocks bl n d) 0 4 = get_int d 0 4"
  by (induction n) (simp_all add: get_int_other)

lemma put_blocks_nth: "4 + 4 * n \<le> length d \<Longrightarrow> i < n \<Longrightarrow> get_int (put_blocks bl n d) (4 + 4 * i) 4 = bl ! i mod 2 ^ 32"
proof (induction n)
  case (Suc n)
  show ?case
  proof (cases "i = n")
    case True
    then show ?thesis using Suc.prems by (simp add: get_put_int)
  next
    case False
    then show ?thesis using Suc by (simp add: get_int_other)
  qed
qed simp

lemma hd_put_head:
  assumes "0 \<le> lh_n h" and "lh_n h \<le> int LOGBLOCKS" and "length d = 1024"
  shows "hd_n (put_head h d) = lh_n h"
    and "i < nat (lh_n h) \<Longrightarrow> lh_block h ! i < 2 ^ 32 \<Longrightarrow> hd_block (put_head h d) i = lh_block h ! i"
proof -
  have n: "nat (lh_n h) \<le> 30" using assms(2) by (simp add: LOGBLOCKS_def MAXOPBLOCKS_def)
  have "unat (of_int (lh_n h) :: 32 word) < 2 ^ 32" using unsigned_less [of "of_int (lh_n h) :: 32 word", where ?'a = nat] by simp
  then have "get_int (put_head h d) 0 4 = unat (of_int (lh_n h) :: 32 word)"
    using assms(3) by (simp add: put_head_eq put_blocks_n get_put_int)
  then have "hd_n (put_head h d) = sint (of_int (lh_n h) :: 32 word)" by (simp add: hd_n_def)
  also have "\<dots> = lh_n h" using n assms(1) by (simp add: signed_of_int signed_take_bit_int_eq_self)
  finally show "hd_n (put_head h d) = lh_n h" .
  assume "i < nat (lh_n h)" "lh_block h ! i < 2 ^ 32"
  then show "hd_block (put_head h d) i = lh_block h ! i"
    using n assms(3) put_blocks_nth [of "nat (lh_n h)" _ i] by (simp add: hd_block_def put_head_eq)
qed

section \<open>Committing and recovering\<close>

lemma upd_log_simps [simp]:
  "resting p k (upd_log f s) \<longleftrightarrow> resting p k s" "log_of (upd_log f s) = f (log_of s)"
  "log_cache H P d k (world (upd_log f s)) \<longleftrightarrow> log_cache H P d k (world s)" "content (world (upd_log f s)) = content (world s)"
  "disk (world (upd_log f s)) = disk (world s)" "io (world (upd_log f s)) = io (world s)"
  "log_world.more (world (upd_log f s)) = log_world.more (world s)" "buf_of b (upd_log f s) = buf_of b s"
  by (simp_all add: upd_log_def log_of_def log_cache_def cache_ok_def pinf_def [abs_def] content_def fun_eq_iff buf_of_def split: option.splits)

lemma write_head_ok:
  fixes s :: "'a lkernel"
  assumes "resting p k s" and "log_cache {} P d k (world s)" and "card P < NBUF" and "log_dev (log_of s) = d" and "log_start (log_of s) \<notin> P"
  shows "\<exists>s'. write_head s = Inr s' \<and> resting p k s' \<and> log_cache {} P d k (world s') \<and>
    wrote d [(log_start (log_of s), put_head (lh (log_of s)) (content (world s) d (log_start (log_of s))))] s s'"
proof -
  let ?x = "log_start (log_of s)"
  define v where "v = put_head (lh (log_of s)) (content (world s) d ?x)"
  have d: "d \<noteq> 0" and len: "length (bufs (world s)) = NBUF" using assms(2) by (simp_all add: log_cache_def cache_ok_def)
  obtain b z t where t: "bread d ?x s = Inr (Returned b, t)" "resting p k t" "b < NBUF" "world t = (world s)\<lparr>bufs := (bufs (world s))[b := z]\<rparr>"
      "log_cache {b} P d k (world t)" "dev z = d" "blockno z = ?x" "data z = content (world s) d ?x"
      "\<forall>e m. e \<noteq> 0 \<longrightarrow> content (world t) e m = content (world s) e m"
    using bread_log_ok [OF assms(1,2), of ?x] assms(3) by auto
  have bt: "buf_of b t = z" and lent: "length (bufs (world t)) = NBUF" using t(3,4) len by (simp_all add: buf_of_def)
  define u where "u = set_data b v t"
  have bu: "buf_of b u = z\<lparr>data := v\<rparr>" using bt lent t(3) by (simp add: u_def set_data_def buf_of_def bufs_upd_buf)
  have u: "resting p k u" "log_cache {b} P d k (world u)" "disk (world u) = disk (world s)" "io (world u) = io (world s)" "log_of u = log_of s"
      "log_world.more (world u) = log_world.more (world s)"
      "\<And>m. content (world u) d m = (if m = ?x then v else content (world s) d m)"
    using set_data_log [OF t(5) _ t(3), where v = v] bt t d by (simp_all add: u_def set_data_def bufs_upd_buf log_of_def)
  obtain u2 where u2: "bwrite b u = Inr u2" "resting p k u2" "log_cache {b} P d k (world u2)"
      "world u2 = (world u)\<lparr>disk := (disk (world u))(d := (disk (world u) d)(?x := v)), io := io (world u) @ [(d, ?x, v)]\<rparr>"
      "\<And>m. content (world u2) d m = content (world u) d m"
    using bwrite_log [OF u(1,2) _ t(3)] bu t(6,7) d by auto
  have b2: "buf_of b u2 = z\<lparr>data := v\<rparr>" using u2(4) bu by (simp add: buf_of_def)
  have "content (world u2) d ?x = disk (world u2) d ?x" using u2(4,5) u(7) by simp
  then obtain s' x l where s': "brelse b u2 = Inr s'" "resting p k s'" "log_cache {} P d k (world s')"
      "world s' = (world u2)\<lparr>bufs := (bufs (world u2))[b := x], lru := l\<rparr>" "\<And>m. content (world s') d m = content (world u2) d m"
    using brelse_log [OF u2(2,3) _ t(3)] b2 t(6,7) by auto
  have lt: "log_of t = log_of s" using t(4) by (simp add: log_of_def)
  have "wrote d [(?x, v)] s s'"
    using s'(4,5) u2(4,5) u by (simp add: wrote_def log_of_def fun_eq_iff)
  moreover have "write_head s = Inr s'"
    using t(1) u2(1) s'(1) bt lt t(8) assms(4) by (simp add: write_head_def wait_for_def u_def v_def)
  ultimately show ?thesis using s'(2,3) by (simp add: v_def)
qed

definition log_copy :: "log \<Rightarrow> (nat \<Rightarrow> block) \<Rightarrow> (nat \<times> block) list" where
  "log_copy l c = map (\<lambda>i. (log_start l + i + 1, c (logged l ! i))) [0..<length (logged l)]"

definition home_copy :: "log \<Rightarrow> (nat \<Rightarrow> block) \<Rightarrow> (nat \<times> block) list" where
  "home_copy l c = map (\<lambda>i. (logged l ! i, c (logged l ! i))) [0..<length (logged l)]"

definition commit_writes :: "log \<Rightarrow> (nat \<Rightarrow> block) \<Rightarrow> (nat \<times> block) list" where
  "commit_writes l c = log_copy l c @ [(log_start l, put_head (lh l) (c (log_start l)))] @ home_copy l c @
     [(log_start l, put_head ((lh l)\<lparr>lh_n := 0\<rparr>) (put_head (lh l) (c (log_start l))))]"

lemma fst_log_copy: "fst ` set (log_copy l c) = (\<lambda>i. log_start l + i + 1) ` {..<length (logged l)}"
  by (simp add: log_copy_def image_image lessThan_atLeast0)

lemma fst_home_copy: "fst ` set (home_copy l c) = set (logged l)"
  by (simp add: home_copy_def image_image) (auto simp: set_conv_nth)

lemma log_copy_nth:
  assumes "log_ok l" and "i < length (logged l)" and "log_start l + i + 1 \<notin> fst ` set ws"
  shows "put_all (log_copy l c @ ws) f (log_start l + i + 1) = c (logged l ! i)"
proof -
  have "distinct (map fst (log_copy l c))" by (simp add: log_copy_def distinct_map o_def inj_on_def)
  moreover have "(log_start l + i + 1, c (logged l ! i)) \<in> set (log_copy l c)" using assms(2) by (force simp: log_copy_def)
  ultimately show ?thesis using put_all_distinct put_all_outside assms(3) by (metis put_all_simps(3))
qed

lemma commit_ok:
  fixes s :: "'a lkernel"
  assumes "resting p k s" and "log_cache {} (set (logged (log_of s))) d k (world s)" and "log_dev (log_of s) = d" and "log_ok (log_of s)"
    and "0 < lh_n (lh (log_of s))" and "lh_n (lh (log_of s)) + 2 \<le> int NBUF"
  shows "\<exists>s'. commit s = Inr s' \<and> resting p k s' \<and> log_cache {} {} d k (world s') \<and>
    log_of s' = (log_of s)\<lparr>lh := (lh (log_of s))\<lparr>lh_n := 0\<rparr>\<rparr> \<and>
    io (world s') = io (world s) @ map (Pair d) (commit_writes (log_of s) (content (world s) d)) \<and>
    disk (world s') = (disk (world s))(d := put_all (commit_writes (log_of s) (content (world s) d)) (disk (world s) d))"
proof -
  let ?l = "log_of s" and ?P = "set (logged (log_of s))" and ?c = "content (world s) d" and ?x = "log_start (log_of s)"
  define n where "n = nat (lh_n (lh ?l))"
  note l = logged_nth [OF assms(4), folded n_def]
  have c: "card ?P + 2 \<le> NBUF" using distinct_card [OF l(3)] l(1) assms(5,6) n_def by simp
  obtain s1 where s1: "for_each write_log_one [0..<n] s = Inr s1" "resting p k s1" "log_cache {} ?P d k (world s1)" "wrote d (log_copy ?l ?c) s s1"
    using write_log_loop [OF assms(1,2) c assms(3,4) refl n_def, of 0] l(1) by (auto simp: log_copy_def)
  have l1: "log_of s1 = ?l" "content (world s1) d = put_all (log_copy ?l ?c) ?c" using s1(4) by (simp_all add: wrote_def)
  have x1: "?x \<notin> ?P" using l(4) by force
  have "content (world s1) d ?x = ?c ?x" unfolding l1(2) by (rule put_all_outside) (auto simp: fst_log_copy)
  then obtain s2 where s2: "write_head s1 = Inr s2" "resting p k s2" "log_cache {} ?P d k (world s2)" "wrote d [(?x, put_head (lh ?l) (?c ?x))] s1 s2"
    using write_head_ok [OF s1(2,3)] c assms(3) l1(1) x1 by auto
  have l2: "log_of s2 = ?l" "content (world s2) d = put_all (log_copy ?l ?c @ [(?x, put_head (lh ?l) (?c ?x))]) ?c"
    using s2(4) l1 by (simp_all add: wrote_def)
  have lc: "content (world s2) d (?x + i + 1) = ?c (logged ?l ! i)" if "i < n" for i
    unfolding l2(2) by (rule log_copy_nth [OF assms(4)]) (use that l(1) in auto)
  have "set (drop 0 (logged ?l)) = ?P" by simp
  with l2(1) obtain s3 where s3: "for_each (install_one False) [0..<n] s2 = Inr s3" "resting p k s3" "log_cache {} {} d k (world s3)"
      "wrote d (map (\<lambda>i. (logged ?l ! i, content (world s2) d (?x + i + 1))) [0..<n]) s2 s3"
    using install_loop [OF s2(2,3) c, where recovering = False and j = 0 and n = n] assms(3,4) n_def by auto
  have "map (\<lambda>i. (logged ?l ! i, content (world s2) d (?x + i + 1))) [0..<n] = home_copy ?l ?c"
    using lc l(1) by (simp add: home_copy_def)
  note w3 = s3(4) [unfolded this]
  define u where "u = upd_log (\<lambda>l. l\<lparr>lh := (lh l)\<lparr>lh_n := 0\<rparr>\<rparr>) s3"
  have l3: "log_of s3 = ?l" "content (world s3) d = put_all (home_copy ?l ?c) (content (world s2) d)" using w3 l2(1) by (simp_all add: wrote_def)
  have "content (world s3) d ?x = put_head (lh ?l) (?c ?x)"
    unfolding l3(2) using x1 by (simp add: put_all_outside fst_home_copy l2(2))
  moreover have "resting p k u" "log_cache {} {} d k (world u)" using s3(2,3) by (simp_all add: u_def)
  ultimately obtain s4 where s4: "write_head u = Inr s4" "resting p k s4" "log_cache {} {} d k (world s4)"
      "wrote d [(?x, put_head ((lh ?l)\<lparr>lh_n := 0\<rparr>) (put_head (lh ?l) (?c ?x)))] u s4"
    using write_head_ok [of p k u "{}" d] l3(1) assms(3) by (auto simp: u_def NBUF_def MAXOPBLOCKS_def)
  have "commit s = Inr s4"
    using s1(1) s2(1) s3(1) s4(1) l1(1) l2(1) assms(5) by (simp add: commit_def write_log_def install_trans_def n_def u_def)
  then show ?thesis
    using s4(2-4) w3 s2(4) s1(4) l3(1) by (intro exI [of _ s4]) (simp add: wrote_def commit_writes_def u_def)
qed

lemma get_int_bound: "get_int d i k < 256 ^ k"
proof (induction d i k rule: get_int.induct)
  case (2 d i k)
  have "unat (d ! i) < 256" using unsigned_less [of "d ! i", where ?'a = nat] by simp
  then show ?case using 2 by simp
qed simp

lemma read_head_loop_ok:
  assumes "n \<le> LOGBLOCKS" and "j \<le> n" and "length bl = LOGBLOCKS"
  shows "\<exists>bl'. read_head_loop d [j..<n] bl = Inr bl' \<and> length bl' = LOGBLOCKS \<and> (\<forall>i < n. bl' ! i = (if j \<le> i then hd_block d i else bl ! i))"
  using assms(2,3)
proof (induction "n - j" arbitrary: j bl)
  case (Suc x)
  have j: "j < n" "[j..<n] = j # [Suc j..<n]" and x: "x = n - Suc j" using Suc.hyps(2) by (simp_all add: upt_conv_Cons)
  obtain bl' where "read_head_loop d [Suc j..<n] (bl[j := hd_block d j]) = Inr bl'" "length bl' = LOGBLOCKS"
      "\<forall>i < n. bl' ! i = (if Suc j \<le> i then hd_block d i else bl[j := hd_block d j] ! i)"
    using Suc.hyps(1) [OF x, of "bl[j := hd_block d j]"] Suc.prems j(1) by auto
  moreover from this have "bl' ! i = (if j \<le> i then hd_block d i else bl ! i)" if "i < n" for i
    using that Suc.prems(2) j(1) assms(1) by (cases "i = j") (auto simp: not_less_eq_eq)
  ultimately show ?case using j assms(1) by simp
qed simp

definition disk_log :: "block \<Rightarrow> nat list" where
  "disk_log h = map (hd_block h) [0..<nat (hd_n h)]"

lemma read_head_ok:
  fixes s :: "'a lkernel"
  assumes "resting p k s" and "log_cache {} {} d k (world s)" and "log_dev (log_of s) = d" and "length (lh_block (lh (log_of s))) = LOGBLOCKS"
    and "h = disk (world s) d (log_start (log_of s))" and "0 \<le> hd_n h" and "hd_n h \<le> int LOGBLOCKS"
  shows "\<exists>s' bl. read_head s = Inr s' \<and> resting p k s' \<and> log_cache {} {} d k (world s') \<and> length bl = LOGBLOCKS \<and>
    take (nat (hd_n h)) bl = disk_log h \<and> log_of s' = (log_of s)\<lparr>lh := \<lparr>lh_n = hd_n h, lh_block = bl\<rparr>\<rparr> \<and>
    disk (world s') = disk (world s) \<and> content (world s') d = content (world s) d"
proof -
  let ?x = "log_start (log_of s)"
  have d: "d \<noteq> 0" and len: "length (bufs (world s)) = NBUF" using assms(2) by (simp_all add: log_cache_def cache_ok_def)
  have hx: "content (world s) d ?x = h" using log_cache_clean [OF assms(2)] assms(5) by simp
  obtain b z t where t: "bread d ?x s = Inr (Returned b, t)" "resting p k t" "b < NBUF" "world t = (world s)\<lparr>bufs := (bufs (world s))[b := z]\<rparr>"
      "log_cache {b} {} d k (world t)" "dev z = d" "blockno z = ?x" "data z = h" "\<forall>e m. e \<noteq> 0 \<longrightarrow> content (world t) e m = content (world s) e m"
    using bread_log_ok [OF assms(1,2), of ?x] hx by (auto simp: NBUF_def MAXOPBLOCKS_def)
  have bt: "buf_of b t = z" and lt: "log_of t = log_of s" using t(3,4) len by (simp_all add: buf_of_def log_of_def)
  obtain bl where bl: "read_head_loop h [0..<nat (hd_n h)] (lh_block (lh (log_of s))) = Inr bl" "length bl = LOGBLOCKS"
      "\<forall>i < nat (hd_n h). bl ! i = hd_block h i"
    using read_head_loop_ok [of "nat (hd_n h)" 0, OF _ _ assms(4), of h] assms(7) by (auto simp: nat_le_iff)
  define u where "u = upd_log (\<lambda>l. l\<lparr>lh := \<lparr>lh_n = hd_n h, lh_block = bl\<rparr>\<rparr>) t"
  have u: "resting p k u" "log_cache {b} {} d k (world u)" "buf_of b u = z" "\<And>m. content (world u) d m = content (world s) d m"
      "disk (world u) = disk (world s)" "log_of u = (log_of s)\<lparr>lh := \<lparr>lh_n = hd_n h, lh_block = bl\<rparr>\<rparr>"
    using t(2,4,5,9) bt lt d by (simp_all add: u_def)
  obtain s' x l where s': "brelse b u = Inr s'" "resting p k s'" "log_cache {} {} d k (world s')"
      "world s' = (world u)\<lparr>bufs := (bufs (world u))[b := x], lru := l\<rparr>" "\<And>m. content (world s') d m = content (world u) d m"
    using brelse_log [OF u(1,2) _ t(3)] u(3-5) t(6,7) hx assms(5) by auto
  have "take (nat (hd_n h)) bl = disk_log h"
    using bl(2,3) assms(7) by (auto simp: disk_log_def list_eq_iff_nth_eq)
  moreover have "read_head s = Inr s'"
    using t(1,8) bt lt bl(1) s'(1) assms(3) by (simp add: read_head_def wait_for_def u_def Let_def)
  ultimately show ?thesis
    using s' u(4-6) bl(2) by (intro exI [of _ s'] exI [of _ bl]) (simp add: log_of_def fun_eq_iff)
qed

lemma recover_ok:
  fixes s :: "'a lkernel"
  assumes "resting p k s" and "log_cache {} {} d k (world s)" and "log_dev (log_of s) = d" and "length (lh_block (lh (log_of s))) = LOGBLOCKS"
    and "h = disk (world s) d (log_start (log_of s))" and "0 \<le> hd_n h" and "hd_n h \<le> int LOGBLOCKS" and "length h = 1024"
    and "distinct (disk_log h)" and "\<forall>m \<in> set (disk_log h). m < log_start (log_of s) \<or> log_start (log_of s) + LOGBLOCKS < m"
  shows "\<exists>s' v. recover_from_log s = Inr s' \<and> resting p k s' \<and> log_cache {} {} d k (world s') \<and> hd_n v = 0 \<and>
    disk (world s') = (disk (world s))(d := put_all (map (\<lambda>i. (disk_log h ! i, disk (world s) d (log_start (log_of s) + i + 1)))
      [0..<length (disk_log h)] @ [(log_start (log_of s), v)]) (disk (world s) d))"
proof -
  let ?x = "log_start (log_of s)"
  obtain s1 bl where s1: "read_head s = Inr s1" "resting p k s1" "log_cache {} {} d k (world s1)" "length bl = LOGBLOCKS"
      "take (nat (hd_n h)) bl = disk_log h" "log_of s1 = (log_of s)\<lparr>lh := \<lparr>lh_n = hd_n h, lh_block = bl\<rparr>\<rparr>"
      "disk (world s1) = disk (world s)" "content (world s1) d = content (world s) d"
    using read_head_ok [OF assms(1-7)] by auto
  have lg: "logged (log_of s1) = disk_log h" using s1(5,6) by (simp add: logged_def)
  have bound: "m < 2 ^ 32" if "m \<in> set (disk_log h)" for m
    using that get_int_bound [of h _ 4] by (auto simp: disk_log_def hd_block_def)
  have "log_ok (log_of s1)" using assms(6,7,9,10) s1(4-6) bound by (auto simp: log_ok_def)
  then obtain s2 where s2: "for_each (install_one True) [0..<nat (hd_n h)] s1 = Inr s2" "resting p k s2" "log_cache {} {} d k (world s2)"
      "wrote d (map (\<lambda>i. (disk_log h ! i, content (world s1) d (?x + i + 1))) [0..<nat (hd_n h)]) s1 s2"
    using install_loop [OF s1(2,3), where recovering = True and j = 0 and n = "nat (hd_n h)"] assms(3) s1(6) lg
    by (auto simp: NBUF_def MAXOPBLOCKS_def)
  define u where "u = upd_log (\<lambda>l. l\<lparr>lh := (lh l)\<lparr>lh_n := 0\<rparr>\<rparr>) s2"
  define v where "v = put_head (lh (log_of u)) (content (world u) d (log_start (log_of u)))"
  have l2: "log_of s2 = log_of s1" using s2(4) by (simp add: wrote_def)
  have "resting p k u" "log_cache {} {} d k (world u)" "log_dev (log_of u) = d" using s2(2,3) assms(3) l2 s1(6) by (simp_all add: u_def)
  then obtain s3 where s3: "write_head u = Inr s3" "resting p k s3" "log_cache {} {} d k (world s3)" "wrote d [(?x, v)] u s3"
    using write_head_ok [of p k u "{}" d] l2 s1(6) by (auto simp: v_def u_def NBUF_def MAXOPBLOCKS_def)
  have clean: "content (world s1) d m = disk (world s) d m" for m using log_cache_clean [OF s1(3)] s1(7) by simp
  have n: "length (disk_log h) = nat (hd_n h)" by (simp add: disk_log_def)
  have "disk_log h ! i \<noteq> ?x" if "i < nat (hd_n h)" for i using assms(10) [rule_format, OF nth_mem, of i] that n by auto
  then have "?x \<notin> fst ` set (map (\<lambda>i. (disk_log h ! i, content (world s1) d (?x + i + 1))) [0..<nat (hd_n h)])"
    by (fastforce simp: image_image)
  then have "content (world u) d ?x = content (world s1) d ?x"
    using s2(4) by (simp add: u_def wrote_def put_all_outside del: set_map)
  then have "length (content (world u) d ?x) = 1024" using clean assms(5,8) by simp
  then have "hd_n v = 0" using hd_put_head(1) [of "lh (log_of u)"] l2 s1(6) by (simp add: v_def u_def)
  moreover have "recover_from_log s = Inr s3"
    using s1(1,6) s2(1) s3(1) by (simp add: recover_from_log_def install_trans_def u_def)
  ultimately show ?thesis
    using s3(2-4) s2(4) clean s1(7) n by (intro exI [of _ s3] exI [of _ v]) (simp add: wrote_def u_def)
qed

text \<open>
  The disk after the first \<open>j\<close> writes of a commit, and what recovery makes of it.
\<close>

definition home_block :: "log \<Rightarrow> nat \<Rightarrow> bool" where
  "home_block l m \<longleftrightarrow> m < log_start l \<or> log_start l + LOGBLOCKS < m"

definition redo :: "nat \<Rightarrow> (nat \<Rightarrow> block) \<Rightarrow> (nat \<times> block) list" where
  "redo x D = map (\<lambda>i. (disk_log (D x) ! i, D (x + i + 1))) [0..<length (disk_log (D x))]"

lemma home_not_log:
  assumes "log_ok l" and "home_block l m"
  shows "m \<noteq> log_start l" and "m \<notin> fst ` set (log_copy l c)"
  using assms(2) logged_nth(1,6) [OF assms(1)] by (auto simp: home_block_def fst_log_copy)

lemma put_all_home_copy:
  assumes "log_ok l"
  shows "put_all (home_copy l c) f m = (if m \<in> set (logged l) then c m else f m)"
proof (cases "m \<in> set (logged l)")
  case True
  have "map fst (home_copy l c) = logged l" by (simp add: home_copy_def o_def map_nth)
  moreover have "(m, c m) \<in> set (home_copy l c)" using True by (auto simp: home_copy_def set_conv_nth [of "logged l"])
  ultimately show ?thesis using True put_all_distinct [of "home_copy l c" m "c m"] logged_nth(3) [OF assms] by simp
qed (simp add: put_all_outside fst_home_copy)

lemma crash_before:
  assumes "log_ok l" and "j \<le> length (logged l)"
  shows "put_all (take j (commit_writes l c)) D (log_start l) = D (log_start l)"
    and "home_block l m \<Longrightarrow> put_all (take j (commit_writes l c)) D m = D m"
proof -
  have t: "take j (commit_writes l c) = take j (log_copy l c)" using assms(2) by (simp add: commit_writes_def log_copy_def)
  have sub: "fst ` set (take j (log_copy l c)) \<subseteq> fst ` set (log_copy l c)" by (intro image_mono set_take_subset)
  have "log_start l \<notin> fst ` set (log_copy l c)" by (auto simp: fst_log_copy)
  then show "put_all (take j (commit_writes l c)) D (log_start l) = D (log_start l)"
    unfolding t using sub by (intro put_all_outside) blast
  assume "home_block l m"
  then show "put_all (take j (commit_writes l c)) D m = D m"
    unfolding t using sub home_not_log(2) [OF assms(1), of m c] by (intro put_all_outside) blast
qed

lemma crash_after:
  assumes "log_ok l" and "length (logged l) < j" and "j \<le> 2 * length (logged l) + 1"
  shows "put_all (take j (commit_writes l c)) D (log_start l) = put_head (lh l) (c (log_start l))"
    and "i < length (logged l) \<Longrightarrow> put_all (take j (commit_writes l c)) D (log_start l + i + 1) = c (logged l ! i)"
    and "home_block l m \<Longrightarrow> m \<notin> set (logged l) \<Longrightarrow> put_all (take j (commit_writes l c)) D m = D m"
proof -
  let ?n = "length (logged l)" and ?H = "[(log_start l, put_head (lh l) (c (log_start l)))]"
  have len: "length (log_copy l c) = ?n" "length (home_copy l c) = ?n" by (simp_all add: log_copy_def home_copy_def)
  define r where "r = take (j - ?n - 1) (home_copy l c)"
  have t: "take j (commit_writes l c) = log_copy l c @ ?H @ r"
    using assms(2,3) len by (simp add: commit_writes_def r_def take_Cons')
  have sub: "fst ` set r \<subseteq> set (logged l)"
    unfolding fst_home_copy [of l c, symmetric] r_def by (intro image_mono set_take_subset)
  have out: "m \<notin> fst ` set r" if "\<not> home_block l m" for m
    using that sub logged_nth(4) [OF assms(1), of m] by (auto simp: home_block_def)
  have "\<not> home_block l (log_start l)" by (simp add: home_block_def)
  then show "put_all (take j (commit_writes l c)) D (log_start l) = put_head (lh l) (c (log_start l))"
    unfolding t using out by (simp add: put_all_outside)
  show "put_all (take j (commit_writes l c)) D (log_start l + i + 1) = c (logged l ! i)" if i: "i < ?n"
  proof -
    have "\<not> home_block l (log_start l + i + 1)" using i logged_nth(1,6) [OF assms(1)] by (simp add: home_block_def)
    then show ?thesis unfolding t by (intro log_copy_nth [OF assms(1) i]) (use out in auto)
  qed
  assume m: "home_block l m" "m \<notin> set (logged l)"
  then have "m \<notin> fst ` set r" using sub by auto
  then show "put_all (take j (commit_writes l c)) D m = D m"
    unfolding t using home_not_log [OF assms(1) m(1)] by (simp add: put_all_outside)
qed

lemma redo_atomic:
  assumes "log_ok l" and "\<forall>m. m \<notin> set (logged l) \<longrightarrow> c m = D0 m" and "hd_n (D0 (log_start l)) = 0" and "length (D0 (log_start l)) = 1024"
    and "j \<le> length (commit_writes l c)" and "D = put_all (take j (commit_writes l c)) D0"
  shows "disk_log (D (log_start l)) \<in> {[], logged l}" and "hd_n (D (log_start l)) = int (length (disk_log (D (log_start l))))"
    and "length (D (log_start l)) = 1024"
    and "home_block l m \<Longrightarrow> put_all (redo (log_start l) D) D m = (if j \<le> length (logged l) then D0 m else c m)"
proof -
  let ?x = "log_start l" and ?n = "length (logged l)"
  have len: "length (commit_writes l c) = 2 * ?n + 2" by (simp add: commit_writes_def log_copy_def home_copy_def)
  have cx: "c ?x = D0 ?x" using assms(2) logged_nth(4) [OF assms(1), of ?x] by auto
  have l: "0 \<le> lh_n (lh l)" "lh_n (lh l) \<le> int LOGBLOCKS" "?n = nat (lh_n (lh l))" using assms(1) logged_nth(1) [OF assms(1)] by (simp_all add: log_ok_def)
  have lenx: "length (put_head (lh l) (c ?x)) = 1024" using cx assms(4) by simp
  consider (old) "j \<le> ?n" | (redo) "?n < j" "j \<le> 2 * ?n + 1" | (full) "j = 2 * ?n + 2" using assms(5) len by linarith
  then have "disk_log (D ?x) \<in> {[], logged l} \<and> hd_n (D ?x) = int (length (disk_log (D ?x))) \<and> length (D ?x) = 1024 \<and>
      (home_block l m \<longrightarrow> put_all (redo ?x D) D m = (if j \<le> ?n then D0 m else c m))"
  proof cases
    case old
    note b = crash_before [OF assms(1) old, where c = c and D = D0, folded assms(6)]
    have "disk_log (D ?x) = []" using b(1) assms(3) by (simp add: disk_log_def)
    then show ?thesis using b assms(3,4) old by (simp add: redo_def)
  next
    case redo
    note a = crash_after [OF assms(1) redo, where c = c and D = D0, folded assms(6)]
    note h = hd_put_head [OF l(1,2), of "c ?x"]
    have n: "hd_n (D ?x) = int ?n" using a(1) h(1) l lenx by simp
    have "hd_block (D ?x) i = logged l ! i" if i: "i < ?n" for i
    proof -
      have "logged l ! i = lh_block (lh l) ! i" "logged l ! i < 2 ^ 32"
        using logged_nth(2) [OF assms(1), of i] logged_nth(5) [OF assms(1) nth_mem, OF i] i l(3) by simp_all
      then show ?thesis using a(1) h(2) [of i] cx assms(4) i l(3) by simp
    qed
    then have dl: "disk_log (D ?x) = logged l" unfolding disk_log_def n by (intro nth_equalityI) simp_all
    have "redo ?x D = home_copy l c" using dl a(2) by (simp add: redo_def home_copy_def)
    then show ?thesis using a(3) n dl redo assms(2) lenx a(1) put_all_home_copy [OF assms(1)] by simp
  next
    case full
    have t: "take j (commit_writes l c) = commit_writes l c" using full len by simp
    have x: "D ?x = put_head ((lh l)\<lparr>lh_n := 0\<rparr>) (put_head (lh l) (c ?x))"
      unfolding assms(6) t by (simp add: commit_writes_def)
    then have n: "hd_n (D ?x) = 0" using hd_put_head(1) [of "(lh l)\<lparr>lh_n := 0\<rparr>"] lenx by simp
    then have "disk_log (D ?x) = []" by (simp add: disk_log_def)
    moreover have "D m = c m" if "home_block l m"
      unfolding assms(6) t using home_not_log [OF assms(1) that] assms(2) put_all_home_copy [OF assms(1)]
      by (simp add: commit_writes_def put_all_outside)
    ultimately show ?thesis using n lenx x full by (simp add: redo_def)
  qed
  then show "disk_log (D ?x) \<in> {[], logged l}" "hd_n (D ?x) = int (length (disk_log (D ?x)))" "length (D ?x) = 1024"
      "home_block l m \<Longrightarrow> put_all (redo ?x D) D m = (if j \<le> ?n then D0 m else c m)" by blast+
qed

text \<open>
  C3: A transaction is atomic under crashes.  Let a process commit a log of at least one block, with room for two more buffers in
  the cache.  Then \<open>commit\<close> writes to the disk the blocks of the log, the header, the blocks at home and the cleared header, in this
  order; and if the machine stops after any number \<open>j\<close> of these
  writes, then \<open>initlog\<close>, run with an empty log and a fresh cache on the disk that was left, succeeds, clears the log, and leaves
  every block outside the log with its old content on the disk if \<open>j\<close> does not reach the write of the header, and with the content
  the transaction gave it otherwise.
\<close>

theorem commit_crash_atomic:
  fixes s t :: "'a lkernel"
  assumes "resting p k s" and "log_cache {} (set (logged (log_of s))) d k (world s)" and "log_dev (log_of s) = d" and "log_ok (log_of s)"
    and "0 < lh_n (lh (log_of s))" and "lh_n (lh (log_of s)) + 2 \<le> int NBUF"
    and "hd_n (disk (world s) d (log_start (log_of s))) = 0" and "length (disk (world s) d (log_start (log_of s))) = 1024"
    and "resting q k' t" and "log_cache {} {} d k' (world t)" and "length (lh_block (lh (log_of t))) = LOGBLOCKS"
  shows "\<exists>s'. commit s = Inr s' \<and> io (world s') = io (world s) @ map (Pair d) (commit_writes (log_of s) (content (world s) d)) \<and>
    (\<forall>j \<le> length (commit_writes (log_of s) (content (world s) d)).
      disk (world t) d = put_all (take j (commit_writes (log_of s) (content (world s) d))) (disk (world s) d) \<longrightarrow>
      (\<exists>t'. initlog d (log_start (log_of s)) t = Inr t' \<and> hd_n (disk (world t') d (log_start (log_of s))) = 0 \<and>
        (\<forall>m. home_block (log_of s) m \<longrightarrow> disk (world t') d m =
          (if j \<le> nat (lh_n (lh (log_of s))) then disk (world s) d m else content (world s) d m))))"
proof -
  let ?l = "log_of s" and ?c = "content (world s) d" and ?D0 = "disk (world s) d" and ?x = "log_start (log_of s)"
  define ws where "ws = commit_writes ?l ?c"
  define t0 where "t0 = upd_log (\<lambda>l. l\<lparr>log_start := ?x, log_dev := d\<rparr>) t"
  note l = logged_nth [OF assms(4)]
  have clean: "\<forall>m. m \<notin> set (logged ?l) \<longrightarrow> ?c m = ?D0 m" using log_cache_clean [OF assms(2)] by blast
  have "\<exists>t'. initlog d ?x t = Inr t' \<and> hd_n (disk (world t') d ?x) = 0 \<and>
      (\<forall>m. home_block ?l m \<longrightarrow> disk (world t') d m = (if j \<le> nat (lh_n (lh ?l)) then ?D0 m else ?c m))"
    if j: "j \<le> length ws" and D: "disk (world t) d = put_all (take j ws) ?D0" for j
  proof -
    note r = redo_atomic [OF assms(4) clean assms(7,8) j [unfolded ws_def] D [unfolded ws_def]]
    have dl: "distinct (disk_log (disk (world t) d ?x))" "\<forall>m \<in> set (disk_log (disk (world t) d ?x)). m < ?x \<or> ?x + LOGBLOCKS < m"
        "length (disk_log (disk (world t) d ?x)) \<le> LOGBLOCKS"
      using r(1) l(1,3,6) ballI [OF l(4), of "set (logged ?l)" "\<lambda>m. m"] by auto
    have t0: "resting q k' t0" "log_cache {} {} d k' (world t0)" "log_dev (log_of t0) = d" "length (lh_block (lh (log_of t0))) = LOGBLOCKS"
        "log_start (log_of t0) = ?x" "disk (world t0) = disk (world t)"
      using assms(9-11) by (simp_all add: t0_def)
    obtain t' v where t': "recover_from_log t0 = Inr t'" "hd_n v = 0"
        "disk (world t') d = put_all (redo ?x (disk (world t) d) @ [(?x, v)]) (disk (world t) d)"
      using recover_ok [OF t0(1-4) refl, unfolded t0(5,6)] r(2,3) dl by (auto simp: redo_def)
    have "initlog d ?x t = Inr t'" using t'(1) by (simp add: initlog_def t0_def LOGBLOCKS_def MAXOPBLOCKS_def)
    moreover have "disk (world t') d m = (if j \<le> nat (lh_n (lh ?l)) then ?D0 m else ?c m)" if "home_block ?l m" for m
      using t'(3) r(4) [OF that] l(1) home_not_log(1) [OF assms(4) that] by simp
    ultimately show ?thesis using t'(2,3) by auto
  qed
  then show ?thesis using commit_ok [OF assms(1-6), folded ws_def] unfolding ws_def [symmetric] by blast
qed

definition log_example :: "buf \<Rightarrow> (nat \<Rightarrow> block) \<Rightarrow> log_world" where
  "log_example x D = \<lparr>bufs = x # replicate 29 zero_buf, lru = [0..<30], disk = (\<lambda>_. D), io = [],
     the_log = \<lparr>log_start = 2, outstanding = 0, committing = 1, log_dev = 1, ncommit = 0,
       lh = \<lparr>lh_n = 1, lh_block = 100 # replicate 29 0\<rparr>\<rparr>\<rparr>"

definition dirty_buf :: buf where
  "dirty_buf = zero_buf\<lparr>valid := 1, dev := 1, blockno := 100, refcnt := 1, data := replicate 1024 1\<rparr>"

lemma log_example_simps [simp]:
  "bufs (log_example x D) = x # replicate 29 zero_buf" "lru (log_example x D) = [0..<30]" "disk (log_example x D) = (\<lambda>_. D)"
  "io (log_example x D) = []" "log_start (log_of (solo {} (log_example x D))) = 2" "log_dev (log_of (solo {} (log_example x D))) = 1"
  "lh (log_of (solo {} (log_example x D))) = \<lparr>lh_n = 1, lh_block = 100 # replicate 29 0\<rparr>"
  "logged (log_of (solo {} (log_example x D))) = [100]" "log_ok (log_of (solo {} (log_example x D)))"
  by (simp_all add: log_example_def log_of_def logged_def log_ok_def LOGBLOCKS_def MAXOPBLOCKS_def)

lemma log_example_nth: "i < 30 \<Longrightarrow> bufs (log_example x D) ! i = (if i = 0 then x else zero_buf)"
  by (simp add: nth_Cons')

lemma log_cache_example:
  "log_cache {} {100} 1 1 (log_example dirty_buf D)" "log_cache {} {} 1 1 (log_example zero_buf D)"
proof -
  have N: "NBUF = 30" by (simp add: NBUF_def MAXOPBLOCKS_def)
  have len: "length (bufs (log_example x D)) = 30" for x by simp
  show "log_cache {} {100} 1 1 (log_example dirty_buf D)"
    unfolding log_cache_def cache_ok_def N pinf_def
    by (auto simp: len log_example_nth buf_ok_def caches_def dirty_buf_def zero_buf_def simp del: log_example_simps(1) intro!: exI [of _ 0])
  show "log_cache {} {} 1 1 (log_example zero_buf D)"
    unfolding log_cache_def cache_ok_def N pinf_def
    by (auto simp: len log_example_nth buf_ok_def caches_def zero_buf_def simp del: log_example_simps(1))
qed

theorem commit_crash_atomic_witness:
  "\<exists>s'. commit (solo {} (log_example dirty_buf (\<lambda>_. replicate 1024 0))) = Inr s' \<and>
    (\<exists>t'. initlog 1 2 (solo {} (log_example zero_buf ((\<lambda>_. replicate 1024 0)(3 := replicate 1024 1,
        2 := put_head \<lparr>lh_n = 1, lh_block = 100 # replicate 29 0\<rparr> (replicate 1024 0))))) = Inr t' \<and>
      disk (world t') 1 100 = replicate 1024 1 \<and> disk (world t') 1 50 = replicate 1024 0)"
proof -
  let ?z = "replicate 1024 0 :: block" and ?o = "replicate 1024 1 :: block"
  let ?h = "\<lparr>lh_n = 1, lh_block = 100 # replicate 29 0\<rparr> :: logheader"
  let ?s = "solo {} (log_example dirty_buf (\<lambda>_. ?z))"
    and ?t = "solo {} (log_example zero_buf ((\<lambda>_. ?z)(3 := ?o, 2 := put_head ?h ?z)))"
  have c: "content (world ?s) 1 m = (if m = 100 then ?o else ?z)" for m
  proof -
    have "find (caches 1 m) (replicate 29 zero_buf) = None" by (simp add: find_None_iff caches_def zero_buf_def)
    then show ?thesis by (simp add: content_def) (simp add: caches_def dirty_buf_def zero_buf_def)
  qed
  have hz: "hd_n ?z = 0" by (simp add: hd_n_def eval_nat_numeral del: replicate_Suc)
  have w: "commit_writes (log_of ?s) (content (world ?s) 1) =
      [(3, ?o), (2, put_head ?h ?z), (100, ?o), (2, put_head (?h\<lparr>lh_n := 0\<rparr>) (put_head ?h ?z))]"
    by (simp add: commit_writes_def log_copy_def home_copy_def c del: solo_simps One_nat_def)
  have "\<exists>s'. commit ?s = Inr s' \<and> io (world s') = io (world ?s) @ map (Pair 1) (commit_writes (log_of ?s) (content (world ?s) 1)) \<and>
    (\<forall>j \<le> length (commit_writes (log_of ?s) (content (world ?s) 1)).
      disk (world ?t) 1 = put_all (take j (commit_writes (log_of ?s) (content (world ?s) 1))) (disk (world ?s) 1) \<longrightarrow>
      (\<exists>t'. initlog 1 (log_start (log_of ?s)) ?t = Inr t' \<and> hd_n (disk (world t') 1 (log_start (log_of ?s))) = 0 \<and>
        (\<forall>m. home_block (log_of ?s) m \<longrightarrow> disk (world t') 1 m =
          (if j \<le> nat (lh_n (lh (log_of ?s))) then disk (world ?s) 1 m else content (world ?s) 1 m))))"
    by (rule commit_crash_atomic [of 0 1 _ 1 0 1])
      (simp_all add: resting_solo log_cache_example hz NBUF_def LOGBLOCKS_def MAXOPBLOCKS_def del: One_nat_def)
  then obtain s' where s': "commit ?s = Inr s'" and t: "(\<forall>j \<le> length (commit_writes (log_of ?s) (content (world ?s) 1)).
      disk (world ?t) 1 = put_all (take j (commit_writes (log_of ?s) (content (world ?s) 1))) (disk (world ?s) 1) \<longrightarrow>
      (\<exists>t'. initlog 1 (log_start (log_of ?s)) ?t = Inr t' \<and> hd_n (disk (world t') 1 (log_start (log_of ?s))) = 0 \<and>
        (\<forall>m. home_block (log_of ?s) m \<longrightarrow> disk (world t') 1 m =
          (if j \<le> nat (lh_n (lh (log_of ?s))) then disk (world ?s) 1 m else content (world ?s) 1 m))))"
    by blast
  have h: "home_block (log_of ?s) 100" "home_block (log_of ?s) 50" by (simp_all add: home_block_def LOGBLOCKS_def MAXOPBLOCKS_def)
  have "disk (world ?t) 1 = put_all (take 2 (commit_writes (log_of ?s) (content (world ?s) 1))) (disk (world ?s) 1)"
    unfolding w by (simp add: numeral_2_eq_2)
  from t [rule_format, OF _ this] obtain t' where t': "initlog 1 (log_start (log_of ?s)) ?t = Inr t'"
    and m: "\<forall>m. home_block (log_of ?s) m \<longrightarrow> disk (world t') 1 m =
          (if 2 \<le> nat (lh_n (lh (log_of ?s))) then disk (world ?s) 1 m else content (world ?s) 1 m)"
    unfolding w by auto
  have "initlog 1 2 ?t = Inr t'" using t' by (simp del: solo_simps)
  moreover have "disk (world t') 1 100 = ?o" "disk (world t') 1 50 = ?z"
    using m [rule_format, OF h(1)] m [rule_format, OF h(2)] c by (simp_all del: solo_simps One_nat_def)
  ultimately show ?thesis using s' by blast
qed

end
