(* ===== verification/Kernel_Vm.thy ===== *)
theory Kernel_Vm
  imports Kernel_Kalloc
begin

unbundle bit_operations_syntax

text \<open>
  Virtual memory, \<^verbatim>\<open>xv6/kernel/vm.c\<close>: the three-level page tables of RISC-V, kept in pages of the allocator, the operations on
  the address space of a process and the copies between user and kernel memory.  The kernel accesses memory at the physical
  address, so the pointers of kernel code are addresses of \<open>ram\<close>.  An entry is a word of 64 bits, an address a number; sums of
  addresses are below \<open>2 ^ 64\<close> where the code does not check them.  The end of the kernel image is the parameter \<open>kend\<close> of the
  calls of \<open>kfree\<close>.
\<close>

section \<open>Entries and addresses\<close>

definition MAXVA :: nat where "MAXVA = 2 ^ (9 + 9 + 9 + 12 - 1)"

definition PGROUNDDOWN :: "nat \<Rightarrow> nat" where
  "PGROUNDDOWN a = a - a mod PGSIZE"

definition PTE_V :: "64 word" where "PTE_V = 1"
definition PTE_R :: "64 word" where "PTE_R = 2"
definition PTE_W :: "64 word" where "PTE_W = 4"
definition PTE_X :: "64 word" where "PTE_X = 8"
definition PTE_U :: "64 word" where "PTE_U = 16"

definition PA2PTE :: "nat \<Rightarrow> 64 word" where
  "PA2PTE pa = push_bit 10 (drop_bit 12 (of_nat pa))"

definition PTE2PA :: "64 word \<Rightarrow> nat" where
  "PTE2PA e = unat (push_bit 12 (drop_bit 10 e))"

definition PTE_FLAGS :: "64 word \<Rightarrow> 64 word" where
  "PTE_FLAGS e = e AND 0x3FF"

definition PX :: "nat \<Rightarrow> nat \<Rightarrow> nat" where
  "PX l va = va div 2 ^ (12 + 9 * l) mod 512"

definition entry :: "mem \<Rightarrow> nat \<Rightarrow> 64 word" where
  "entry m a = of_nat (get_le m a 8)"

definition pte_at :: "nat \<Rightarrow> 'a mkernel \<Rightarrow> 64 word" where
  "pte_at a s = entry (ram (world s)) a"

definition set_ram :: "mem \<Rightarrow> 'a mkernel \<Rightarrow> 'a mkernel" where
  "set_ram m s = upd_kmem (freelist (world s)) m s"

definition set_pte :: "nat \<Rightarrow> 64 word \<Rightarrow> 'a mkernel \<Rightarrow> 'a mkernel" where
  "set_pte a e s = set_ram (put_le (ram (world s)) a 8 (unat e)) s"

definition zero_page :: "nat \<Rightarrow> 'a mkernel \<Rightarrow> 'a mkernel" where
  "zero_page pa s = set_ram (memset (ram (world s)) pa 0 PGSIZE) s"

section \<open>Page tables\<close>

text \<open>The loop of \<open>walk\<close>: the page of the last level, or None for a null pointer.\<close>

fun walk_loop :: "nat list \<Rightarrow> nat \<Rightarrow> nat \<Rightarrow> bool \<Rightarrow> 'a mkernel \<Rightarrow> (nat option \<times> 'a mkernel) res" where
  "walk_loop [] pt va alloc s = Inr (Some pt, s)"
| "walk_loop (l # ls) pt va alloc s =
    (let pte = pt + 8 * PX l va in
     if pte_at pte s AND PTE_V \<noteq> 0 then walk_loop ls (PTE2PA (pte_at pte s)) va alloc s
     else if \<not> alloc then Inr (None, s)
     else seq (kalloc s) (\<lambda>(p, s).
       if p = 0 then Inr (None, s)
       else walk_loop ls p va alloc (set_pte pte (PA2PTE p OR PTE_V) (zero_page p s))))"

definition walk :: "nat \<Rightarrow> nat \<Rightarrow> bool \<Rightarrow> 'a mkernel \<Rightarrow> (nat \<times> 'a mkernel) res" where
  "walk pt va alloc s =
    (if va \<ge> MAXVA then Inl ''walk''
     else seq (walk_loop [2, 1] pt va alloc s) (\<lambda>(r, s).
       Inr (case r of None \<Rightarrow> 0 | Some p \<Rightarrow> p + 8 * PX 0 va, s)))"

definition walkaddr :: "nat \<Rightarrow> nat \<Rightarrow> 'a mkernel \<Rightarrow> nat res" where
  "walkaddr pt va s =
    (if va \<ge> MAXVA then Inr 0
     else seq (walk pt va False s) (\<lambda>(pte, s).
       if pte = 0 then Inr 0
       else if pte_at pte s AND PTE_V = 0 then Inr 0
       else if pte_at pte s AND PTE_U = 0 then Inr 0
       else Inr (PTE2PA (pte_at pte s))))"

text \<open>The loop ends because \<open>walk\<close> panics at \<open>MAXVA\<close>.\<close>

function mappages_loop :: "nat \<Rightarrow> nat \<Rightarrow> nat \<Rightarrow> nat \<Rightarrow> 64 word \<Rightarrow> 'a mkernel \<Rightarrow> (int \<times> 'a mkernel) res" where
  "mappages_loop pt a final pa perm s =
    (if a \<ge> MAXVA then Inl ''walk''
     else seq (walk pt a True s) (\<lambda>(pte, s).
       if pte = 0 then Inr (-1, s)
       else if pte_at pte s AND PTE_V \<noteq> 0 then Inl ''mappages: remap''
       else let s = set_pte pte (PA2PTE pa OR perm OR PTE_V) s in
         if a = final then Inr (0, s)
         else mappages_loop pt (a + PGSIZE) final (pa + PGSIZE) perm s))"
  by pat_completeness auto
termination by (relation "measure (\<lambda>(pt, a, l, pa, perm, s). MAXVA - a)") (auto simp: PGSIZE_def)

definition mappages :: "nat \<Rightarrow> nat \<Rightarrow> nat \<Rightarrow> nat \<Rightarrow> 64 word \<Rightarrow> 'a mkernel \<Rightarrow> (int \<times> 'a mkernel) res" where
  "mappages pt va z pa perm s =
    (if va mod PGSIZE \<noteq> 0 then Inl ''mappages: va not aligned''
     else if z mod PGSIZE \<noteq> 0 then Inl ''mappages: size not aligned''
     else if z = 0 then Inl ''mappages: size''
     else mappages_loop pt va (va + z - PGSIZE) pa perm s)"

definition uvmcreate :: "'a mkernel \<Rightarrow> (nat \<times> 'a mkernel) res" where
  "uvmcreate s = seq (kalloc s) (\<lambda>(pt, s). if pt = 0 then Inr (0, s) else Inr (pt, zero_page pt s))"

definition uvmunmap_one :: "nat \<Rightarrow> nat \<Rightarrow> bool \<Rightarrow> nat \<Rightarrow> 'a mkernel \<Rightarrow> 'a mkernel res" where
  "uvmunmap_one kend pt do_free a s =
    seq (walk pt a False s) (\<lambda>(pte, s).
      if pte = 0 then Inr s
      else if pte_at pte s AND PTE_V = 0 then Inr s
      else seq (if do_free then kfree kend (PTE2PA (pte_at pte s)) s else Inr s) (\<lambda>s. Inr (set_pte pte 0 s)))"

definition uvmunmap :: "nat \<Rightarrow> nat \<Rightarrow> nat \<Rightarrow> nat \<Rightarrow> bool \<Rightarrow> 'a mkernel \<Rightarrow> 'a mkernel res" where
  "uvmunmap kend pt va npages do_free s =
    (if va mod PGSIZE \<noteq> 0 then Inl ''uvmunmap: not aligned''
     else for_each (uvmunmap_one kend pt do_free) (map (\<lambda>i. va + i * PGSIZE) [0..<npages]) s)"

definition uvmdealloc :: "nat \<Rightarrow> nat \<Rightarrow> nat \<Rightarrow> nat \<Rightarrow> 'a mkernel \<Rightarrow> (nat \<times> 'a mkernel) res" where
  "uvmdealloc kend pt oldsz newsz s =
    (if newsz \<ge> oldsz then Inr (oldsz, s)
     else seq (if PGROUNDUP newsz < PGROUNDUP oldsz
               then uvmunmap kend pt (PGROUNDUP newsz) ((PGROUNDUP oldsz - PGROUNDUP newsz) div PGSIZE) True s
               else Inr s) (\<lambda>s. Inr (newsz, s)))"

function uvmalloc_loop :: "nat \<Rightarrow> nat \<Rightarrow> nat \<Rightarrow> nat \<Rightarrow> nat \<Rightarrow> 64 word \<Rightarrow> 'a mkernel \<Rightarrow> (nat \<times> 'a mkernel) res" where
  "uvmalloc_loop kend pt a oldsz newsz xperm s =
    (if a < newsz then
       seq (kalloc s) (\<lambda>(p, s).
         if p = 0 then seq (uvmdealloc kend pt a oldsz s) (\<lambda>(_, s). Inr (0, s))
         else seq (mappages pt a PGSIZE p (PTE_R OR PTE_U OR xperm) (zero_page p s)) (\<lambda>(r, s).
           if r \<noteq> 0 then seq (kfree kend p s) (\<lambda>s. seq (uvmdealloc kend pt a oldsz s) (\<lambda>(_, s). Inr (0, s)))
           else uvmalloc_loop kend pt (a + PGSIZE) oldsz newsz xperm s))
     else Inr (newsz, s))"
  by pat_completeness auto
termination by (relation "measure (\<lambda>(kend, pt, a, oldsz, newsz, xperm, s). newsz - a)") (auto simp: PGSIZE_def)

definition uvmalloc :: "nat \<Rightarrow> nat \<Rightarrow> nat \<Rightarrow> nat \<Rightarrow> 64 word \<Rightarrow> 'a mkernel \<Rightarrow> (nat \<times> 'a mkernel) res" where
  "uvmalloc kend pt oldsz newsz xperm s =
    (if newsz < oldsz then Inr (oldsz, s)
     else uvmalloc_loop kend pt (PGROUNDUP oldsz) (PGROUNDUP oldsz) newsz xperm s)"

text \<open>
  The recursion of \<open>freewalk\<close>, at most \<open>depth\<close> calls deep.  A call below that depth would mean that the tables are not a tree of three levels.
\<close>

fun freewalk :: "nat \<Rightarrow> nat \<Rightarrow> nat \<Rightarrow> 'a mkernel \<Rightarrow> 'a mkernel res" where
  "freewalk 0 kend pt s = Inl ''freewalk: depth''"
| "freewalk (Suc depth) kend pt s =
    seq (for_each (\<lambda>i s.
      let pte = pte_at (pt + 8 * i) s in
      if pte AND PTE_V \<noteq> 0 \<and> pte AND (PTE_R OR PTE_W OR PTE_X) = 0 then
        seq (freewalk depth kend (PTE2PA pte) s) (\<lambda>s. Inr (set_pte (pt + 8 * i) 0 s))
      else if pte AND PTE_V \<noteq> 0 then Inl ''freewalk: leaf''
      else Inr s) [0..<512] s) (kfree kend pt)"

definition uvmfree :: "nat \<Rightarrow> nat \<Rightarrow> nat \<Rightarrow> 'a mkernel \<Rightarrow> 'a mkernel res" where
  "uvmfree kend pt z s =
    seq (if z > 0 then uvmunmap kend pt 0 (PGROUNDUP z div PGSIZE) True s else Inr s) (freewalk 3 kend pt)"

function uvmcopy_loop :: "nat \<Rightarrow> nat \<Rightarrow> nat \<Rightarrow> nat \<Rightarrow> nat \<Rightarrow> 'a mkernel \<Rightarrow> (int \<times> 'a mkernel) res" where
  "uvmcopy_loop kend old new i z s =
    (if i < z then
       seq (walk old i False s) (\<lambda>(pte, s).
         if pte = 0 then uvmcopy_loop kend old new (i + PGSIZE) z s
         else if pte_at pte s AND PTE_V = 0 then uvmcopy_loop kend old new (i + PGSIZE) z s
         else let pa = PTE2PA (pte_at pte s); flags = PTE_FLAGS (pte_at pte s) in
           seq (kalloc s) (\<lambda>(p, s).
             if p = 0 then seq (uvmunmap kend new 0 (i div PGSIZE) True s) (\<lambda>s. Inr (-1, s))
             else seq (mappages new i PGSIZE p flags (set_ram (memmove (ram (world s)) p pa PGSIZE) s)) (\<lambda>(r, s).
               if r \<noteq> 0 then seq (kfree kend p s) (\<lambda>s. seq (uvmunmap kend new 0 (i div PGSIZE) True s) (\<lambda>s. Inr (-1, s)))
               else uvmcopy_loop kend old new (i + PGSIZE) z s)))
     else Inr (0, s))"
  by pat_completeness auto
termination by (relation "measure (\<lambda>(kend, old, new, i, z, s). z - i)") (auto simp: PGSIZE_def)

definition uvmcopy :: "nat \<Rightarrow> nat \<Rightarrow> nat \<Rightarrow> nat \<Rightarrow> 'a mkernel \<Rightarrow> (int \<times> 'a mkernel) res" where
  "uvmcopy kend old new z s = uvmcopy_loop kend old new 0 z s"

definition uvmclear :: "nat \<Rightarrow> nat \<Rightarrow> 'a mkernel \<Rightarrow> 'a mkernel res" where
  "uvmclear pt va s =
    seq (walk pt va False s) (\<lambda>(pte, s). if pte = 0 then Inl ''uvmclear'' else Inr (set_pte pte (pte_at pte s AND NOT PTE_U) s))"

section \<open>Faults and copies\<close>

definition ismapped :: "nat \<Rightarrow> nat \<Rightarrow> 'a mkernel \<Rightarrow> int res" where
  "ismapped pt va s =
    seq (walk pt va False s) (\<lambda>(pte, s). if pte = 0 then Inr 0 else if pte_at pte s AND PTE_V \<noteq> 0 then Inr 1 else Inr 0)"

definition vmfault :: "nat \<Rightarrow> nat \<Rightarrow> nat \<Rightarrow> 'a mkernel \<Rightarrow> (nat \<times> 'a mkernel) res" where
  "vmfault kend pt va s =
    (let p = procs s ! the (cproc s) in
     if va \<ge> unat (sz p) then Inr (0, s)
     else let va = PGROUNDDOWN va in
       seq (ismapped pt va s) (\<lambda>b.
         if b \<noteq> 0 then Inr (0, s)
         else seq (kalloc s) (\<lambda>(q, s).
           if q = 0 then Inr (0, s)
           else seq (mappages (unat (pagetable p)) va PGSIZE q (PTE_W OR PTE_U OR PTE_R) (zero_page q s)) (\<lambda>(r, s).
             if r \<noteq> 0 then seq (kfree kend q s) (\<lambda>s. Inr (0, s)) else Inr (q, s)))))"

text \<open>\<open>copyout\<close> reads the entry of the page without a check of the pointer; a null pointer is an error here.\<close>

function copyout :: "nat \<Rightarrow> nat \<Rightarrow> nat \<Rightarrow> nat \<Rightarrow> nat \<Rightarrow> 'a mkernel \<Rightarrow> (int \<times> 'a mkernel) res" where
  "copyout kend pt dstva src len s =
    (if len > 0 then
       let va0 = PGROUNDDOWN dstva in
       if va0 \<ge> MAXVA then Inr (-1, s)
       else seq (walkaddr pt va0 s) (\<lambda>pa0.
         seq (if pa0 = 0 then vmfault kend pt va0 s else Inr (pa0, s)) (\<lambda>(pa0, s).
           if pa0 = 0 then Inr (-1, s)
           else seq (walk pt va0 False s) (\<lambda>(pte, s).
             if pte = 0 then Inl ''null pte''
             else if pte_at pte s AND PTE_W = 0 then Inr (-1, s)
             else let n = min (PGSIZE - (dstva - va0)) len in
               copyout kend pt (va0 + PGSIZE) (src + n) (len - n)
                 (set_ram (memmove (ram (world s)) (pa0 + (dstva - va0)) src n) s))))
     else Inr (0, s))"
  by pat_completeness auto
termination
  by (relation "measure (\<lambda>(kend, pt, dstva, src, len, s). len)") (auto simp: PGSIZE_def PGROUNDDOWN_def)

function copyin :: "nat \<Rightarrow> nat \<Rightarrow> nat \<Rightarrow> nat \<Rightarrow> nat \<Rightarrow> 'a mkernel \<Rightarrow> (int \<times> 'a mkernel) res" where
  "copyin kend pt dst srcva len s =
    (if len > 0 then
       let va0 = PGROUNDDOWN srcva in
       seq (walkaddr pt va0 s) (\<lambda>pa0.
         seq (if pa0 = 0 then vmfault kend pt va0 s else Inr (pa0, s)) (\<lambda>(pa0, s).
           if pa0 = 0 then Inr (-1, s)
           else let n = min (PGSIZE - (srcva - va0)) len in
             copyin kend pt (dst + n) (va0 + PGSIZE) (len - n)
               (set_ram (memmove (ram (world s)) dst (pa0 + (srcva - va0)) n) s)))
     else Inr (0, s))"
  by pat_completeness auto
termination
  by (relation "measure (\<lambda>(kend, pt, dst, srcva, len, s). len)") (auto simp: PGSIZE_def PGROUNDDOWN_def)

text \<open>The bytes of one page: whether a zero byte was copied, where \<open>dst\<close> stands and what is left of \<open>max\<close>.\<close>

fun copyinstr_page :: "nat \<Rightarrow> nat \<Rightarrow> nat \<Rightarrow> nat \<Rightarrow> 'a mkernel \<Rightarrow> bool \<times> nat \<times> nat \<times> 'a mkernel" where
  "copyinstr_page 0 p dst mx s = (False, dst, mx, s)"
| "copyinstr_page (Suc n) p dst mx s =
    (if ram (world s) p = 0 then (True, dst, mx, set_ram ((ram (world s))(dst := 0)) s)
     else copyinstr_page n (p + 1) (dst + 1) (mx - 1) (set_ram ((ram (world s))(dst := ram (world s) p)) s))"

lemma copyinstr_page_max: "copyinstr_page n p dst mx s = (g, dst', mx', s') \<Longrightarrow> mx' \<le> mx \<and> (\<not> g \<longrightarrow> mx' = mx - n)"
  by (induction n p dst mx s rule: copyinstr_page.induct) (auto split: if_splits)

function copyinstr :: "nat \<Rightarrow> nat \<Rightarrow> nat \<Rightarrow> nat \<Rightarrow> 'a mkernel \<Rightarrow> (int \<times> 'a mkernel) res" where
  "copyinstr pt dst srcva mx s =
    (if mx > 0 then
       let va0 = PGROUNDDOWN srcva in
       seq (walkaddr pt va0 s) (\<lambda>pa0.
         if pa0 = 0 then Inr (-1, s)
         else case copyinstr_page (min (PGSIZE - (srcva - va0)) mx) (pa0 + (srcva - va0)) dst mx s of
           (got_null, dst, mx, s) \<Rightarrow> if got_null then Inr (0, s) else copyinstr pt dst (va0 + PGSIZE) mx s)
     else Inr (-1, s))"
  by pat_completeness auto
termination
  by (relation "measure (\<lambda>(pt, dst, srcva, mx, s). mx)")
    (auto simp: PGSIZE_def PGROUNDDOWN_def dest!: sym [of "(_, _)" "copyinstr_page _ _ _ _ _"] copyinstr_page_max)

section \<open>The address space of the kernel\<close>

definition kvmmap :: "nat \<Rightarrow> nat \<Rightarrow> nat \<Rightarrow> nat \<Rightarrow> 64 word \<Rightarrow> 'a mkernel \<Rightarrow> 'a mkernel res" where
  "kvmmap kpgtbl va pa z perm s = seq (mappages kpgtbl va z pa perm s) (\<lambda>(r, s). if r \<noteq> 0 then Inl ''kvmmap'' else Inr s)"

definition TRAMPOLINE :: nat where "TRAMPOLINE = MAXVA - PGSIZE"

definition KSTACK :: "nat \<Rightarrow> nat" where
  "KSTACK p = TRAMPOLINE - (p + 1) * 2 * PGSIZE"

definition proc_mapstack :: "nat \<Rightarrow> nat \<Rightarrow> 'a mkernel \<Rightarrow> 'a mkernel res" where
  "proc_mapstack kpgtbl p s =
    seq (kalloc s) (\<lambda>(pa, s). if pa = 0 then Inl ''kalloc'' else kvmmap kpgtbl (KSTACK p) pa PGSIZE (PTE_R OR PTE_W) s)"

definition proc_mapstacks :: "nat \<Rightarrow> 'a mkernel \<Rightarrow> 'a mkernel res" where
  "proc_mapstacks kpgtbl s = for_each (proc_mapstack kpgtbl) [0..<NPROC] s"

definition KERNBASE :: nat where "KERNBASE = 0x80000000"
definition UART0 :: nat where "UART0 = 0x10000000"
definition VIRTIO0 :: nat where "VIRTIO0 = 0x10001000"
definition PLIC :: nat where "PLIC = 0x0c000000"

text \<open>\<open>etext\<close> and \<open>trampoline\<close> are addresses the linker sets.\<close>

definition kvmmake :: "nat \<Rightarrow> nat \<Rightarrow> 'a mkernel \<Rightarrow> (nat \<times> 'a mkernel) res" where
  "kvmmake etext trampoline s =
    seq (kalloc s) (\<lambda>(kpgtbl, s).
    seq (kvmmap kpgtbl UART0 UART0 PGSIZE (PTE_R OR PTE_W) (zero_page kpgtbl s)) (\<lambda>s.
    seq (kvmmap kpgtbl VIRTIO0 VIRTIO0 PGSIZE (PTE_R OR PTE_W) s) (\<lambda>s.
    seq (kvmmap kpgtbl PLIC PLIC 0x4000000 (PTE_R OR PTE_W) s) (\<lambda>s.
    seq (kvmmap kpgtbl KERNBASE KERNBASE (etext - KERNBASE) (PTE_R OR PTE_X) s) (\<lambda>s.
    seq (kvmmap kpgtbl etext etext (PHYSTOP - etext) (PTE_R OR PTE_W) s) (\<lambda>s.
    seq (kvmmap kpgtbl TRAMPOLINE trampoline PGSIZE (PTE_R OR PTE_X) s) (\<lambda>s.
    seq (proc_mapstacks kpgtbl s) (\<lambda>s. Inr (kpgtbl, s)))))))))"

end
