(* ===== verification/Kernel_Vm_Inv.thy ===== *)
theory Kernel_Vm_Inv
  imports Kernel_Vm
begin

unbundle bit_operations_syntax

text \<open>
  What page tables mean, and that the operations on them keep it.  The tables of an address space form a tree of three levels; its
  nodes are named by the indices that lead to them, and \<open>T\<close> gives the page of each.
\<close>

section \<open>Entries\<close>

lemma bit_of_nat_low:
  assumes "(x :: nat) mod 2 ^ k = 0" and "n < k"
  shows "\<not> bit (of_nat x :: 64 word) n"
proof -
  have "even (x div 2 ^ n)"
  proof -
    obtain y where "x = 2 ^ k * y" using assms(1) by auto
    moreover have "(2 :: nat) ^ k = 2 ^ n * 2 ^ (k - n)" using assms(2) by (simp flip: power_add)
    ultimately have "x div 2 ^ n = 2 ^ (k - n) * y" by simp
    then show ?thesis using assms(2) by simp
  qed
  then show ?thesis by (subst bit_of_nat_iff) (simp add: bit_iff_odd [where ?'a = nat])
qed

lemma bit_of_nat_high:
  assumes "(x :: nat) < 2 ^ k" and "k \<le> n"
  shows "\<not> bit (of_nat x :: 64 word) n"
proof -
  have "x < 2 ^ n" using assms by (meson less_le_trans one_le_numeral power_increasing)
  then show ?thesis by (subst bit_of_nat_iff) (simp add: bit_iff_odd [where ?'a = nat])
qed

definition flags_ok :: "64 word \<Rightarrow> bool" where
  "flags_ok f \<longleftrightarrow> f AND NOT 0x3FF = 0"

lemma pte_pa:
  assumes "pa mod PGSIZE = 0" and "pa < 2 ^ 56" and "flags_ok f"
  shows "PTE2PA (PA2PTE pa OR f) = pa"
proof -
  let ?w = "of_nat pa :: 64 word"
  have low: "\<not> bit ?w n" if "n < 12" for n using bit_of_nat_low [of pa 12 n] assms(1) that by (simp add: PGSIZE_def)
  have high: "\<not> bit ?w n" if "56 \<le> n" for n using bit_of_nat_high [OF assms(2) that] .
  have f: "\<not> bit f n" if "10 \<le> n" for n
  proof
    assume "bit f n"
    moreover have "\<not> bit (0x3FF :: 64 word) n" using bit_of_nat_high [of "0x3FF" 10 n] that by simp
    ultimately have "bit (f AND NOT 0x3FF) n" by (auto simp: bit_simps dest: bit_imp_le_length)
    then show False using assms(3) by (simp add: flags_ok_def)
  qed
  have "push_bit 12 (drop_bit 10 (PA2PTE pa OR f)) = ?w"
  proof (rule bit_word_eqI)
    fix n assume "n < LENGTH(64)"
    then show "bit (push_bit 12 (drop_bit 10 (PA2PTE pa OR f))) n = bit ?w n"
      using low [of n] high [of n] f [of "10 + (n - 12)"]
      by (cases "n < 12") (auto simp: PA2PTE_def bit_simps)
  qed
  then show ?thesis using assms(2) by (simp add: PTE2PA_def unat_of_nat)
qed

lemma pte_valid [simp]: "(e OR PTE_V) AND PTE_V \<noteq> 0" "(e OR (f OR PTE_V)) AND PTE_V \<noteq> 0"
proof -
  have "bit ((e OR PTE_V) AND PTE_V) 0" "bit ((e OR (f OR PTE_V)) AND PTE_V) 0" by (simp_all add: PTE_V_def bit_simps)
  then show "(e OR PTE_V) AND PTE_V \<noteq> 0" "(e OR (f OR PTE_V)) AND PTE_V \<noteq> 0" by auto
qed

lemma PTE_V_nz [simp]: "PTE_V \<noteq> 0"
  by (simp add: PTE_V_def)

lemma flags_ok [simp]: "flags_ok PTE_V" "flags_ok PTE_R" "flags_ok PTE_W" "flags_ok PTE_X" "flags_ok PTE_U"
  by (simp_all add: flags_ok_def PTE_V_def PTE_R_def PTE_W_def PTE_X_def PTE_U_def)

lemma flags_ok_or [simp]: "flags_ok f \<Longrightarrow> flags_ok g \<Longrightarrow> flags_ok (f OR g)"
  by (simp add: flags_ok_def bit.conj_disj_distrib2)

lemma entry_put [simp]: "entry (put_le m a 8 (unat e)) a = e"
proof -
  have "unat e < 2 ^ 64" using unsigned_less [of e, where ?'a = nat] by simp
  then show ?thesis by (simp add: entry_def get_put_le)
qed

lemma entry_cong: "(\<And>q. a \<le> q \<Longrightarrow> q < a + 8 \<Longrightarrow> m q = m' q) \<Longrightarrow> entry m a = entry m' a"
  unfolding entry_def by (intro arg_cong [of _ _ of_nat] get_le_cong)

lemma entry_other: "a + 8 \<le> b \<or> b + 8 \<le> a \<Longrightarrow> entry (put_le m a 8 v) b = entry m b"
  by (intro entry_cong put_le_outside) auto

lemma get_le_zero: "(\<And>q. a \<le> q \<Longrightarrow> q < a + k \<Longrightarrow> m q = 0) \<Longrightarrow> get_le m a k = 0"
  by (induction m a k rule: get_le.induct) auto

lemma in_page_entry: "i < 512 \<Longrightarrow> t + 8 * i \<le> q \<Longrightarrow> q < t + 8 * i + 8 \<Longrightarrow> in_page t q"
  by (simp add: in_page_def PGSIZE_def)

lemma entry_page: "i < 512 \<Longrightarrow> (\<And>q. in_page t q \<Longrightarrow> m q = m' q) \<Longrightarrow> entry m (t + 8 * i) = entry m' (t + 8 * i)"
  by (intro entry_cong) (simp add: in_page_entry)

lemma entry_zeroed: "i < 512 \<Longrightarrow> (\<And>q. in_page t q \<Longrightarrow> m q = 0) \<Longrightarrow> entry m (t + 8 * i) = 0"
  unfolding entry_def by (subst get_le_zero) (simp_all add: in_page_entry)

lemma entry_same_page:
  assumes "i < 512" and "j < 512" and "i \<noteq> j"
  shows "entry (put_le m (t + 8 * i) 8 v) (t + 8 * j) = entry m (t + 8 * j)"
  by (rule entry_other) (use assms in presburger)

lemma put_le_page: "i < 512 \<Longrightarrow> \<not> in_page t q \<Longrightarrow> put_le m (t + 8 * i) 8 v q = m q"
  by (rule put_le_outside) (auto simp: in_page_def PGSIZE_def)

lemma PX_less [simp]: "PX l va < 512"
  by (simp add: PX_def)

lemma PX_inj:
  assumes "PX 2 a = PX 2 b" and "PX 1 a = PX 1 b" and "PX 0 a = PX 0 b" and "a < MAXVA" and "b < MAXVA"
  shows "a div PGSIZE = b div PGSIZE"
proof -
  have split: "x div 4096 = (x div 2 ^ 30) mod 512 * 2 ^ 18 + (x div 2 ^ 21) mod 512 * 512 + (x div 2 ^ 12) mod 512" if "x < MAXVA" for x
  proof -
    define y z where "y = x div 4096" and "z = x div 4096 div 512"
    have "x div 2 ^ 30 = z div 512" "x div 2 ^ 21 = z" "x div 2 ^ 12 = y" by (simp_all add: y_def z_def div_mult2_eq [symmetric])
    moreover have "z div 512 mod 512 = z div 512" using that by (simp add: z_def MAXVA_def div_mult2_eq [symmetric])
    moreover have "y = z * 512 + y mod 512" "z = z div 512 * 512 + z mod 512" unfolding y_def z_def by (rule div_mod_decomp)+
    moreover from this have "y = z div 512 * 262144 + z mod 512 * 512 + y mod 512" by linarith
    ultimately show ?thesis unfolding y_def [symmetric] by simp
  qed
  show ?thesis using split [OF assms(4)] split [OF assms(5)] assms(1-3) by (simp add: PX_def PGSIZE_def)
qed

section \<open>Page tables as trees\<close>

type_synonym tables = "nat list \<rightharpoonup> nat"

definition node_ok :: "mem \<Rightarrow> tables \<Rightarrow> nat list \<Rightarrow> nat \<Rightarrow> bool" where
  "node_ok m T p t \<longleftrightarrow> (\<forall>i < 512. case T (p @ [i]) of
     None \<Rightarrow> entry m (t + 8 * i) AND PTE_V = 0 | Some c \<Rightarrow> entry m (t + 8 * i) = PA2PTE c OR PTE_V)"

definition pt_ok :: "nat \<Rightarrow> mem \<Rightarrow> nat \<Rightarrow> tables \<Rightarrow> bool" where
  "pt_ok kend m root T \<longleftrightarrow> T [] = Some root \<and> inj_on T (dom T) \<and> (\<forall>p i. T (p @ [i]) \<noteq> None \<longrightarrow> T p \<noteq> None) \<and>
     (\<forall>p t. T p = Some t \<longrightarrow> length p \<le> 2 \<and> page_ok kend t \<and> (length p < 2 \<longrightarrow> node_ok m T p t))"

abbreviation leaf_path :: "nat \<Rightarrow> nat list" where
  "leaf_path va \<equiv> [PX 2 va, PX 1 va]"

definition leaf_pte :: "mem \<Rightarrow> tables \<Rightarrow> nat \<Rightarrow> 64 word" where
  "leaf_pte m T va = (case T (leaf_path va) of None \<Rightarrow> 0 | Some t \<Rightarrow> entry m (t + 8 * PX 0 va))"

text \<open>The entry the paging hardware finds for an address, 0 if there is none.\<close>

definition hw_pte :: "mem \<Rightarrow> nat \<Rightarrow> nat \<Rightarrow> 64 word" where
  "hw_pte m root va =
    (let e2 = entry m (root + 8 * PX 2 va); e1 = entry m (PTE2PA e2 + 8 * PX 1 va) in
     if e2 AND PTE_V = 0 then 0 else if e1 AND PTE_V = 0 then 0 else entry m (PTE2PA e1 + 8 * PX 0 va))"

lemma page_pa:
  assumes "page_ok kend c"
  shows "PTE2PA (PA2PTE c OR PTE_V) = c" and "flags_ok f \<Longrightarrow> PTE2PA (PA2PTE c OR (f OR PTE_V)) = c"
  using assms pte_pa [of c PTE_V] pte_pa [of c "f OR PTE_V"] by (simp_all add: page_ok_def PHYSTOP_def)

lemma pt_ok_node:
  assumes "pt_ok kend m root T" and "T p = Some t" and "length p < 2" and "i < 512"
  shows "entry m (t + 8 * i) AND PTE_V = 0 \<longleftrightarrow> T (p @ [i]) = None" and "T (p @ [i]) = Some c \<Longrightarrow> PTE2PA (entry m (t + 8 * i)) = c"
proof -
  have n: "node_ok m T p t" and pg: "\<And>p t. T p = Some t \<Longrightarrow> page_ok kend t" using assms(1-3) by (auto simp: pt_ok_def)
  then show "entry m (t + 8 * i) AND PTE_V = 0 \<longleftrightarrow> T (p @ [i]) = None"
    using assms(4) by (cases "T (p @ [i])") (auto simp: node_ok_def dest!: spec [of _ i])
  assume "T (p @ [i]) = Some c"
  then show "PTE2PA (entry m (t + 8 * i)) = c" using n assms(4) pg [of "p @ [i]" c] page_pa(1) by (auto simp: node_ok_def)
qed

lemma pt_ok_root: "pt_ok kend m root T \<Longrightarrow> T [] = Some root"
  by (simp add: pt_ok_def)

lemma pt_ok_prefix: "pt_ok kend m root T \<Longrightarrow> T [i] = None \<Longrightarrow> T [i, j] = None"
  using spec [of "\<lambda>p. \<forall>i. T (p @ [i]) \<noteq> None \<longrightarrow> T p \<noteq> None" "[i]"] by (auto simp: pt_ok_def)

lemma hw_pte_leaf:
  assumes "pt_ok kend m root T"
  shows "hw_pte m root va = leaf_pte m T va"
proof (cases "T [PX 2 va]")
  case None
  then show ?thesis
    using pt_ok_node(1) [OF assms pt_ok_root [OF assms]] pt_ok_prefix [OF assms None] by (simp add: hw_pte_def leaf_pte_def)
next
  case (Some t)
  note r = pt_ok_node [OF assms pt_ok_root [OF assms], of "PX 2 va", simplified]
  note n = pt_ok_node [OF assms Some, of "PX 1 va", simplified]
  show ?thesis
    using r(1) r(2) [OF Some] n Some by (auto simp: hw_pte_def leaf_pte_def Let_def split: option.splits)
qed

lemma walk_find:
  assumes "pt_ok kend (ram (world s)) root T" and "va < MAXVA"
  shows "walk root va False s = Inr (case T (leaf_path va) of None \<Rightarrow> 0 | Some t \<Rightarrow> t + 8 * PX 0 va, s)"
proof (cases "T [PX 2 va]")
  case None
  then show ?thesis
    using assms(2) pt_ok_node(1) [OF assms(1) pt_ok_root [OF assms(1)]] pt_ok_prefix [OF assms(1) None]
    by (simp add: walk_def pte_at_def)
next
  case (Some t)
  note r = pt_ok_node [OF assms(1) pt_ok_root [OF assms(1)], of "PX 2 va", simplified]
  note n = pt_ok_node [OF assms(1) Some, of "PX 1 va", simplified]
  show ?thesis
    using assms(2) r(1) r(2) [OF Some] n Some by (auto simp: walk_def pte_at_def split: option.splits)
qed

lemma node_ok_cong:
  assumes "\<And>j. j < 512 \<Longrightarrow> entry m' (x + 8 * j) = entry m (x + 8 * j)" and "\<And>j. j < 512 \<Longrightarrow> T' (p @ [j]) = T (p @ [j])"
  shows "node_ok m' T' p x = node_ok m T p x"
  unfolding node_ok_def by (intro all_cong1 imp_cong refl) (simp add: assms split: option.split)

lemma pt_ok_frame:
  assumes "pt_ok kend m root T" and "\<And>p t q. T p = Some t \<Longrightarrow> length p < 2 \<Longrightarrow> in_page t q \<Longrightarrow> m' q = m q"
  shows "pt_ok kend m' root T"
proof -
  have "entry m' (t + 8 * i) = entry m (t + 8 * i)" if "T p = Some t" "length p < 2" "i < 512" for p t i
    by (rule entry_page [OF that(3)]) (use assms(2) that(1,2) in auto)
  then have "node_ok m' T p t = node_ok m T p t" if "T p = Some t" "length p < 2" for p t
    by (rule node_ok_cong) (use that in simp_all)
  then show ?thesis using assms(1) by (simp add: pt_ok_def)
qed

lemma leaf_frame:
  assumes "\<And>t q. T (leaf_path va) = Some t \<Longrightarrow> in_page t q \<Longrightarrow> m' q = m q"
  shows "leaf_pte m' T va = leaf_pte m T va"
  using assms entry_page [of "PX 0 va" _ m' m] by (auto simp: leaf_pte_def split: option.splits)

lemma tables_disjoint:
  assumes "pt_ok kend m root T" and "T p = Some t" and "T p' = Some t'" and "in_page t q" and "in_page t' q"
  shows "p = p'"
proof -
  have "t mod PGSIZE = 0" "t' mod PGSIZE = 0" using assms(1-3) by (auto simp: pt_ok_def page_ok_def)
  then have "t = t'" using pages_disjoint [OF _ _ assms(4,5)] by simp
  moreover have "inj_on T (dom T)" using assms(1) by (simp add: pt_ok_def)
  ultimately show ?thesis using assms(2,3) inj_onD [of T "dom T" p p'] by auto
qed

text \<open>A new table, zeroed, becomes a child of the table \<open>t\<close>.\<close>

lemma pt_ok_new:
  assumes ok: "pt_ok kend m root T" and t: "T p = Some t" "length p < 2" and i: "i < 512" "T (p @ [i]) = None"
    and c: "page_ok kend c" "c \<notin> ran T" and zero: "\<And>q. in_page c q \<Longrightarrow> m1 q = 0" and keep: "\<And>q. \<not> in_page c q \<Longrightarrow> m1 q = m q"
    and m': "m' = put_le m1 (t + 8 * i) 8 (unat (PA2PTE c OR PTE_V))"
  shows "pt_ok kend m' root (T(p @ [i] \<mapsto> c))" and "leaf_pte m' (T(p @ [i] \<mapsto> c)) va = leaf_pte m T va"
proof -
  let ?T = "T(p @ [i] \<mapsto> c)"
  have pg: "x mod PGSIZE = 0" if "T p = Some x" for p x using ok that by (auto simp: pt_ok_def page_ok_def)
  have sep: "\<not> in_page c q" if "T p = Some x" "in_page x q" for p x q
    using pages_disjoint [of x c q] pg [OF that(1)] c that by (auto simp: page_ok_def ran_def)
  have tab: "m' q = m q" if "T p' = Some x" "in_page x q" "p' \<noteq> p" for p' x q
  proof -
    have "\<not> in_page t q" using tables_disjoint [OF ok that(1) t(1) that(2)] that(3) by blast
    then show ?thesis using put_le_page [OF i(1)] keep sep [OF that(1,2)] m' by simp
  qed
  have tent: "entry m' (t + 8 * j) = (if j = i then PA2PTE c OR PTE_V else entry m (t + 8 * j))" if "j < 512" for j
    using entry_same_page [of i j m1 t] i(1) that entry_page [of j t m1 m] keep sep [OF t(1)] m' by auto
  have new: "m' q = 0" if "in_page c q" for q
  proof -
    have "\<not> in_page t q" using sep [OF t(1)] that by blast
    then show ?thesis using put_le_page [OF i(1)] zero [OF that] m' by simp
  qed
  have cent: "entry m' (c + 8 * j) = 0" if "j < 512" for j by (rule entry_zeroed [OF that new])
  have none: "T (p @ [i] @ ys) = None" for ys
  proof (induction ys rule: rev_induct)
    case (snoc y ys)
    have "T ((p @ [i] @ ys) @ [y]) \<noteq> None \<longrightarrow> T (p @ [i] @ ys) \<noteq> None" using ok unfolding pt_ok_def by blast
    then show ?case using snoc by auto
  qed (use i(2) in simp)
  have inj: "inj_on ?T (dom ?T)"
  proof -
    have "inj_on T (dom T)" using ok by (simp add: pt_ok_def)
    moreover have "T x \<noteq> Some c" for x using c(2) by (auto simp: ran_def)
    ultimately show ?thesis using i(2) by (auto simp: inj_on_def)
  qed
  have node: "node_ok m' ?T p' x" if p': "?T p' = Some x" "length p' < 2" for p' x
  proof -
    consider "p' = p @ [i]" "x = c" | "p' = p" "x = t" | "p' \<noteq> p @ [i]" "p' \<noteq> p" "T p' = Some x"
      using p'(1) t(1) by (cases "p' = p"; cases "p' = p @ [i]") auto
    then show ?thesis
    proof cases
      case 1
      then show ?thesis using none [of "[_]"] cent by (simp add: node_ok_def)
    next
      case 2
      have "node_ok m T p t" using ok t by (simp add: pt_ok_def)
      then have "case ?T (p @ [j]) of None \<Rightarrow> entry m' (t + 8 * j) AND PTE_V = 0 | Some c \<Rightarrow> entry m' (t + 8 * j) = PA2PTE c OR PTE_V"
        if "j < 512" for j using that tent [OF that] by (cases "T (p @ [j])"; force simp: node_ok_def)
      then show ?thesis unfolding node_ok_def 2 by blast
    next
      case 3
      have "entry m' (x + 8 * j) = entry m (x + 8 * j)" if "j < 512" for j
        by (rule entry_page [OF that]) (use tab [OF 3(3)] 3(2) in auto)
      moreover have "?T (p' @ [j]) = T (p' @ [j])" for j using 3(2) by simp
      moreover have "node_ok m T p' x" using ok 3(3) p'(2) by (simp add: pt_ok_def)
      ultimately show ?thesis using node_ok_cong [of m' x m ?T p' T] by simp
    qed
  qed
  show "pt_ok kend m' root ?T" unfolding pt_ok_def
  proof (intro conjI allI impI)
    show "?T [] = Some root" using ok by (simp add: pt_ok_def)
    show "inj_on ?T (dom ?T)" by (rule inj)
    fix p' j assume "?T (p' @ [j]) \<noteq> None"
    then show "?T p' \<noteq> None" using ok t(1) unfolding pt_ok_def by (cases "p' = p") (auto split: if_splits)
  next
    fix p' x assume a: "?T p' = Some x"
    show "length p' \<le> 2" "page_ok kend x" using a ok c(1) t(2) by (auto simp: pt_ok_def split: if_splits)
    show "length p' < 2 \<Longrightarrow> node_ok m' ?T p' x" by (rule node [OF a])
  qed
  have "leaf_path va \<noteq> p" using t(2) by auto
  show "leaf_pte m' ?T va = leaf_pte m T va"
  proof (cases "leaf_path va = p @ [i]")
    case True
    then have "T (leaf_path va) = None" "?T (leaf_path va) = Some c" unfolding True using i(2) by simp_all
    then show ?thesis using cent by (simp add: leaf_pte_def)
  next
    case False
    then have "?T (leaf_path va) = T (leaf_path va)" by (simp only: fun_upd_other not_False_eq_True)
    then have "leaf_pte m' ?T va = leaf_pte m' T va" by (simp only: leaf_pte_def)
    also have "\<dots> = leaf_pte m T va" by (rule leaf_frame) (use tab \<open>leaf_path va \<noteq> p\<close> in auto)
    finally show ?thesis .
  qed
qed

section \<open>Allocating tables\<close>

definition vm_ok :: "nat \<Rightarrow> 'a mkernel \<Rightarrow> nat \<Rightarrow> tables \<Rightarrow> nat list \<Rightarrow> bool" where
  "vm_ok kend s root T ps \<longleftrightarrow> quiet {} s \<and> free_pages kend s ps \<and> pt_ok kend (ram (world s)) root T \<and> ran T \<inter> set ps = {}"

definition others_same :: "'a mkernel \<Rightarrow> 'a mkernel \<Rightarrow> bool" where
  "others_same s s' \<longleftrightarrow> procs s' = procs s \<and> cproc s' = cproc s \<and> kmem_world.more (world s') = kmem_world.more (world s)"

lemma others_same_simps [simp]:
  "others_same s s" "others_same s (upd_kmem f m s') = others_same s s'" "others_same s (set_ram m s') = others_same s s'"
  "others_same s (s'\<lparr>cpu := c\<rparr>) = others_same s s'"
  by (simp_all add: others_same_def upd_kmem_def set_ram_def)

lemma others_same_trans: "others_same s t \<Longrightarrow> others_same t u \<Longrightarrow> others_same s u"
  by (simp add: others_same_def)

lemma acq_rel_others:
  "acq lk s = Inr s' \<Longrightarrow> others_same t s' = others_same t s" "rel lk s = Inr s' \<Longrightarrow> others_same t s' = others_same t s"
  by (auto simp: acq_def rel_def seq_eq_Inr)

lemma kalloc_others: "kalloc s = Inr (r, s') \<Longrightarrow> others_same s s'"
  by (auto simp: kalloc_def seq_eq_Inr Let_def acq_rel_others split: if_splits dest!: acq_rel_others [where t = s])

lemma kfree_others: "kfree kend pa s = Inr s' \<Longrightarrow> others_same s s'"
  by (auto simp: kfree_def seq_eq_Inr Let_def split: if_splits dest!: acq_rel_others [where t = s])

lemma set_ram_simps [simp]:
  "ram (world (set_ram m s)) = m" "freelist (world (set_ram m s)) = freelist (world s)" "quiet L (set_ram m s) = quiet L s"
  "pte_at a (set_ram m s) = entry m a"
  by (simp_all add: set_ram_def pte_at_def)

text \<open>The free list survives writes outside its pages.\<close>

lemma free_pages_ram:
  assumes "free_pages kend s ps" and "\<And>p q. p \<in> set ps \<Longrightarrow> in_page p q \<Longrightarrow> m q = ram (world s) q"
  shows "free_pages kend (set_ram m s) ps"
proof -
  have "linked m (freelist (world s)) ps = linked (ram (world s)) (freelist (world s)) ps"
    by (rule linked_cong) (use assms(2) in \<open>auto simp: in_page_def PGSIZE_def\<close>)
  then show ?thesis using assms(1) by (simp add: free_pages_def)
qed

lemma vm_ok_ram:
  assumes "vm_ok kend s root T ps" and "\<And>t q. t \<in> set ps \<Longrightarrow> in_page t q \<Longrightarrow> m q = ram (world s) q"
    and "pt_ok kend m root T"
  shows "vm_ok kend (set_ram m s) root T ps"
  using assms free_pages_ram [of kend s ps m] by (auto simp: vm_ok_def)

text \<open>One level of \<open>walk\<close> that allocates.\<close>

lemma new_table:
  assumes ok: "vm_ok kend s root T (c # ps)" and t: "T p = Some t" "length p < 2" and i: "i < 512" "T (p @ [i]) = None"
  shows "\<exists>s1 s'. kalloc s = Inr (c, s1) \<and> c \<noteq> 0 \<and> s' = set_pte (t + 8 * i) (PA2PTE c OR PTE_V) (zero_page c s1) \<and>
    vm_ok kend s' root (T(p @ [i] \<mapsto> c)) ps \<and> others_same s s' \<and>
    (\<forall>va. leaf_pte (ram (world s')) (T(p @ [i] \<mapsto> c)) va = leaf_pte (ram (world s)) T va) \<and>
    (\<forall>q. \<not> in_page t q \<longrightarrow> \<not> in_page c q \<longrightarrow> ram (world s') q = ram (world s) q)"
proof -
  have v: "quiet {} s" "free_pages kend s (c # ps)" "pt_ok kend (ram (world s)) root T" "c \<notin> ran T" "ran T \<inter> set ps = {}"
    using ok by (auto simp: vm_ok_def)
  have c: "c \<noteq> 0" "c \<notin> set ps" "page_ok kend c" using free_pages_pop [OF v(2)] by auto
  obtain s1 where s1: "kalloc s = Inr (c, s1)" "quiet {} s1" "free_pages kend s1 ps" "ram (world s1) = memset (ram (world s)) c 5 PGSIZE"
    using kalloc_ok [OF v(1,2)] by auto
  let ?m1 = "memset (ram (world s1)) c 0 PGSIZE" and ?m = "put_le (memset (ram (world s1)) c 0 PGSIZE) (t + 8 * i) 8 (unat (PA2PTE c OR PTE_V))"
  let ?T = "T(p @ [i] \<mapsto> c)"
  have m1: "in_page c q \<Longrightarrow> ?m1 q = 0" "\<not> in_page c q \<Longrightarrow> ?m1 q = ram (world s) q" for q
    using s1(4) by (auto simp: memset_eq in_page_def)
  note new = pt_ok_new [OF v(3) t i c(3) v(4) m1 refl]
  have out: "?m q = ram (world s) q" if "\<not> in_page t q" "\<not> in_page c q" for q
    using put_le_page [OF i(1) that(1)] m1(2) [OF that(2)] by simp
  have tp: "t mod PGSIZE = 0" "t \<in> ran T" using v(3) t(1) by (auto simp: pt_ok_def page_ok_def ran_def)
  have "free_pages kend (set_ram ?m s1) ps"
  proof (rule free_pages_ram [OF s1(3)])
    fix x q assume x: "x \<in> set ps" "in_page x q"
    have "x mod PGSIZE = 0" using s1(3) x(1) by (auto simp: free_pages_def page_ok_def)
    then have "\<not> in_page t q" "\<not> in_page c q"
      using pages_disjoint [of x t q] pages_disjoint [of x c q] tp x c v(5) by (auto simp: page_ok_def)
    then show "?m q = ram (world s1) q" using out [of q] s1(4) by (auto simp: memset_eq in_page_def)
  qed
  then have "vm_ok kend (set_ram ?m s1) root ?T ps" using new(1) s1(2) v(4,5) c(2) i(2) by (auto simp: vm_ok_def ran_map_upd)
  moreover have "set_pte (t + 8 * i) (PA2PTE c OR PTE_V) (zero_page c s1) = set_ram ?m s1"
    by (simp add: set_pte_def zero_page_def set_ram_def)
  ultimately show ?thesis using s1(1) c(1) new(2) kalloc_others [OF s1(1)] out by (intro exI [of _ s1] exI [of _ "set_ram ?m s1"]) auto
qed

text \<open>\<open>walk\<close> with \<open>alloc\<close>: the tables on the way exist afterwards, or memory is out; no entry of a page changes.\<close>

definition vm_grown :: "nat \<Rightarrow> nat \<Rightarrow> 'a mkernel \<Rightarrow> tables \<Rightarrow> nat list \<Rightarrow> 'a mkernel \<Rightarrow> tables \<Rightarrow> nat list \<Rightarrow> bool" where
  "vm_grown kend root s T ps s' T' ps' \<longleftrightarrow> vm_ok kend s' root T' ps' \<and> others_same s s' \<and> T \<subseteq>\<^sub>m T' \<and>
     set ps' \<subseteq> set ps \<and> ran T' \<subseteq> ran T \<union> set ps \<and>
     (\<forall>q. (\<forall>t \<in> ran T'. \<not> in_page t q) \<longrightarrow> ram (world s') q = ram (world s) q)"

definition grown :: "nat \<Rightarrow> nat \<Rightarrow> 'a mkernel \<Rightarrow> tables \<Rightarrow> nat list \<Rightarrow> 'a mkernel \<Rightarrow> tables \<Rightarrow> nat list \<Rightarrow> bool" where
  "grown kend root s T ps s' T' ps' \<longleftrightarrow> vm_grown kend root s T ps s' T' ps' \<and>
     (\<forall>va. leaf_pte (ram (world s')) T' va = leaf_pte (ram (world s)) T va)"

lemma grown_refl: "vm_ok kend s root T ps \<Longrightarrow> grown kend root s T ps s T ps"
  by (simp add: grown_def vm_grown_def)

lemma vm_grown_trans:
  assumes "vm_grown kend root s T ps s' T' ps'" and "vm_grown kend root s' T' ps' s'' T'' ps''"
  shows "vm_grown kend root s T ps s'' T'' ps''"
proof -
  have "ran T' \<subseteq> ran T''" using assms(2) by (auto simp: vm_grown_def map_le_def ran_def dom_def) metis
  then have "\<forall>t \<in> ran T'. \<not> in_page t q" if "\<forall>t \<in> ran T''. \<not> in_page t q" for q using that by blast
  then show ?thesis
    using assms unfolding vm_grown_def by (auto intro: others_same_trans map_le_trans)
qed

lemma grown_trans: "grown kend root s T ps s' T' ps' \<Longrightarrow> grown kend root s' T' ps' s'' T'' ps'' \<Longrightarrow> grown kend root s T ps s'' T'' ps''"
  using vm_grown_trans unfolding grown_def by fastforce

lemma walk_level:
  assumes ok: "vm_ok kend s root T ps" and t: "T p = Some t" "length p < 2"
  shows "\<exists>s' T' ps'. grown kend root s T ps s' T' ps' \<and>
    (case T' (p @ [PX l va]) of
       None \<Rightarrow> ps' = [] \<and> walk_loop (l # ls) t va True s = Inr (None, s')
     | Some c \<Rightarrow> walk_loop (l # ls) t va True s = walk_loop ls c va True s')"
proof -
  have v: "quiet {} s" "free_pages kend s ps" "pt_ok kend (ram (world s)) root T" using ok by (simp_all add: vm_ok_def)
  note n = pt_ok_node [OF v(3) t PX_less, of l va, folded pte_at_def]
  consider c where "T (p @ [PX l va]) = Some c" | "T (p @ [PX l va]) = None" "ps = []" | c qs where "T (p @ [PX l va]) = None" "ps = c # qs"
    by (cases "T (p @ [PX l va])"; cases ps) auto
  then show ?thesis
  proof cases
    case 1
    then show ?thesis using grown_refl [OF ok] n by (intro exI [of _ s] exI [of _ T] exI [of _ ps]) simp
  next
    case 2
    obtain s' where s': "kalloc s = Inr (0, s')" "quiet {} s'" "free_pages kend s' []" "ram (world s') = ram (world s)"
      using kalloc_ok [OF v(1,2)] 2(2) by auto
    then have "grown kend root s T ps s' T []"
      using v(3) kalloc_others [OF s'(1)] by (simp add: grown_def vm_grown_def vm_ok_def)
    then show ?thesis using 2 n s'(1) by (intro exI [of _ s'] exI [of _ T] exI [of _ "[]"]) simp
  next
    case 3
    obtain s1 s' where s': "kalloc s = Inr (c, s1)" "c \<noteq> 0" "s' = set_pte (t + 8 * PX l va) (PA2PTE c OR PTE_V) (zero_page c s1)"
        "vm_ok kend s' root (T(p @ [PX l va] \<mapsto> c)) qs" "others_same s s'"
        "\<And>va'. leaf_pte (ram (world s')) (T(p @ [PX l va] \<mapsto> c)) va' = leaf_pte (ram (world s)) T va'"
        "\<And>q. \<not> in_page t q \<Longrightarrow> \<not> in_page c q \<Longrightarrow> ram (world s') q = ram (world s) q"
      using new_table [OF ok [unfolded 3(2)] t PX_less 3(1)] by blast
    let ?T = "T(p @ [PX l va] \<mapsto> c)"
    have r: "ran ?T = insert c (ran T)" using 3(1) by (simp add: ran_map_upd)
    have "t \<in> ran T" using t(1) by (auto simp: ran_def)
    then have "grown kend root s T ps s' ?T qs"
      using s'(4-7) 3 r by (auto simp: grown_def vm_grown_def map_le_def)
    then show ?thesis using 3 n s'(1-3) by (intro exI [of _ s'] exI [of _ ?T] exI [of _ qs]) simp
  qed
qed

lemma walk_alloc:
  assumes "vm_ok kend s root T ps" and "va < MAXVA"
  shows "\<exists>r s' T' ps'. walk root va True s = Inr (r, s') \<and> grown kend root s T ps s' T' ps' \<and>
    (if r = 0 then ps' = [] else \<exists>t. T' (leaf_path va) = Some t \<and> r = t + 8 * PX 0 va)"
proof -
  have r: "T [] = Some root" using assms(1) by (simp add: vm_ok_def pt_ok_def)
  obtain s1 T1 ps1 where g1: "grown kend root s T ps s1 T1 ps1" and
    w1: "case T1 [PX 2 va] of None \<Rightarrow> ps1 = [] \<and> walk_loop [2, 1] root va True s = Inr (None, s1)
       | Some c \<Rightarrow> walk_loop [2, 1] root va True s = walk_loop [1] c va True s1"
    using walk_level [OF assms(1) r, where l = 2 and va = va and ls = "[1]"] by auto
  show ?thesis
  proof (cases "T1 [PX 2 va]")
    case None
    then show ?thesis using g1 w1 assms(2) by (intro exI [of _ 0]) (auto simp: walk_def)
  next
    case (Some c)
    have "vm_ok kend s1 root T1 ps1" using g1 by (simp add: grown_def vm_grown_def)
    from walk_level [OF this Some, where l = 1 and va = va and ls = "[]"] obtain s2 T2 ps2 where g2: "grown kend root s1 T1 ps1 s2 T2 ps2" and
      w2: "case T2 (leaf_path va) of None \<Rightarrow> ps2 = [] \<and> walk_loop [1] c va True s1 = Inr (None, s2)
         | Some t \<Rightarrow> walk_loop [1] c va True s1 = Inr (Some t, s2)"
      unfolding walk_loop.simps(1) by auto
    have g: "grown kend root s T ps s2 T2 ps2" by (rule grown_trans [OF g1 g2])
    show ?thesis
    proof (cases "T2 (leaf_path va)")
      case None
      then show ?thesis using g w1 w2 Some assms(2) by (intro exI [of _ 0]) (auto simp: walk_def simp del: walk_loop.simps)
    next
      case (Some t)
      have "pt_ok kend (ram (world s2)) root T2" "0 < kend" using g by (auto simp: grown_def vm_grown_def vm_ok_def free_pages_def)
      then have "page_ok kend t" "0 < kend" using Some unfolding pt_ok_def by blast+
      then have "t \<noteq> 0" by (auto simp: page_ok_def)
      then show ?thesis using g w1 w2 Some \<open>T1 [PX 2 va] = Some c\<close> assms(2)
        by (intro exI [of _ "t + 8 * PX 0 va"] exI [of _ s2] exI [of _ T2] exI [of _ ps2]) (simp add: walk_def del: walk_loop.simps)
    qed
  qed
qed

section \<open>Mapping pages\<close>

lemma PX_page: "a div PGSIZE = b div PGSIZE \<Longrightarrow> PX l a = PX l b"
  by (simp add: PX_def PGSIZE_def power_add div_mult2_eq)

lemma set_leaf:
  assumes ok: "vm_ok kend s root T ps" and t: "T (leaf_path va) = Some t" and va: "va < MAXVA"
    and s': "s' = set_pte (t + 8 * PX 0 va) e s"
  shows "vm_ok kend s' root T ps" and "others_same s s'"
    and "va' < MAXVA \<Longrightarrow> leaf_pte (ram (world s')) T va' = (if va' div PGSIZE = va div PGSIZE then e else leaf_pte (ram (world s)) T va')"
    and "\<not> in_page t q \<Longrightarrow> ram (world s') q = ram (world s) q"
proof -
  let ?m = "ram (world s)" and ?m' = "put_le (ram (world s)) (t + 8 * PX 0 va) 8 (unat e)"
  have v: "pt_ok kend ?m root T" "free_pages kend s ps" "ran T \<inter> set ps = {}" using ok by (auto simp: vm_ok_def)
  have s2: "s' = set_ram ?m' s" using s' by (simp add: set_pte_def)
  have out: "?m' q = ?m q" if "\<not> in_page t q" for q using put_le_page [OF PX_less that] .
  then show "\<not> in_page t q \<Longrightarrow> ram (world s') q = ram (world s) q" using s2 by simp
  have tt: "t mod PGSIZE = 0" "t \<in> ran T" using v(1) t by (auto simp: pt_ok_def page_ok_def ran_def)
  show "vm_ok kend s' root T ps" unfolding s2
  proof (rule vm_ok_ram [OF ok])
    fix x q assume x: "x \<in> set ps" "in_page x q"
    then have "x mod PGSIZE = 0" "x \<noteq> t" using v(2,3) tt by (auto simp: free_pages_def page_ok_def)
    then show "?m' q = ?m q" by (intro out) (use pages_disjoint [of x t q] x(2) tt(1) in auto)
  next
    show "pt_ok kend ?m' root T"
    proof (rule pt_ok_frame [OF v(1)])
      fix p x q assume p: "T p = Some x" "length p < 2" "in_page x q"
      then have "\<not> in_page t q" using tables_disjoint [OF v(1) p(1) t p(3)] by auto
      then show "?m' q = ?m q" by (rule out)
    qed
  qed
  show "others_same s s'" using s2 by simp
  assume va': "va' < MAXVA"
  show "leaf_pte (ram (world s')) T va' = (if va' div PGSIZE = va div PGSIZE then e else leaf_pte ?m T va')"
  proof (cases "leaf_path va' = leaf_path va")
    case True
    have tp: "T (leaf_path va') = Some t" unfolding True by (rule t)
    have eqs: "PX 2 va' = PX 2 va" "PX 1 va' = PX 1 va" using True by simp_all
    show ?thesis
    proof (cases "PX 0 va' = PX 0 va")
      case True
      then have "va' div PGSIZE = va div PGSIZE" using PX_inj [OF eqs _ va' va] by simp
      then show ?thesis using tp True s2 by (simp add: leaf_pte_def)
    next
      case False
      then have "va' div PGSIZE \<noteq> va div PGSIZE" using PX_page [of va' va 0] by blast
      then show ?thesis using tp s2 entry_same_page [of "PX 0 va" "PX 0 va'"] False by (simp add: leaf_pte_def)
    qed
  next
    case False
    then have "va' div PGSIZE \<noteq> va div PGSIZE" using PX_page [of va' va 1] PX_page [of va' va 2] by metis
    moreover have "leaf_pte ?m' T va' = leaf_pte ?m T va'"
      by (rule leaf_frame) (use out tables_disjoint [OF v(1) _ t] False in metis)
    ultimately show ?thesis using s2 by simp
  qed
qed

text \<open>The pages of the range are mapped up to \<open>k\<close>, and nothing else changes.\<close>

definition mapped_upto :: "nat \<Rightarrow> nat \<Rightarrow> nat \<Rightarrow> 64 word \<Rightarrow> (nat \<Rightarrow> 64 word) \<Rightarrow> (nat \<Rightarrow> 64 word) \<Rightarrow> bool" where
  "mapped_upto va k pa perm f g \<longleftrightarrow> (\<forall>x < MAXVA. g x =
     (if va \<le> x \<and> x < va + k * PGSIZE then PA2PTE (pa + (PGROUNDDOWN x - va)) OR perm OR PTE_V else f x))"

lemma page_eq_iff:
  assumes "a mod PGSIZE = 0"
  shows "x div PGSIZE = a div PGSIZE \<longleftrightarrow> a \<le> x \<and> x < a + PGSIZE" and "a \<le> x \<Longrightarrow> x < a + PGSIZE \<Longrightarrow> PGROUNDDOWN x = a"
proof -
  obtain b where b: "a = 4096 * b" using assms by (auto simp: PGSIZE_def)
  then show iff: "x div PGSIZE = a div PGSIZE \<longleftrightarrow> a \<le> x \<and> x < a + PGSIZE" by (auto simp: PGSIZE_def)
  assume "a \<le> x" "x < a + PGSIZE"
  then have "x div 4096 = b" using iff b by (simp add: PGSIZE_def)
  then show "PGROUNDDOWN x = a" using b by (simp add: PGROUNDDOWN_def PGSIZE_def minus_mod_eq_mult_div)
qed

lemma rounddown_ge:
  assumes "a mod PGSIZE = 0" and "a \<le> x"
  shows "a \<le> PGROUNDDOWN x"
proof -
  obtain b where b: "a = 4096 * b" using assms(1) by (auto simp: PGSIZE_def)
  then have "b \<le> x div 4096" using assms(2) by simp
  then show ?thesis using b by (simp add: PGROUNDDOWN_def PGSIZE_def minus_mod_eq_mult_div)
qed

lemma mapped_upto_Suc:
  assumes "a mod PGSIZE = 0" and "\<forall>x < MAXVA. g x = (if x div PGSIZE = a div PGSIZE then PA2PTE pa OR perm OR PTE_V else f x)"
    and "mapped_upto (a + PGSIZE) k (pa + PGSIZE) perm g h"
  shows "mapped_upto a (Suc k) pa perm f h"
  unfolding mapped_upto_def
proof (intro allI impI)
  fix x assume x: "x < MAXVA"
  have h: "h x = (if a + PGSIZE \<le> x \<and> x < a + PGSIZE + k * PGSIZE then PA2PTE (pa + PGSIZE + (PGROUNDDOWN x - (a + PGSIZE))) OR perm OR PTE_V else g x)"
    using assms(3) x by (simp add: mapped_upto_def)
  have g: "g x = (if a \<le> x \<and> x < a + PGSIZE then PA2PTE pa OR perm OR PTE_V else f x)"
    using assms(2) x page_eq_iff(1) [OF assms(1), of x] by simp
  show "h x = (if a \<le> x \<and> x < a + Suc k * PGSIZE then PA2PTE (pa + (PGROUNDDOWN x - a)) OR perm OR PTE_V else f x)"
  proof (cases "a + PGSIZE \<le> x")
    case True
    then have "pa + PGSIZE + (PGROUNDDOWN x - (a + PGSIZE)) = pa + (PGROUNDDOWN x - a)"
      using rounddown_ge [of "a + PGSIZE" x] assms(1) by simp
    then show ?thesis using h g True by (simp add: add.assoc)
  next
    case False
    then show ?thesis using h g page_eq_iff(2) [OF assms(1), of x] by auto
  qed
qed

lemma mapped_none: "mapped_upto a 0 pa perm f f"
  by (auto simp: mapped_upto_def)

text \<open>One round of the loop of \<open>mappages\<close>.\<close>

lemma map_step:
  assumes vm: "vm_ok kend s root T ps" and a: "a < MAXVA" and free: "leaf_pte (ram (world s)) T a AND PTE_V = 0"
  obtains (nomem) s' T' where "walk root a True s = Inr (0, s')" "grown kend root s T ps s' T' []"
  | (ok) pte s1 T' ps' where "walk root a True s = Inr (pte, s1)" "pte \<noteq> 0" "pte_at pte s1 AND PTE_V = 0"
      "vm_grown kend root s T ps (set_pte pte e s1) T' ps'"
      "\<forall>x < MAXVA. leaf_pte (ram (world (set_pte pte e s1))) T' x = (if x div PGSIZE = a div PGSIZE then e else leaf_pte (ram (world s)) T x)"
proof -
  obtain r s1 T' ps' where w: "walk root a True s = Inr (r, s1)" and g: "grown kend root s T ps s1 T' ps'"
    and r: "if r = 0 then ps' = [] else \<exists>t. T' (leaf_path a) = Some t \<and> r = t + 8 * PX 0 a"
    using walk_alloc [OF vm a] by blast
  show ?thesis
  proof (cases "r = 0")
    case True
    then show ?thesis using w g r by (intro nomem) auto
  next
    case False
    then obtain t where t: "T' (leaf_path a) = Some t" "r = t + 8 * PX 0 a" using r by auto
    have ok1: "vm_ok kend s1 root T' ps'" using g by (simp add: grown_def vm_grown_def)
    note l = set_leaf [OF ok1 t(1) a, of "set_pte r e s1" e, unfolded t(2), OF refl, folded t(2)]
    have "t \<in> ran T'" using t(1) by (auto simp: ran_def)
    then have "vm_grown kend root s1 T' ps' (set_pte r e s1) T' ps'" using l(1,2,4) by (auto simp: vm_grown_def)
    then have "vm_grown kend root s T ps (set_pte r e s1) T' ps'" using g vm_grown_trans by (auto simp: grown_def)
    moreover have "pte_at r s1 AND PTE_V = 0"
    proof -
      have "leaf_pte (ram (world s1)) T' a = pte_at r s1" using t by (simp add: leaf_pte_def pte_at_def)
      then show ?thesis using g free by (simp add: grown_def)
    qed
    ultimately show ?thesis using w False l(3) g by (intro ok [of r s1 T' ps']) (auto simp: grown_def)
  qed
qed

lemma mappages_loop_ok:
  assumes "vm_ok kend s root T ps" and "a mod PGSIZE = 0" and "a + Suc k * PGSIZE \<le> MAXVA"
    and "\<forall>x. a \<le> x \<and> x < a + Suc k * PGSIZE \<longrightarrow> leaf_pte (ram (world s)) T x AND PTE_V = 0"
  shows "\<exists>r s' T' ps' j. mappages_loop root a (a + k * PGSIZE) pa perm s = Inr (r, s') \<and> vm_grown kend root s T ps s' T' ps' \<and>
    j \<le> Suc k \<and> mapped_upto a j pa perm (leaf_pte (ram (world s)) T) (leaf_pte (ram (world s')) T') \<and>
    (if j = Suc k then r = 0 else r = -1 \<and> ps' = [])"
  using assms
proof (induction k arbitrary: a pa s T ps)
  case (0 a pa s T ps)
  have a: "a < MAXVA" "leaf_pte (ram (world s)) T a AND PTE_V = 0" using 0(3,4) by (auto simp: PGSIZE_def)
  show ?case
  proof (rule map_step [OF 0(1) a, where e = "PA2PTE pa OR perm OR PTE_V"])
    fix s' T' assume "walk root a True s = Inr (0, s')" "grown kend root s T ps s' T' []"
    then show ?thesis using a(1) mapped_none
      by (intro exI [of _ "-1"] exI [of _ s'] exI [of _ T'] exI [of _ "[]"] exI [of _ 0]) (simp add: mappages_loop.simps grown_def)
  next
    fix pte s1 T' ps' assume ok: "walk root a True s = Inr (pte, s1)" "pte \<noteq> 0" "pte_at pte s1 AND PTE_V = 0"
      "vm_grown kend root s T ps (set_pte pte (PA2PTE pa OR perm OR PTE_V) s1) T' ps'"
      "\<forall>x < MAXVA. leaf_pte (ram (world (set_pte pte (PA2PTE pa OR perm OR PTE_V) s1))) T' x =
        (if x div PGSIZE = a div PGSIZE then PA2PTE pa OR perm OR PTE_V else leaf_pte (ram (world s)) T x)"
    have "mapped_upto a (Suc 0) pa perm (leaf_pte (ram (world s)) T) (leaf_pte (ram (world (set_pte pte (PA2PTE pa OR perm OR PTE_V) s1))) T')"
      by (rule mapped_upto_Suc [OF 0(2) ok(5) mapped_none])
    then show ?thesis using a(1) ok(1-4)
      by (intro exI [of _ 0] exI [of _ "set_pte pte (PA2PTE pa OR perm OR PTE_V) s1"] exI [of _ T'] exI [of _ ps'] exI [of _ "Suc 0"])
        (simp add: mappages_loop.simps Let_def)
  qed
next
  case (Suc k)
  have a: "a < MAXVA" "leaf_pte (ram (world s)) T a AND PTE_V = 0" using Suc.prems(3,4) by (auto simp: PGSIZE_def)
  show ?case
  proof (rule map_step [OF Suc.prems(1) a, where e = "PA2PTE pa OR perm OR PTE_V"])
    fix s' T' assume "walk root a True s = Inr (0, s')" "grown kend root s T ps s' T' []"
    then show ?thesis using a(1) mapped_none
      by (intro exI [of _ "-1"] exI [of _ s'] exI [of _ T'] exI [of _ "[]"] exI [of _ 0]) (simp add: mappages_loop.simps [of root a] grown_def)
  next
    fix pte s1 T' ps' assume ok: "walk root a True s = Inr (pte, s1)" "pte \<noteq> 0" "pte_at pte s1 AND PTE_V = 0"
      "vm_grown kend root s T ps (set_pte pte (PA2PTE pa OR perm OR PTE_V) s1) T' ps'"
      "\<forall>x < MAXVA. leaf_pte (ram (world (set_pte pte (PA2PTE pa OR perm OR PTE_V) s1))) T' x =
        (if x div PGSIZE = a div PGSIZE then PA2PTE pa OR perm OR PTE_V else leaf_pte (ram (world s)) T x)"
    let ?s = "set_pte pte (PA2PTE pa OR perm OR PTE_V) s1"
    have "vm_ok kend ?s root T' ps'" using ok(4) by (simp add: vm_grown_def)
    moreover have "leaf_pte (ram (world ?s)) T' x AND PTE_V = 0" if "a + PGSIZE \<le> x \<and> x < a + PGSIZE + Suc k * PGSIZE" for x
    proof -
      have "x div PGSIZE \<noteq> a div PGSIZE" using page_eq_iff(1) [OF Suc.prems(2), of x] that by auto
      moreover have "x < MAXVA" "a \<le> x" "x < a + Suc (Suc k) * PGSIZE" using that Suc.prems(3) by simp_all
      ultimately show ?thesis using ok(5) Suc.prems(4) by simp
    qed
    ultimately obtain r s' T'' ps'' j where
      l: "mappages_loop root (a + PGSIZE) (a + PGSIZE + k * PGSIZE) (pa + PGSIZE) perm ?s = Inr (r, s')" and
      g: "vm_grown kend root ?s T' ps' s' T'' ps''" and j: "j \<le> Suc k" "if j = Suc k then r = 0 else r = -1 \<and> ps'' = []" and
      m: "mapped_upto (a + PGSIZE) j (pa + PGSIZE) perm (leaf_pte (ram (world ?s)) T') (leaf_pte (ram (world s')) T'')"
      using Suc.IH [of ?s T' ps' "a + PGSIZE" "pa + PGSIZE"] Suc.prems(2,3) by auto
    have "mappages_loop root a (a + Suc k * PGSIZE) pa perm s = Inr (r, s')"
      using a(1) ok(1-3) l by (simp add: mappages_loop.simps [of root a] Let_def PGSIZE_def algebra_simps)
    then show ?thesis using vm_grown_trans [OF ok(4) g] mapped_upto_Suc [OF Suc.prems(2) ok(5) m] j
      by (intro exI [of _ r] exI [of _ s'] exI [of _ T''] exI [of _ ps''] exI [of _ "Suc j"]) auto
  qed
qed

end
