(* ===== verification/Kernel_Vm_Props.thy ===== *)
theory Kernel_Vm_Props
  imports Kernel_Vm_Inv
begin

unbundle bit_operations_syntax

text \<open>
  The address space of a process as its user sees it: a memory of bytes at virtual addresses, in which the pages that \<open>sbrk\<close> has
  granted but not yet allocated read as zeros.  \<open>copyin\<close> and \<open>copyout\<close> read and write this memory.
\<close>

section \<open>User memory\<close>

definition user_pte :: "64 word \<Rightarrow> bool" where
  "user_pte e \<longleftrightarrow> e AND PTE_V \<noteq> 0 \<and> e AND PTE_U \<noteq> 0"

abbreviation psize :: "'a mkernel \<Rightarrow> nat" where
  "psize s \<equiv> unat (sz (procs s ! the (cproc s)))"

definition uview :: "'a mkernel \<Rightarrow> nat \<Rightarrow> nat \<Rightarrow> byte option" where
  "uview s root x =
    (let e = hw_pte (ram (world s)) root x in
     if x \<ge> MAXVA then None
     else if e AND PTE_V = 0 then (if PGROUNDDOWN x < psize s then Some 0 else None)
     else if e AND PTE_U = 0 then None
     else Some (ram (world s) (PTE2PA e + x mod PGSIZE)))"

text \<open>The pages of an address space: tables, free pages and user pages do not overlap, and no user page is mapped twice.\<close>

definition user_pages :: "mem \<Rightarrow> nat \<Rightarrow> nat set" where
  "user_pages m root = {PTE2PA (hw_pte m root x) | x. x < MAXVA \<and> user_pte (hw_pte m root x)}"

definition owned :: "'a mkernel \<Rightarrow> nat \<Rightarrow> tables \<Rightarrow> nat list \<Rightarrow> nat set" where
  "owned s root T ps = ran T \<union> set ps \<union> user_pages (ram (world s)) root"

definition no_alias :: "(nat \<Rightarrow> 64 word) \<Rightarrow> bool" where
  "no_alias f \<longleftrightarrow> (\<forall>x < MAXVA. \<forall>y < MAXVA. user_pte (f x) \<longrightarrow> user_pte (f y) \<longrightarrow> PTE2PA (f x) = PTE2PA (f y) \<longrightarrow> x div PGSIZE = y div PGSIZE)"

lemma no_alias_cong: "\<forall>x < MAXVA. g x = f x \<Longrightarrow> no_alias f \<Longrightarrow> no_alias g"
  unfolding no_alias_def by metis

definition space_ok :: "nat \<Rightarrow> 'a mkernel \<Rightarrow> nat \<Rightarrow> tables \<Rightarrow> nat list \<Rightarrow> bool" where
  "space_ok kend s root T ps \<longleftrightarrow> vm_ok kend s root T ps \<and> (\<forall>p \<in> user_pages (ram (world s)) root. page_ok kend p \<and> p \<notin> ran T \<and> p \<notin> set ps) \<and>
     no_alias (hw_pte (ram (world s)) root) \<and> unat (pagetable (procs s ! the (cproc s))) = root \<and> psize s \<le> MAXVA"

text \<open>A step that keeps the address space well formed and writes to none but its pages.\<close>

definition keeps :: "nat \<Rightarrow> nat \<Rightarrow> 'a mkernel \<Rightarrow> tables \<Rightarrow> nat list \<Rightarrow> 'a mkernel \<Rightarrow> tables \<Rightarrow> nat list \<Rightarrow> bool" where
  "keeps kend root s T ps s' T' ps' \<longleftrightarrow> space_ok kend s' root T' ps' \<and> others_same s s' \<and> owned s' root T' ps' \<subseteq> owned s root T ps \<and>
     (\<forall>q. (\<forall>t \<in> owned s root T ps. \<not> in_page t q) \<longrightarrow> ram (world s') q = ram (world s) q)"

lemma keeps_refl: "space_ok kend s root T ps \<Longrightarrow> keeps kend root s T ps s T ps"
  by (simp add: keeps_def)

lemma keeps_trans: "keeps kend root s T ps s' T' ps' \<Longrightarrow> keeps kend root s' T' ps' s'' T'' ps'' \<Longrightarrow> keeps kend root s T ps s'' T'' ps''"
  unfolding keeps_def by (metis others_same_trans subset_iff)

lemma space_pt: "space_ok kend s root T ps \<Longrightarrow> pt_ok kend (ram (world s)) root T"
  by (simp add: space_ok_def vm_ok_def)

lemma space_leaf: "space_ok kend s root T ps \<Longrightarrow> leaf_pte (ram (world s)) T = hw_pte (ram (world s)) root"
  using hw_pte_leaf space_pt by (metis ext)

lemma user_pagesI: "x < MAXVA \<Longrightarrow> user_pte (hw_pte m root x) \<Longrightarrow> PTE2PA (hw_pte m root x) \<in> user_pages m root"
  by (auto simp: user_pages_def)

lemma user_page_ok:
  assumes "space_ok kend s root T ps" and "x < MAXVA" and "user_pte (hw_pte (ram (world s)) root x)"
  shows "page_ok kend (PTE2PA (hw_pte (ram (world s)) root x))" and "PTE2PA (hw_pte (ram (world s)) root x) \<noteq> 0"
proof -
  show p: "page_ok kend (PTE2PA (hw_pte (ram (world s)) root x))"
    using assms user_pagesI [OF assms(2,3)] by (simp add: space_ok_def)
  have "0 < kend" using assms(1) by (simp add: space_ok_def vm_ok_def free_pages_def)
  then show "PTE2PA (hw_pte (ram (world s)) root x) \<noteq> 0" using p by (auto simp: page_ok_def)
qed

lemma hw_pte_page: "x div PGSIZE = y div PGSIZE \<Longrightarrow> hw_pte m root x = hw_pte m root y"
  using PX_page [of x y 0] PX_page [of x y 1] PX_page [of x y 2] by (simp add: hw_pte_def Let_def)

lemma walkaddr_eq:
  assumes "pt_ok kend (ram (world s)) root T" and "va < MAXVA" and "0 < kend"
  shows "walkaddr root va s = Inr (if user_pte (hw_pte (ram (world s)) root va) then PTE2PA (hw_pte (ram (world s)) root va) else 0)"
    and "ismapped root va s = Inr (if hw_pte (ram (world s)) root va AND PTE_V \<noteq> 0 then 1 else 0)"
proof -
  note w = walk_find [OF assms(1,2)]
  have nz: "t + 8 * PX 0 va \<noteq> 0" if "T (leaf_path va) = Some t" for t
  proof -
    have "page_ok kend t" using assms(1) that unfolding pt_ok_def by blast
    then show ?thesis using assms(3) by (simp add: page_ok_def)
  qed
  have h: "hw_pte (ram (world s)) root va = leaf_pte (ram (world s)) T va" by (rule hw_pte_leaf [OF assms(1)])
  show "walkaddr root va s = Inr (if user_pte (hw_pte (ram (world s)) root va) then PTE2PA (hw_pte (ram (world s)) root va) else 0)"
    unfolding h using assms(2) w nz by (cases "T (leaf_path va)") (auto simp: walkaddr_def leaf_pte_def user_pte_def pte_at_def)
  show "ismapped root va s = Inr (if hw_pte (ram (world s)) root va AND PTE_V \<noteq> 0 then 1 else 0)"
    unfolding h using w nz by (cases "T (leaf_path va)") (auto simp: ismapped_def leaf_pte_def pte_at_def)
qed

text \<open>A page taken from the free list and zeroed.\<close>

lemma kalloc_zero:
  assumes "vm_ok kend s root T (c # ps)"
  shows "\<exists>s1. kalloc s = Inr (c, s1) \<and> vm_ok kend (zero_page c s1) root T ps \<and> others_same s (zero_page c s1) \<and>
    (\<forall>q. ram (world (zero_page c s1)) q = (if in_page c q then 0 else ram (world s) q))"
proof -
  have v: "quiet {} s" "free_pages kend s (c # ps)" "pt_ok kend (ram (world s)) root T" "c \<notin> ran T" "ran T \<inter> set ps = {}"
    using assms by (auto simp: vm_ok_def)
  have c: "c \<notin> set ps" "page_ok kend c" using free_pages_pop [OF v(2)] by auto
  obtain s1 where s1: "kalloc s = Inr (c, s1)" "quiet {} s1" "free_pages kend s1 ps" "ram (world s1) = memset (ram (world s)) c 5 PGSIZE"
    using kalloc_ok [OF v(1,2)] by auto
  let ?m = "memset (ram (world s1)) c 0 PGSIZE"
  have m: "?m q = (if in_page c q then 0 else ram (world s) q)" for q using s1(4) by (simp add: memset_eq in_page_def)
  have sep: "\<not> in_page c q" if "x mod PGSIZE = 0" "x \<noteq> c" "in_page x q" for x q
    using pages_disjoint [of x c q] that c(2) by (auto simp: page_ok_def)
  have "pt_ok kend ?m root T"
  proof (rule pt_ok_frame [OF v(3)])
    fix p t q assume "T p = Some t" "length p < 2" "in_page t q"
    moreover from this have "t mod PGSIZE = 0" "t \<noteq> c" using v(3,4) by (auto simp: pt_ok_def page_ok_def ran_def)
    ultimately show "?m q = ram (world s) q" using m sep by simp
  qed
  moreover have "free_pages kend (set_ram ?m s1) ps"
  proof (rule free_pages_ram [OF s1(3)])
    fix x q assume x: "x \<in> set ps" "in_page x q"
    then have "x mod PGSIZE = 0" "x \<noteq> c" using s1(3) c(1) by (auto simp: free_pages_def page_ok_def)
    then have "\<not> in_page c q" using sep [of x q] x(2) by simp
    then show "?m q = ram (world s1) q" using m s1(4) by (auto simp: memset_eq in_page_def)
  qed
  ultimately have "vm_ok kend (zero_page c s1) root T ps" using s1(2) v(5) by (simp add: vm_ok_def zero_page_def)
  then show ?thesis using s1(1) kalloc_others [OF s1(1)] m by (intro exI [of _ s1]) (simp add: zero_page_def)
qed

lemma kfree_vm:
  assumes "vm_ok kend s root T ps" and "page_ok kend c" and "c \<notin> ran T" and "c \<notin> set ps"
  shows "\<exists>s'. kfree kend c s = Inr s' \<and> vm_ok kend s' root T (c # ps) \<and> others_same s s' \<and>
    (\<forall>q. \<not> in_page c q \<longrightarrow> ram (world s') q = ram (world s) q) \<and> leaf_pte (ram (world s')) T = leaf_pte (ram (world s)) T"
proof -
  have v: "quiet {} s" "free_pages kend s ps" "pt_ok kend (ram (world s)) root T" "ran T \<inter> set ps = {}"
    using assms(1) by (auto simp: vm_ok_def)
  obtain s' where s': "kfree kend c s = Inr s'" "quiet {} s'" "free_pages kend s' (c # ps)" "\<forall>q. \<not> in_page c q \<longrightarrow> ram (world s') q = ram (world s) q"
    using kfree_ok [OF v(1,2) assms(2,4)] by auto
  have tab: "ram (world s') q = ram (world s) q" if "T p = Some t" "in_page t q" for p t q
  proof -
    have "t mod PGSIZE = 0" "t \<noteq> c" using v(3) assms(3) that(1) by (auto simp: pt_ok_def page_ok_def ran_def)
    then have "\<not> in_page c q" using pages_disjoint [of t c q] that(2) assms(2) by (auto simp: page_ok_def)
    then show ?thesis using s'(4) by blast
  qed
  have "pt_ok kend (ram (world s')) root T" by (rule pt_ok_frame [OF v(3)]) (rule tab)
  moreover have "leaf_pte (ram (world s')) T = leaf_pte (ram (world s)) T" by (rule ext, rule leaf_frame) (rule tab)
  ultimately show ?thesis using s' v(4) assms(3) kfree_others [OF s'(1)] by (auto simp: vm_ok_def)
qed

abbreviation new_flags :: "64 word" where
  "new_flags \<equiv> PTE_W OR PTE_U OR PTE_R"

lemma new_flags:
  "user_pte (e OR new_flags OR PTE_V)" "(e OR new_flags OR PTE_V) AND PTE_W \<noteq> 0" "flags_ok new_flags"
proof -
  have "bit ((e OR new_flags OR PTE_V) AND PTE_U) 4" "bit ((e OR new_flags OR PTE_V) AND PTE_W) 2"
    by (simp_all add: PTE_U_def PTE_W_def bit_simps)
  then have "(e OR new_flags OR PTE_V) AND PTE_U \<noteq> 0" "(e OR new_flags OR PTE_V) AND PTE_W \<noteq> 0" by auto
  then show "user_pte (e OR new_flags OR PTE_V)" "(e OR new_flags OR PTE_V) AND PTE_W \<noteq> 0" by (simp_all add: user_pte_def)
qed simp

text \<open>What a user sees depends on the entries and the bytes of its own pages only.\<close>

lemma uview_same:
  assumes "others_same s s'" and "\<forall>x < MAXVA. hw_pte (ram (world s')) root x = hw_pte (ram (world s)) root x"
    and "\<forall>p \<in> user_pages (ram (world s)) root. \<forall>q. in_page p q \<longrightarrow> ram (world s') q = ram (world s) q"
  shows "uview s' root = uview s root" and "user_pages (ram (world s')) root = user_pages (ram (world s)) root"
proof -
  have "ram (world s') (PTE2PA (hw_pte (ram (world s)) root x) + x mod PGSIZE) = ram (world s) (PTE2PA (hw_pte (ram (world s)) root x) + x mod PGSIZE)"
    if "x < MAXVA" "user_pte (hw_pte (ram (world s)) root x)" for x
    using assms(3) user_pagesI [OF that] by (simp add: in_page_def PGSIZE_def)
  then have "uview s' root x = uview s root x" for x
    using assms(1,2) by (cases "x < MAXVA") (simp_all add: uview_def Let_def others_same_def user_pte_def)
  then show "uview s' root = uview s root" by (rule ext)
  show "user_pages (ram (world s')) root = user_pages (ram (world s)) root"
    unfolding user_pages_def by (rule Collect_cong, rule ex_cong1) (use assms(2) in auto)
qed

text \<open>The invariant after a step that leaves all entries as they are.\<close>

lemma keeps_same:
  assumes ok: "space_ok kend s root T ps" and v: "vm_ok kend s' root T' ps'" "others_same s s'"
    and h: "\<forall>x < MAXVA. hw_pte (ram (world s')) root x = hw_pte (ram (world s)) root x"
    and sub: "ran T' \<subseteq> ran T \<union> set ps" "set ps' \<subseteq> set ps"
    and fr: "\<forall>q. (\<forall>t \<in> ran T \<union> set ps. \<not> in_page t q) \<longrightarrow> ram (world s') q = ram (world s) q"
  shows "keeps kend root s T ps s' T' ps'" and "uview s' root = uview s root"
proof -
  let ?U = "user_pages (ram (world s)) root"
  have U: "page_ok kend p" "p \<notin> ran T" "p \<notin> set ps" if "p \<in> ?U" for p using ok that by (auto simp: space_ok_def)
  have pg: "t mod PGSIZE = 0" if "t \<in> ran T \<union> set ps" for t
    using ok that by (auto simp: space_ok_def vm_ok_def pt_ok_def free_pages_def page_ok_def ran_def)
  have "\<forall>p \<in> ?U. \<forall>q. in_page p q \<longrightarrow> ram (world s') q = ram (world s) q"
  proof (intro ballI allI impI)
    fix p q assume p: "p \<in> ?U" "in_page p q"
    have "\<not> in_page t q" if "t \<in> ran T \<union> set ps" for t
      using pages_disjoint [of p t q] p U [OF p(1)] pg [OF that] that by (auto simp: page_ok_def)
    then show "ram (world s') q = ram (world s) q" using fr by blast
  qed
  note same = uview_same [OF v(2) h this]
  show "uview s' root = uview s root" by (rule same(1))
  have "\<forall>p \<in> ?U. page_ok kend p \<and> p \<notin> ran T' \<and> p \<notin> set ps'" using U sub by blast
  moreover have "procs s' = procs s" "cproc s' = cproc s" using v(2) by (simp_all add: others_same_def)
  moreover have "no_alias (hw_pte (ram (world s')) root)" by (rule no_alias_cong [OF h]) (use ok in \<open>simp add: space_ok_def\<close>)
  ultimately have "space_ok kend s' root T' ps'"
    using ok v(1) same(2) unfolding space_ok_def by simp
  then show "keeps kend root s T ps s' T' ps'"
    using v(2) sub same(2) fr by (auto simp: keeps_def owned_def)
qed

text \<open>A new user page, zeroed, is mapped at a page that was granted but not mapped.\<close>

lemma keeps_new:
  assumes ok: "space_ok kend s root T (c # qs)" and v: "vm_ok kend s' root T' ps'" "others_same s s'" and va: "va mod PGSIZE = 0" "va < MAXVA" "va < psize s"
    and free: "hw_pte (ram (world s)) root va AND PTE_V = 0"
    and h: "\<forall>x < MAXVA. hw_pte (ram (world s')) root x = (if x div PGSIZE = va div PGSIZE then PA2PTE c OR new_flags OR PTE_V else hw_pte (ram (world s)) root x)"
    and sub: "ran T' \<subseteq> ran T \<union> set qs" "set ps' \<subseteq> set qs"
    and fr: "\<forall>q. (\<forall>t \<in> ran T'. \<not> in_page t q) \<longrightarrow> ram (world s') q = (if in_page c q then 0 else ram (world s) q)"
  shows "keeps kend root s T (c # qs) s' T' ps'" and "uview s' root = uview s root"
    and "user_pte (hw_pte (ram (world s')) root va)" and "PTE2PA (hw_pte (ram (world s')) root va) = c"
proof -
  let ?h = "hw_pte (ram (world s)) root" and ?h' = "hw_pte (ram (world s')) root" and ?U = "user_pages (ram (world s)) root"
  have c: "page_ok kend c" "c \<notin> ran T" "c \<notin> set qs" using ok by (auto simp: space_ok_def vm_ok_def free_pages_def)
  have U: "page_ok kend p" "p \<notin> ran T" "p \<notin> set qs" "p \<noteq> c" if "p \<in> ?U" for p using ok that by (auto simp: space_ok_def)
  have e: "user_pte (PA2PTE c OR new_flags OR PTE_V)" "PTE2PA (PA2PTE c OR new_flags OR PTE_V) = c"
    using new_flags page_pa(2) [OF c(1)] by simp_all
  have same: "procs s' = procs s" "cproc s' = cproc s" using v(2) by (simp_all add: others_same_def)
  show "user_pte (?h' va)" "PTE2PA (?h' va) = c" using h va(2) e by simp_all
  have pg: "t mod PGSIZE = 0" if "t \<in> ran T'" for t using v(1) that by (auto simp: vm_ok_def pt_ok_def page_ok_def ran_def)
  have outT: "\<forall>t \<in> ran T'. \<not> in_page t q" if "page_ok kend p" "p \<notin> ran T'" "in_page p q" for p q
  proof (intro ballI notI)
    fix t assume t: "t \<in> ran T'" "in_page t q"
    have "p mod PGSIZE = 0" using that(1) by (simp add: page_ok_def)
    from pages_disjoint [OF this pg [OF t(1)] that(3) t(2)] have "p = t" .
    then show False using that(2) t(1) by blast
  qed
  have cT: "c \<notin> ran T'" using c(2,3) sub(1) by blast
  have new: "ram (world s') q = 0" if "in_page c q" for q using outT [OF c(1) cT that] fr that by simp
  have old: "ram (world s') q = ram (world s) q" if "p \<in> ?U" "in_page p q" for p q
  proof -
    have "\<not> in_page c q" using pages_disjoint [of p c q] U [OF that(1)] that(2) c(1) by (auto simp: page_ok_def)
    moreover have "p \<notin> ran T'" using U [OF that(1)] sub(1) by blast
    ultimately show ?thesis using outT [OF U(1) [OF that(1)] _ that(2)] fr by simp
  qed
  have mapped: "\<not> user_pte (?h x)" if "x div PGSIZE = va div PGSIZE" for x
    using free hw_pte_page [OF that] by (simp add: user_pte_def)
  have view: "uview s' root x = uview s root x" for x
  proof (cases "x < MAXVA \<and> x div PGSIZE = va div PGSIZE")
    case True
    then have "PGROUNDDOWN x = va" using page_eq_iff [OF va(1), of x] by simp
    moreover have "in_page c (c + x mod PGSIZE)" by (simp add: in_page_def PGSIZE_def)
    moreover have "?h' x = PA2PTE c OR new_flags OR PTE_V" using h True by simp
    moreover have "?h x AND PTE_V = 0" using free True hw_pte_page by metis
    ultimately show ?thesis
      using True e new [of "c + x mod PGSIZE"] va(3) same by (simp add: uview_def Let_def user_pte_def)
  next
    case False
    have "ram (world s') (PTE2PA (?h x) + x mod PGSIZE) = ram (world s) (PTE2PA (?h x) + x mod PGSIZE)" if "x < MAXVA" "user_pte (?h x)"
      by (rule old [OF user_pagesI [OF that]]) (simp add: in_page_def PGSIZE_def)
    then show ?thesis using False h same by (cases "x < MAXVA") (simp_all add: uview_def Let_def user_pte_def)
  qed
  then show "uview s' root = uview s root" by (rule ext)
  have U': "user_pages (ram (world s')) root \<subseteq> insert c ?U"
  proof
    fix p assume "p \<in> user_pages (ram (world s')) root"
    then obtain x where x: "x < MAXVA" "user_pte (?h' x)" "p = PTE2PA (?h' x)" by (auto simp: user_pages_def)
    then show "p \<in> insert c ?U" using h e by (cases "x div PGSIZE = va div PGSIZE") (auto simp: user_pages_def)
  qed
  have na: "no_alias ?h" using ok by (simp add: space_ok_def)
  have "no_alias ?h'" unfolding no_alias_def
  proof (intro allI impI)
    fix x y assume a: "x < MAXVA" "y < MAXVA" "user_pte (?h' x)" "user_pte (?h' y)" "PTE2PA (?h' x) = PTE2PA (?h' y)"
    show "x div PGSIZE = y div PGSIZE"
    proof (cases "x div PGSIZE = va div PGSIZE"; cases "y div PGSIZE = va div PGSIZE")
      assume "x div PGSIZE = va div PGSIZE" "y div PGSIZE \<noteq> va div PGSIZE"
      then show ?thesis using a h e U(4) user_pagesI [of y] by auto
    next
      assume "x div PGSIZE \<noteq> va div PGSIZE" "y div PGSIZE = va div PGSIZE"
      then show ?thesis using a h e U(4) user_pagesI [of x] by auto
    next
      assume "x div PGSIZE \<noteq> va div PGSIZE" "y div PGSIZE \<noteq> va div PGSIZE"
      then show ?thesis using a h na unfolding no_alias_def by metis
    qed simp
  qed
  moreover have "\<forall>p \<in> user_pages (ram (world s')) root. page_ok kend p \<and> p \<notin> ran T' \<and> p \<notin> set ps'" using U' U c sub by blast
  ultimately have "space_ok kend s' root T' ps'" using ok v(1) same unfolding space_ok_def by simp
  moreover have "ram (world s') q = ram (world s) q" if "\<forall>t \<in> owned s root T (c # qs). \<not> in_page t q" for q
  proof -
    have "\<forall>t \<in> ran T'. \<not> in_page t q" "\<not> in_page c q" using that sub(1) unfolding owned_def by auto
    then show ?thesis using fr by simp
  qed
  ultimately show "keeps kend root s T (c # qs) s' T' ps'"
    using v(2) sub U' by (auto simp: keeps_def owned_def)
qed

text \<open>The fault handler on a page of the process.\<close>

lemma vmfault_ok:
  assumes ok: "space_ok kend s root T ps" and va: "va mod PGSIZE = 0" "va < MAXVA" and no: "\<not> user_pte (hw_pte (ram (world s)) root va)"
  shows "\<exists>r s' T' ps'. vmfault kend root va s = Inr (r, s') \<and> keeps kend root s T ps s' T' ps' \<and> uview s' root = uview s root \<and>
    (if r = 0 then uview s root va = None \<or> length ps' \<le> 1
     else user_pte (hw_pte (ram (world s')) root va) \<and> PTE2PA (hw_pte (ram (world s')) root va) = r)"
proof -
  let ?h = "hw_pte (ram (world s)) root"
  have v: "vm_ok kend s root T ps" "0 < kend" and pt: "pt_ok kend (ram (world s)) root T" and root: "unat (pagetable (procs s ! the (cproc s))) = root"
    using ok by (auto simp: space_ok_def vm_ok_def free_pages_def)
  have rd: "PGROUNDDOWN va = va" using va(1) by (simp add: PGROUNDDOWN_def)
  note im = walkaddr_eq(2) [OF pt va(2) v(2)]
  note keep = keeps_refl [OF ok]
  consider (out) "psize s \<le> va" | (guard) "va < psize s" "?h va AND PTE_V \<noteq> 0" | (nomem) "va < psize s" "?h va AND PTE_V = 0" "ps = []"
    | (lazy) c qs where "va < psize s" "?h va AND PTE_V = 0" "ps = c # qs"
    by (cases ps; cases "psize s \<le> va"; cases "?h va AND PTE_V = 0") auto
  then show ?thesis
  proof cases
    case out
    then have "uview s root va = None" using no rd by (auto simp: uview_def Let_def user_pte_def)
    then show ?thesis using out keep by (intro exI [of _ 0] exI [of _ s] exI [of _ T] exI [of _ ps]) (simp add: vmfault_def Let_def)
  next
    case guard
    then have "uview s root va = None" using no by (auto simp: uview_def Let_def user_pte_def)
    then show ?thesis using guard keep im rd
      by (intro exI [of _ 0] exI [of _ s] exI [of _ T] exI [of _ ps]) (simp add: vmfault_def Let_def)
  next
    case nomem
    have q: "quiet {} s" "free_pages kend s []" using v(1) nomem(3) by (simp_all add: vm_ok_def)
    obtain s' where s': "kalloc s = Inr (0, s')" "quiet {} s'" "free_pages kend s' []" "ram (world s') = ram (world s)"
      using kalloc_ok [OF q] by auto
    have o: "others_same s s'" by (rule kalloc_others [OF s'(1)])
    have "vm_ok kend s' root T []" using s'(2-4) pt by (simp add: vm_ok_def)
    then have "keeps kend root s T ps s' T []" "uview s' root = uview s root"
      by (rule keeps_same [OF ok]; use o s'(4) nomem(3) in simp)+
    then show ?thesis using nomem im rd s'(1)
      by (intro exI [of _ 0] exI [of _ s'] exI [of _ T] exI [of _ "[]"]) (simp add: vmfault_def Let_def)
  next
    case lazy
    obtain s1 where s1: "kalloc s = Inr (c, s1)" "vm_ok kend (zero_page c s1) root T qs" "others_same s (zero_page c s1)"
        "\<And>q. ram (world (zero_page c s1)) q = (if in_page c q then 0 else ram (world s) q)"
      using kalloc_zero [OF v(1) [unfolded lazy(3)]] by blast
    have c: "page_ok kend c" "c \<notin> ran T" "c \<notin> set qs" "c \<noteq> 0"
      using v lazy(3) by (auto simp: vm_ok_def free_pages_def page_ok_def)
    let ?z = "zero_page c s1"
    have lz: "leaf_pte (ram (world ?z)) T x = ?h x" for x
    proof -
      have "leaf_pte (ram (world ?z)) T x = leaf_pte (ram (world s)) T x"
      proof (rule leaf_frame)
        fix t q assume t: "T (leaf_path x) = Some t" "in_page t q"
        then have "t mod PGSIZE = 0" "t \<noteq> c" using pt c(2) by (auto simp: pt_ok_def page_ok_def ran_def)
        then show "ram (world ?z) q = ram (world s) q" using s1(4) pages_disjoint [of t c q] t(2) c(1) by (auto simp: page_ok_def)
      qed
      then show ?thesis using hw_pte_leaf [OF pt] by simp
    qed
    have top: "va + Suc 0 * PGSIZE \<le> MAXVA" using va by (auto simp: MAXVA_def PGSIZE_def)
    have "\<forall>x. va \<le> x \<and> x < va + Suc 0 * PGSIZE \<longrightarrow> leaf_pte (ram (world ?z)) T x AND PTE_V = 0"
      using lazy(2) lz page_eq_iff(1) [OF va(1)] hw_pte_page by (metis mult_1 One_nat_def)
    from mappages_loop_ok [OF s1(2) va(1) top this, of c new_flags] obtain r s2 T' ps' j where
      m: "mappages_loop root va va c new_flags ?z = Inr (r, s2)" "vm_grown kend root ?z T qs s2 T' ps'" "j \<le> 1"
        "mapped_upto va j c new_flags (leaf_pte (ram (world ?z)) T) (leaf_pte (ram (world s2)) T')" "if j = 1 then r = 0 else r = -1 \<and> ps' = []"
      by auto
    have map: "mappages root va PGSIZE c new_flags ?z = Inr (r, s2)" using m(1) va(1) by (simp add: mappages_def PGSIZE_def)
    have g: "vm_ok kend s2 root T' ps'" "others_same ?z s2" "ran T' \<subseteq> ran T \<union> set qs" "set ps' \<subseteq> set qs"
        "\<forall>q. (\<forall>t \<in> ran T'. \<not> in_page t q) \<longrightarrow> ram (world s2) q = ram (world ?z) q"
      using m(2) by (auto simp: vm_grown_def)
    have o: "others_same s s2" by (rule others_same_trans [OF s1(3) g(2)])
    have h2: "hw_pte (ram (world s2)) root x = leaf_pte (ram (world s2)) T' x" for x
      by (rule hw_pte_leaf [of kend]) (use g(1) in \<open>simp add: vm_ok_def\<close>)
    show ?thesis
    proof (cases "j = 1")
      case True
      have "hw_pte (ram (world s2)) root x = (if x div PGSIZE = va div PGSIZE then PA2PTE c OR new_flags OR PTE_V else ?h x)" if "x < MAXVA" for x
        using m(4) that True page_eq_iff [OF va(1), of x] lz h2 by (auto simp: mapped_upto_def)
      then have "\<forall>x < MAXVA. hw_pte (ram (world s2)) root x = (if x div PGSIZE = va div PGSIZE then PA2PTE c OR new_flags OR PTE_V else ?h x)"
        by blast
      from keeps_new [OF ok [unfolded lazy(3)] g(1) o va lazy(1,2) this g(3,4)] g(5) s1(4)
      show ?thesis using True m(5) c(4) lazy im rd s1(1) map root
        by (intro exI [of _ c] exI [of _ s2] exI [of _ T'] exI [of _ ps']) (simp add: vmfault_def Let_def)
    next
      case False
      then have j: "j = 0" "r = -1" "ps' = []" using m(3,5) by auto
      have cT: "c \<notin> ran T'" using g(3) c(2,3) by blast
      obtain s3 where s3: "kfree kend c s2 = Inr s3" "vm_ok kend s3 root T' [c]" "others_same s2 s3"
          "\<forall>q. \<not> in_page c q \<longrightarrow> ram (world s3) q = ram (world s2) q" "leaf_pte (ram (world s3)) T' = leaf_pte (ram (world s2)) T'"
        using kfree_vm [OF g(1) c(1) cT] j(3) by auto
      have h3: "\<forall>x < MAXVA. hw_pte (ram (world s3)) root x = ?h x"
        using hw_pte_leaf [of kend "ram (world s3)" root T'] s3(2,5) m(4) j(1) lz by (auto simp: vm_ok_def mapped_upto_def)
      have "\<forall>q. (\<forall>t \<in> ran T \<union> set ps. \<not> in_page t q) \<longrightarrow> ram (world s3) q = ram (world s) q"
      proof (intro allI impI)
        fix q assume q: "\<forall>t \<in> ran T \<union> set ps. \<not> in_page t q"
        then have "\<forall>t \<in> ran T'. \<not> in_page t q" "\<not> in_page c q" using g(3) lazy(3) by auto
        then show "ram (world s3) q = ram (world s) q" using s3(4) g(5) s1(4) by simp
      qed
      from keeps_same [OF ok s3(2) others_same_trans [OF o s3(3)] h3 _ _ this] g(3) lazy(3)
      have "keeps kend root s T ps s3 T' [c]" "uview s3 root = uview s root" by auto
      then show ?thesis using j lazy im rd s1(1) map root s3(1) c(4)
        by (intro exI [of _ 0] exI [of _ s3] exI [of _ T'] exI [of _ "[c]"]) (simp add: vmfault_def Let_def)
    qed
  qed
qed

section \<open>Access to user memory\<close>

lemma MAXVA_page: "x div PGSIZE = y div PGSIZE \<Longrightarrow> x < MAXVA \<longleftrightarrow> y < MAXVA"
proof -
  have "z < MAXVA \<longleftrightarrow> z div 4096 < 67108864" for z by (simp add: MAXVA_def div_less_iff_less_mult)
  then show "x div PGSIZE = y div PGSIZE \<Longrightarrow> x < MAXVA \<longleftrightarrow> y < MAXVA" by (simp add: PGSIZE_def)
qed

lemma rounddown_page: "PGROUNDDOWN x mod PGSIZE = 0" "PGROUNDDOWN x div PGSIZE = x div PGSIZE" "PGROUNDDOWN x + x mod PGSIZE = x"
  "x - PGROUNDDOWN x = x mod PGSIZE"
proof -
  have r: "PGROUNDDOWN x = 4096 * (x div 4096)" by (simp add: PGROUNDDOWN_def PGSIZE_def minus_mod_eq_mult_div)
  show "PGROUNDDOWN x mod PGSIZE = 0" "PGROUNDDOWN x div PGSIZE = x div PGSIZE" using r by (simp_all add: PGSIZE_def)
  show s: "PGROUNDDOWN x + x mod PGSIZE = x" using r by (simp add: PGSIZE_def)
  then show "x - PGROUNDDOWN x = x mod PGSIZE" by linarith
qed

lemma uview_none_page: "x div PGSIZE = y div PGSIZE \<Longrightarrow> uview s root x = None \<longleftrightarrow> uview s root y = None"
proof -
  assume p: "x div PGSIZE = y div PGSIZE"
  then have "PGROUNDDOWN x = PGROUNDDOWN y" by (simp add: PGROUNDDOWN_def minus_mod_eq_mult_div)
  then show ?thesis using p hw_pte_page [OF p] MAXVA_page [OF p] by (simp add: uview_def Let_def not_less [symmetric])
qed

lemma get_page:
  assumes ok: "space_ok kend s root T ps" and va: "va mod PGSIZE = 0"
  shows "\<exists>p0 pa s' T' ps'. walkaddr root va s = Inr p0 \<and> (if p0 = 0 then vmfault kend root va s else Inr (p0, s)) = Inr (pa, s') \<and>
    keeps kend root s T ps s' T' ps' \<and> uview s' root = uview s root \<and>
    (if pa = 0 then uview s root va = None \<or> length ps' \<le> 1
     else va < MAXVA \<and> user_pte (hw_pte (ram (world s')) root va) \<and> PTE2PA (hw_pte (ram (world s')) root va) = pa)"
proof -
  have k: "0 < kend" "psize s \<le> MAXVA" using ok by (auto simp: space_ok_def vm_ok_def free_pages_def)
  consider (high) "MAXVA \<le> va" | (mapped) "va < MAXVA" "user_pte (hw_pte (ram (world s)) root va)"
    | (fault) "va < MAXVA" "\<not> user_pte (hw_pte (ram (world s)) root va)" by linarith
  then show ?thesis
  proof cases
    case high
    then have "uview s root va = None" by (simp add: uview_def)
    then show ?thesis using high k(2) keeps_refl [OF ok]
      by (intro exI [of _ 0] exI [of _ s] exI [of _ T] exI [of _ ps]) (simp add: walkaddr_def vmfault_def Let_def)
  next
    case mapped
    then show ?thesis using walkaddr_eq(1) [OF space_pt [OF ok] mapped(1) k(1)] user_page_ok(2) [OF ok mapped] keeps_refl [OF ok]
      by (intro exI [of _ "PTE2PA (hw_pte (ram (world s)) root va)"] exI [of _ s] exI [of _ T] exI [of _ ps]) simp
  next
    case fault
    obtain r s' T' ps' where "vmfault kend root va s = Inr (r, s')" "keeps kend root s T ps s' T' ps'" "uview s' root = uview s root"
      "if r = 0 then uview s root va = None \<or> length ps' \<le> 1
       else user_pte (hw_pte (ram (world s')) root va) \<and> PTE2PA (hw_pte (ram (world s')) root va) = r"
      using vmfault_ok [OF ok va fault] by blast
    then show ?thesis using walkaddr_eq(1) [OF space_pt [OF ok] fault(1) k(1)] fault
      by (intro exI [of _ 0] exI [of _ r] exI [of _ s'] exI [of _ T'] exI [of _ ps']) (auto split: if_splits)
  qed
qed

text \<open>Writes that touch neither tables nor free pages.\<close>

lemma write_ok:
  assumes ok: "space_ok kend s root T ps" and out: "\<forall>t \<in> ran T \<union> set ps. \<forall>q. in_page t q \<longrightarrow> m q = ram (world s) q"
  shows "hw_pte m root x = hw_pte (ram (world s)) root x" and "space_ok kend (set_ram m s) root T ps" and "owned (set_ram m s) root T ps = owned s root T ps"
proof -
  have v: "vm_ok kend s root T ps" "pt_ok kend (ram (world s)) root T" using ok by (simp_all add: space_ok_def vm_ok_def)
  have tab: "m q = ram (world s) q" if "T p = Some t" "in_page t q" for p t q using out that by (auto simp: ran_def)
  have pt: "pt_ok kend m root T" by (rule pt_ok_frame [OF v(2)]) (rule tab)
  have h: "hw_pte m root x = hw_pte (ram (world s)) root x" for x
    unfolding hw_pte_leaf [OF pt] hw_pte_leaf [OF v(2)] by (rule leaf_frame) (rule tab)
  then show "hw_pte m root x = hw_pte (ram (world s)) root x" .
  have U: "user_pages m root = user_pages (ram (world s)) root" using h by (simp add: user_pages_def)
  have "vm_ok kend (set_ram m s) root T ps" by (rule vm_ok_ram [OF v(1) _ pt]) (use out in blast)
  moreover have "procs (set_ram m s) = procs s" "cproc (set_ram m s) = cproc s" by (simp_all add: set_ram_def upd_kmem_def)
  moreover have "hw_pte m root = hw_pte (ram (world s)) root" using h by (rule ext)
  ultimately show "space_ok kend (set_ram m s) root T ps" using ok U unfolding space_ok_def by simp
  show "owned (set_ram m s) root T ps = owned s root T ps" using U by (simp add: owned_def)
qed

lemma store_user:
  assumes ok: "space_ok kend s root T ps" and va: "va mod PGSIZE = 0" "va < MAXVA" "user_pte (hw_pte (ram (world s)) root va)"
    and off: "off + length bs \<le> PGSIZE" and s': "s' = set_ram (store (ram (world s)) (PTE2PA (hw_pte (ram (world s)) root va) + off) bs) s"
  shows "keeps kend root s T ps s' T ps" and "uview s' root x = (if va + off \<le> x \<and> x < va + off + length bs then Some (bs ! (x - (va + off))) else uview s root x)"
proof -
  let ?h = "hw_pte (ram (world s)) root" and ?p = "PTE2PA (hw_pte (ram (world s)) root va)"
  let ?m = "store (ram (world s)) (?p + off) bs"
  have p: "?p \<in> user_pages (ram (world s)) root" using va(2,3) by (rule user_pagesI)
  then have pp: "?p mod PGSIZE = 0" "?p \<notin> ran T" "?p \<notin> set ps" using ok by (auto simp: space_ok_def page_ok_def)
  have out: "?m q = ram (world s) q" if "\<not> in_page ?p q" for q using that off by (auto simp: store_def in_page_def)
  have "\<forall>t \<in> ran T \<union> set ps. \<forall>q. in_page t q \<longrightarrow> ?m q = ram (world s) q"
  proof (intro ballI allI impI)
    fix t q assume t: "t \<in> ran T \<union> set ps" "in_page t q"
    have "t mod PGSIZE = 0" "t \<noteq> ?p"
      using ok t(1) pp by (auto simp: space_ok_def vm_ok_def pt_ok_def free_pages_def page_ok_def ran_def)
    then have "\<not> in_page ?p q" using pages_disjoint [OF _ pp(1) t(2)] by auto
    then show "?m q = ram (world s) q" by (rule out)
  qed
  note w = write_ok [OF ok this]
  have "?m q = ram (world s) q" if "\<forall>t \<in> owned s root T ps. \<not> in_page t q" for q using that p by (intro out) (auto simp: owned_def)
  then show "keeps kend root s T ps s' T ps" using w(2,3) s' by (simp add: keeps_def)
  have same: "procs s' = procs s" "cproc s' = cproc s" "ram (world s') = ?m" using s' by (simp_all add: set_ram_def upd_kmem_def)
  show "uview s' root x = (if va + off \<le> x \<and> x < va + off + length bs then Some (bs ! (x - (va + off))) else uview s root x)"
  proof (cases "x div PGSIZE = va div PGSIZE")
    case True
    note e = hw_pte_page [OF True]
    have xm: "x < MAXVA" using MAXVA_page [OF True] va(2) by simp
    have "va \<le> x" "x < va + PGSIZE" "PGROUNDDOWN x = va" using True page_eq_iff [OF va(1), of x] by simp_all
    then have x: "x = va + x mod PGSIZE" using rounddown_page(3) [of x] by simp
    have "?m (?p + x mod PGSIZE) = (if va + off \<le> x \<and> x < va + off + length bs then bs ! (x - (va + off)) else ram (world s) (?p + x mod PGSIZE))"
    proof -
      have "x - (va + off) = x mod PGSIZE - off" using x by linarith
      then show ?thesis using x by (auto simp: store_def)
    qed
    then show ?thesis using xm e va(3) w(1) same by (simp add: uview_def Let_def user_pte_def)
  next
    case False
    then have nin: "\<not> (va + off \<le> x \<and> x < va + off + length bs)" using page_eq_iff(1) [OF va(1), of x] off by auto
    have "?m (PTE2PA (?h x) + x mod PGSIZE) = ram (world s) (PTE2PA (?h x) + x mod PGSIZE)" if x: "x < MAXVA" "user_pte (?h x)"
    proof -
      have "PTE2PA (?h x) \<noteq> ?p" using ok x va(2,3) False unfolding space_ok_def no_alias_def by blast
      moreover have "PTE2PA (?h x) mod PGSIZE = 0" using user_page_ok(1) [OF ok x] by (simp add: page_ok_def)
      moreover have "in_page (PTE2PA (?h x)) (PTE2PA (?h x) + x mod PGSIZE)" by (simp add: in_page_def PGSIZE_def)
      ultimately show ?thesis using pages_disjoint [OF _ pp(1)] by (intro out) metis
    qed
    then have "uview s' root x = uview s root x" using w(1) [of x] same by (cases "x < MAXVA") (simp_all add: uview_def Let_def user_pte_def)
    then show ?thesis using nin by (simp only: if_False)
  qed
qed

lemma store_kernel:
  assumes ok: "space_ok kend s root T ps" and out: "\<forall>i < length bs. \<forall>t \<in> owned s root T ps. \<not> in_page t (dst + i)"
    and s': "s' = set_ram (store (ram (world s)) dst bs) s"
  shows "space_ok kend s' root T ps" and "owned s' root T ps = owned s root T ps" and "uview s' root = uview s root" and "others_same s s'"
proof -
  let ?m = "store (ram (world s)) dst bs"
  have keep: "?m q = ram (world s) q" if "t \<in> owned s root T ps" "in_page t q" for t q
  proof -
    have "\<not> (dst \<le> q \<and> q < dst + length bs)"
    proof
      assume q: "dst \<le> q \<and> q < dst + length bs"
      then have "q - dst < length bs" by linarith
      then show False using out [rule_format, of "q - dst" t] that q by simp
    qed
    then show ?thesis by (auto simp: store_def)
  qed
  then have "\<forall>t \<in> ran T \<union> set ps. \<forall>q. in_page t q \<longrightarrow> ?m q = ram (world s) q" by (auto simp: owned_def)
  note w = write_ok [OF ok this]
  show "space_ok kend s' root T ps" "owned s' root T ps = owned s root T ps" "others_same s s'" using w(2,3) s' by simp_all
  show "uview s' root = uview s root"
    by (rule uview_same(1)) (use w(1) keep s' in \<open>auto simp: owned_def\<close>)
qed

lemma walk_user:
  assumes "space_ok kend s root T ps" and "va < MAXVA" and "user_pte (hw_pte (ram (world s)) root va)"
  shows "\<exists>pte. walk root va False s = Inr (pte, s) \<and> pte \<noteq> 0 \<and> pte_at pte s = hw_pte (ram (world s)) root va"
proof -
  have pt: "pt_ok kend (ram (world s)) root T" by (rule space_pt [OF assms(1)])
  have h: "hw_pte (ram (world s)) root va = leaf_pte (ram (world s)) T va" by (rule hw_pte_leaf [OF pt])
  have "0 < kend" using assms(1) by (simp add: space_ok_def vm_ok_def free_pages_def)
  moreover obtain t where t: "T (leaf_path va) = Some t"
    using assms(3) unfolding h by (cases "T (leaf_path va)") (auto simp: leaf_pte_def user_pte_def)
  moreover have "page_ok kend t" using pt t unfolding pt_ok_def by blast
  ultimately have "t + 8 * PX 0 va \<noteq> 0" by (auto simp: page_ok_def)
  then show ?thesis using walk_find [OF pt assms(2)] t unfolding h by (simp add: leaf_pte_def pte_at_def)
qed

section \<open>The copies\<close>

declare copyout.simps [simp del] copyin.simps [simp del]

lemma copyout_ok:
  fixes s :: "'a mkernel"
  assumes "space_ok kend s root T ps" and "\<forall>i < len. \<forall>t \<in> owned s root T ps. \<not> in_page t (src + i)"
  shows "\<exists>r s' T' ps' j. copyout kend root dstva src len s = Inr (r, s') \<and> keeps kend root s T ps s' T' ps' \<and> j \<le> len \<and>
    (if j = len then r = 0 else r = -1 \<and> (uview s root (dstva + j) = None \<or> hw_pte (ram (world s')) root (dstva + j) AND PTE_W = 0 \<or> length ps' \<le> 1)) \<and>
    (\<forall>x. uview s' root x = (if dstva \<le> x \<and> x < dstva + j then Some (ram (world s) (src + (x - dstva))) else uview s root x))"
  using assms
proof (induction len arbitrary: dstva src s T ps rule: less_induct)
  case (less len)
  let ?va = "PGROUNDDOWN dstva" and ?off = "dstva mod PGSIZE"
  note rd = rounddown_page [of dstva]
  show ?case
  proof (cases "len = 0 \<or> MAXVA \<le> ?va")
    case True
    have "uview s root dstva = None" if "MAXVA \<le> ?va" using that MAXVA_page [OF rd(2)] by (simp add: uview_def not_less)
    then show ?thesis using True keeps_refl [OF less.prems(1)]
      by (intro exI [of _ "if len = 0 then 0 else -1"] exI [of _ s] exI [of _ T] exI [of _ ps] exI [of _ 0]) (auto simp: copyout.simps Let_def)
  next
    case False
    obtain p0 pa s1 T1 ps1 where p: "walkaddr root ?va s = Inr p0" "(if p0 = 0 then vmfault kend root ?va s else Inr (p0, s)) = Inr (pa, s1)"
        "keeps kend root s T ps s1 T1 ps1" "uview s1 root = uview s root"
      and pa: "if pa = 0 then uview s root ?va = None \<or> length ps1 \<le> 1
        else ?va < MAXVA \<and> user_pte (hw_pte (ram (world s1)) root ?va) \<and> PTE2PA (hw_pte (ram (world s1)) root ?va) = pa"
      using get_page [OF less.prems(1) rd(1)] by blast
    note unfold = copyout.simps [of kend root dstva src len s]
    show ?thesis
    proof (cases "pa = 0")
      case True
      then have "uview s root dstva = None \<or> length ps1 \<le> 1" using pa uview_none_page [OF rd(2)] by auto
      then show ?thesis using False True p
        by (intro exI [of _ "-1"] exI [of _ s1] exI [of _ T1] exI [of _ ps1] exI [of _ 0]) (auto simp: unfold Let_def)
    next
      case nz: False
      have ok1: "space_ok kend s1 root T1 ps1" using p(3) by (simp add: keeps_def)
      have u: "?va < MAXVA" "user_pte (hw_pte (ram (world s1)) root ?va)" "PTE2PA (hw_pte (ram (world s1)) root ?va) = pa" using pa nz by auto
      obtain pte where pte: "walk root ?va False s1 = Inr (pte, s1)" "pte \<noteq> 0" "pte_at pte s1 = hw_pte (ram (world s1)) root ?va"
        using walk_user [OF ok1 u(1,2)] by blast
      define n where "n = min (PGSIZE - ?off) len"
      define s2 where "s2 = set_ram (memmove (ram (world s1)) (pa + ?off) src n) s1"
      have step: "copyout kend root dstva src len s = (if pte_at pte s1 AND PTE_W = 0 then Inr (-1, s1)
          else copyout kend root (?va + PGSIZE) (src + n) (len - n) s2)"
        using False nz p(1,2) pte(1,2) by (simp add: unfold rd(4) Let_def s2_def n_def)
      show ?thesis
      proof (cases "pte_at pte s1 AND PTE_W = 0")
        case True
        then have "hw_pte (ram (world s1)) root dstva AND PTE_W = 0" using pte(3) hw_pte_page [OF rd(2)] by simp
        then show ?thesis using False True p(3,4) step
          by (intro exI [of _ "-1"] exI [of _ s1] exI [of _ T1] exI [of _ ps1] exI [of _ 0]) auto
      next
        case w: False
        let ?bs = "bytes_at (ram (world s1)) src n"
        have off: "?off + length ?bs \<le> PGSIZE" by (simp add: PGSIZE_def n_def min_def) linarith
        have s2: "s2 = set_ram (store (ram (world s1)) (PTE2PA (hw_pte (ram (world s1)) root ?va) + ?off) ?bs) s1"
          by (simp add: s2_def memmove_copies u(3))
        note st = store_user [OF ok1 rd(1) u(1,2) off s2]
        have k2: "keeps kend root s T ps s2 T1 ps1" by (rule keeps_trans [OF p(3) st(1)])
        have n: "0 < n" "n \<le> len" using False by (simp_all add: n_def PGSIZE_def)
        have src: "ram (world s1) (src + i) = ram (world s) (src + i)" "ram (world s2) (src + i) = ram (world s) (src + i)" if "i < len" for i
          using p(3) k2 less.prems(2) that by (auto simp: keeps_def)
        have v2: "uview s2 root x = (if dstva \<le> x \<and> x < dstva + n then Some (ram (world s) (src + (x - dstva))) else uview s root x)" for x
        proof (cases "dstva \<le> x \<and> x < dstva + n")
          case True
          then have "x - dstva < n" "x - dstva < len" using n(2) by auto
          then show ?thesis using st(2) [of x] src(1) [of "x - dstva"] rd(3) True by simp
        next
          case False
          then show ?thesis using st(2) [of x] p(4) rd(3) by auto
        qed
        have "owned s2 root T1 ps1 \<subseteq> owned s root T ps" "space_ok kend s2 root T1 ps1" using k2 by (simp_all add: keeps_def)
        moreover from this(1) have "\<forall>i < len - n. \<forall>t \<in> owned s2 root T1 ps1. \<not> in_page t (src + n + i)"
          using less.prems(2) by (auto simp: add.assoc)
        ultimately obtain r s' T' ps' j where
          c: "copyout kend root (?va + PGSIZE) (src + n) (len - n) s2 = Inr (r, s')" "keeps kend root s2 T1 ps1 s' T' ps'" "j \<le> len - n"
          and r: "if j = len - n then r = 0 else r = -1 \<and> (uview s2 root (?va + PGSIZE + j) = None \<or>
              hw_pte (ram (world s')) root (?va + PGSIZE + j) AND PTE_W = 0 \<or> length ps' \<le> 1)"
          and v: "\<forall>x. uview s' root x = (if ?va + PGSIZE \<le> x \<and> x < ?va + PGSIZE + j then Some (ram (world s2) (src + n + (x - (?va + PGSIZE)))) else uview s2 root x)"
          using less.IH [of "len - n" s2 T1 ps1 "src + n" "?va + PGSIZE"] n(1,2) by fastforce
        show ?thesis
        proof (cases "n = len")
          case True
          then have "j = 0" using c(3) by simp
          then have "uview s' root x = uview s2 root x" for x using v [rule_format, of x] by (auto split: if_splits)
          then show ?thesis using c r v2 step w True keeps_trans [OF k2 c(2)] \<open>j = 0\<close>
            by (intro exI [of _ r] exI [of _ s'] exI [of _ T'] exI [of _ ps'] exI [of _ len]) simp
        next
          case False
          then have nn: "n = PGSIZE - ?off" "n < len" using n(2) unfolding n_def min_def by (auto split: if_splits)
          have at: "?va + PGSIZE = dstva + n" using nn(1) rd(3) by (simp add: PGSIZE_def)
          have "uview s' root x = (if dstva \<le> x \<and> x < dstva + (n + j) then Some (ram (world s) (src + (x - dstva))) else uview s root x)" for x
          proof (cases "dstva + n \<le> x \<and> x < dstva + n + j")
            case True
            then have "src + n + (x - (dstva + n)) = src + (x - dstva)" "x - dstva < len" using c(3) by auto
            then show ?thesis using v True src(2) [of "x - dstva"] unfolding at by simp
          next
            case False
            then show ?thesis using v v2 [of x] unfolding at by auto
          qed
          moreover have "uview s root (dstva + (n + j)) = None" if "uview s2 root (dstva + n + j) = None" "j < len - n"
            using that v2 [of "dstva + n + j"] by (simp add: add.assoc)
          moreover have "if n + j = len then r = 0 else r = -1 \<and> (uview s root (dstva + (n + j)) = None \<or>
              hw_pte (ram (world s')) root (dstva + (n + j)) AND PTE_W = 0 \<or> length ps' \<le> 1)"
          proof (cases "j = len - n")
            case True
            then show ?thesis using r nn(2) by simp
          next
            case False
            then have "j < len - n" "n + j \<noteq> len" using c(3) nn(2) by linarith+
            then show ?thesis using r False calculation(2) unfolding at by (auto simp: add.assoc)
          qed
          moreover have "copyout kend root dstva src len s = Inr (r, s')" "n + j \<le> len" using step w c(1,3) nn(2) by simp_all
          ultimately show ?thesis using keeps_trans [OF k2 c(2)] by blast
        qed
      qed
    qed
  qed
qed

text \<open>What \<open>copyin\<close> keeps: all but its buffer and the pages of the address space.\<close>

definition reads :: "nat \<Rightarrow> nat \<Rightarrow> 'a mkernel \<Rightarrow> tables \<Rightarrow> nat list \<Rightarrow> nat \<Rightarrow> nat \<Rightarrow> 'a mkernel \<Rightarrow> tables \<Rightarrow> nat list \<Rightarrow> bool" where
  "reads kend root s T ps dst j s' T' ps' \<longleftrightarrow> space_ok kend s' root T' ps' \<and> others_same s s' \<and> owned s' root T' ps' \<subseteq> owned s root T ps \<and>
     uview s' root = uview s root \<and>
     (\<forall>q. (\<forall>t \<in> owned s root T ps. \<not> in_page t q) \<longrightarrow> \<not> (dst \<le> q \<and> q < dst + j) \<longrightarrow> ram (world s') q = ram (world s) q)"

lemma reads_trans:
  assumes "reads kend root s T ps dst j s' T' ps'" and "reads kend root s' T' ps' (dst + j) j' s'' T'' ps''"
  shows "reads kend root s T ps dst (j + j') s'' T'' ps''"
proof -
  have "ram (world s'') q = ram (world s) q" if "\<forall>t \<in> owned s root T ps. \<not> in_page t q" "\<not> (dst \<le> q \<and> q < dst + (j + j'))" for q
  proof -
    have "\<forall>t \<in> owned s' root T' ps'. \<not> in_page t q" using assms(1) that(1) by (auto simp: reads_def)
    moreover have "\<not> (dst \<le> q \<and> q < dst + j)" "\<not> (dst + j \<le> q \<and> q < dst + j + j')" using that(2) by linarith+
    ultimately show ?thesis using assms that(1) by (simp add: reads_def)
  qed
  then show ?thesis using assms by (auto simp: reads_def intro: others_same_trans)
qed

lemma uview_bytes:
  assumes "space_ok kend s root T ps" and "PGROUNDDOWN x < MAXVA" and "user_pte (hw_pte (ram (world s)) root (PGROUNDDOWN x))"
    and "i < PGSIZE - x mod PGSIZE"
  shows "uview s root (x + i) = Some (ram (world s) (PTE2PA (hw_pte (ram (world s)) root (PGROUNDDOWN x)) + x mod PGSIZE + i))"
    and "in_page (PTE2PA (hw_pte (ram (world s)) root (PGROUNDDOWN x))) (PTE2PA (hw_pte (ram (world s)) root (PGROUNDDOWN x)) + x mod PGSIZE + i)"
proof -
  let ?va = "PGROUNDDOWN x"
  note rd = rounddown_page [of x]
  have "?va \<le> x + i" "x + i < ?va + PGSIZE" using rd(3) assms(4) by linarith+
  then have p: "(x + i) div PGSIZE = ?va div PGSIZE" using page_eq_iff(1) [OF rd(1)] by simp
  have m: "(x + i) mod PGSIZE = x mod PGSIZE + i"
  proof -
    have "x + i = ?va + (x mod PGSIZE + i)" using rd(3) by simp
    moreover have "?va mod PGSIZE = 0" by (rule rd(1))
    ultimately show ?thesis using assms(4) by (metis mod_add_left_eq add_0 mod_less less_diff_conv add.commute)
  qed
  show "uview s root (x + i) = Some (ram (world s) (PTE2PA (hw_pte (ram (world s)) root ?va) + x mod PGSIZE + i))"
    using hw_pte_page [OF p] MAXVA_page [OF p] assms(2,3) m by (simp add: uview_def Let_def user_pte_def add.assoc)
  show "in_page (PTE2PA (hw_pte (ram (world s)) root ?va)) (PTE2PA (hw_pte (ram (world s)) root ?va) + x mod PGSIZE + i)"
    using assms(4) by (simp add: in_page_def)
qed

lemma copyin_ok:
  fixes s :: "'a mkernel"
  assumes "space_ok kend s root T ps" and "\<forall>i < len. \<forall>t \<in> owned s root T ps. \<not> in_page t (dst + i)"
  shows "\<exists>r s' T' ps' j. copyin kend root dst srcva len s = Inr (r, s') \<and> reads kend root s T ps dst j s' T' ps' \<and> j \<le> len \<and>
    (if j = len then r = 0 else r = -1 \<and> (uview s root (srcva + j) = None \<or> length ps' \<le> 1)) \<and>
    (\<forall>i < j. uview s root (srcva + i) = Some (ram (world s') (dst + i)))"
  using assms
proof (induction len arbitrary: srcva dst s T ps rule: less_induct)
  case (less len)
  let ?va = "PGROUNDDOWN srcva" and ?off = "srcva mod PGSIZE"
  note rd = rounddown_page [of srcva] and unfold = copyin.simps [of kend root dst srcva len s]
  show ?case
  proof (cases "len = 0")
    case True
    then show ?thesis using less.prems(1)
      by (intro exI [of _ 0] exI [of _ s] exI [of _ T] exI [of _ ps] exI [of _ 0]) (simp add: copyin.simps reads_def)
  next
    case len: False
    obtain p0 pa s1 T1 ps1 where p: "walkaddr root ?va s = Inr p0" "(if p0 = 0 then vmfault kend root ?va s else Inr (p0, s)) = Inr (pa, s1)"
        "keeps kend root s T ps s1 T1 ps1" "uview s1 root = uview s root"
      and pa: "if pa = 0 then uview s root ?va = None \<or> length ps1 \<le> 1
        else ?va < MAXVA \<and> user_pte (hw_pte (ram (world s1)) root ?va) \<and> PTE2PA (hw_pte (ram (world s1)) root ?va) = pa"
      using get_page [OF less.prems(1) rd(1)] by blast
    have k1: "space_ok kend s1 root T1 ps1" "others_same s s1" "owned s1 root T1 ps1 \<subseteq> owned s root T ps" using p(3) by (simp_all add: keeps_def)
    have r1: "reads kend root s T ps dst 0 s1 T1 ps1" using p(3,4) by (simp add: keeps_def reads_def)
    show ?thesis
    proof (cases "pa = 0")
      case True
      then have "uview s root srcva = None \<or> length ps1 \<le> 1" using pa uview_none_page [OF rd(2)] by auto
      then show ?thesis using len True p r1
        by (intro exI [of _ "-1"] exI [of _ s1] exI [of _ T1] exI [of _ ps1] exI [of _ 0]) (auto simp: unfold Let_def)
    next
      case nz: False
      have u: "?va < MAXVA" "user_pte (hw_pte (ram (world s1)) root ?va)" "PTE2PA (hw_pte (ram (world s1)) root ?va) = pa" using pa nz by auto
      define n where "n = min (PGSIZE - ?off) len"
      have n: "0 < n" "n \<le> len" "n \<le> PGSIZE - ?off" using len by (simp_all add: n_def PGSIZE_def)
      define s2 where "s2 = set_ram (memmove (ram (world s1)) dst (pa + ?off) n) s1"
      have step: "copyin kend root dst srcva len s = copyin kend root (dst + n) (?va + PGSIZE) (len - n) s2"
        using len nz p(1,2) by (simp add: unfold rd(4) Let_def s2_def n_def)
      let ?bs = "bytes_at (ram (world s1)) (pa + ?off) n"
      have s2: "s2 = set_ram (store (ram (world s1)) dst ?bs) s1" by (simp add: s2_def memmove_copies)
      have "\<forall>i < length ?bs. \<forall>t \<in> owned s1 root T1 ps1. \<not> in_page t (dst + i)" using less.prems(2) k1(3) n(2) by auto
      note st = store_kernel [OF k1(1) this s2]
      have "ram (world s2) q = ram (world s1) q" if "\<not> (dst \<le> q \<and> q < dst + n)" for q using that s2 by (auto simp: store_def)
      then have "reads kend root s1 T1 ps1 dst n s2 T1 ps1" using st by (simp add: reads_def)
      then have r2: "reads kend root s T ps dst n s2 T1 ps1" using reads_trans [OF r1, of n] by simp
      have got: "uview s root (srcva + i) = Some (ram (world s2) (dst + i))" if "i < n" for i
        using uview_bytes(1) [OF k1(1) u(1,2), of i] that n(3) u(3) p(4) s2 by (simp add: store_def)
      have "\<forall>i < len - n. \<forall>t \<in> owned s2 root T1 ps1. \<not> in_page t (dst + n + i)"
        using less.prems(2) k1(3) st(2) by (auto simp: add.assoc)
      then obtain r s' T' ps' j where
        c: "copyin kend root (dst + n) (?va + PGSIZE) (len - n) s2 = Inr (r, s')" "reads kend root s2 T1 ps1 (dst + n) j s' T' ps'" "j \<le> len - n"
        and r: "if j = len - n then r = 0 else r = -1 \<and> (uview s2 root (?va + PGSIZE + j) = None \<or> length ps' \<le> 1)"
        and v: "\<forall>i < j. uview s2 root (?va + PGSIZE + i) = Some (ram (world s') (dst + n + i))"
        using less.IH [of "len - n" s2 T1 ps1 "dst + n" "?va + PGSIZE"] n(1,2) st(1) by fastforce
      have v2: "uview s2 root = uview s root" using r2 by (simp add: reads_def)
      have keep: "ram (world s') (dst + i) = ram (world s2) (dst + i)" if "i < n" for i
      proof -
        have "\<forall>t \<in> owned s2 root T1 ps1. \<not> in_page t (dst + i)" using less.prems(2) that n(2) k1(3) st(2) by auto
        moreover have "\<not> (dst + n \<le> dst + i \<and> dst + i < dst + n + j)" using that by simp
        ultimately show ?thesis using c(2) unfolding reads_def by blast
      qed
      have at: "?va + PGSIZE = srcva + n" if "n < len" using that rd(3) by (simp add: n_def PGSIZE_def)
      have "j = 0" if "n = len" using c(3) that by simp
      then have fin: "if n + j = len then r = 0 else r = -1 \<and> (uview s root (srcva + (n + j)) = None \<or> length ps' \<le> 1)"
        using r v2 at n(2) c(3) by (cases "n = len"; cases "j = len - n") (auto simp: add.assoc)
      have all: "uview s root (srcva + i) = Some (ram (world s') (dst + i))" if i: "i < n + j" for i
      proof (cases "i < n")
        case True
        then show ?thesis using got keep by simp
      next
        case False
        then have "n < len" "i - n < j" using i c(3) by auto
        then show ?thesis using v [rule_format, of "i - n"] v2 at False by (simp add: add.assoc)
      qed
      have "copyin kend root dst srcva len s = Inr (r, s')" "n + j \<le> len" using step c(1,3) n(2) by simp_all
      then show ?thesis using reads_trans [OF r2 c(2)] fin all by blast
    qed
  qed
qed

section \<open>Properties\<close>

text \<open>An address space with no page mapped and one page granted, for the examples.\<close>

definition vm_ram :: mem where
  "vm_ram q = (if q = 12289 then 64 else if q = 16385 then 80 else 0)"

definition vm_example :: "unit kmem_world_scheme kernel" where
  "vm_example = (solo {} \<lparr>freelist = 12288, ram = vm_ram\<rparr>)\<lparr>procs := [idle_proc\<lparr>sz := 4096, pagetable := 8192\<rparr>]\<rparr>"

lemma vm_example_simps [simp]:
  "ram (world vm_example) = vm_ram" "freelist (world vm_example) = 12288" "cproc vm_example = Some 0" "quiet {} vm_example"
  "procs vm_example = [idle_proc\<lparr>sz := 4096, pagetable := 8192\<rparr>]"
  by (simp_all add: vm_example_def quiet_def solo_def hart_ok_def)

lemma vm_example_pt: "pt_ok 4096 vm_ram 8192 [[] \<mapsto> 8192]"
proof -
  have "entry vm_ram (8192 + 8 * i) = 0" if "i < 512" for i
    by (rule entry_zeroed [OF that]) (auto simp: vm_ram_def in_page_def PGSIZE_def)
  then have "node_ok vm_ram [[] \<mapsto> 8192] [] 8192" by (simp add: node_ok_def)
  then show ?thesis by (simp add: pt_ok_def page_ok_def PGSIZE_def PHYSTOP_def inj_on_def)
qed

lemma vm_example_free: "hw_pte vm_ram 8192 x = 0" "user_pages vm_ram 8192 = {}"
proof -
  show h: "hw_pte vm_ram 8192 x = 0" for x using hw_pte_leaf [OF vm_example_pt] by (simp add: leaf_pte_def)
  then show "user_pages vm_ram 8192 = {}" by (simp add: user_pages_def user_pte_def)
qed

lemma vm_example_ok: "space_ok 4096 vm_example 8192 [[] \<mapsto> 8192] [12288, 16384, 20480]"
proof -
  have e: "(8 :: nat) = Suc (Suc (Suc (Suc (Suc (Suc (Suc (Suc 0)))))))" by simp
  have "get_le vm_ram 12288 8 = 16384" "get_le vm_ram 16384 8 = 20480" "get_le vm_ram 20480 8 = 0"
    unfolding e get_le.simps by (simp_all add: vm_ram_def)
  then have "free_pages 4096 vm_example [12288, 16384, 20480]" by (simp add: free_pages_def page_ok_def PGSIZE_def PHYSTOP_def)
  then have "vm_ok 4096 vm_example 8192 [[] \<mapsto> 8192] [12288, 16384, 20480]" using vm_example_pt by (simp add: vm_ok_def)
  then show ?thesis using vm_example_free by (simp add: space_ok_def no_alias_def user_pte_def MAXVA_def)
qed

text \<open>C11: \<open>mappages\<close> makes the hardware translate exactly the pages of the range, page by page to the physical pages from \<open>pa\<close> on and with
  the permissions asked for; every other translation stays as it was.  When memory for the tables runs out it returns -1, and then a
  first part of the range is mapped and no free page is left.  The tables stay a well-formed tree apart from the free list.\<close>

theorem mappages_maps:
  assumes "vm_ok kend s root T ps" and "va mod PGSIZE = 0" and "0 < n" and "va + n * PGSIZE \<le> MAXVA"
    and "\<forall>x. va \<le> x \<and> x < va + n * PGSIZE \<longrightarrow> hw_pte (ram (world s)) root x AND PTE_V = 0"
  shows "\<exists>r s' T' ps' j. mappages root va (n * PGSIZE) pa perm s = Inr (r, s') \<and> vm_ok kend s' root T' ps' \<and> set ps' \<subseteq> set ps \<and> j \<le> n \<and>
    (if j = n then r = 0 else r = -1 \<and> ps' = []) \<and>
    (\<forall>x < MAXVA. hw_pte (ram (world s')) root x = (if va \<le> x \<and> x < va + j * PGSIZE
       then PA2PTE (pa + (PGROUNDDOWN x - va)) OR perm OR PTE_V else hw_pte (ram (world s)) root x))"
proof -
  obtain k where n: "n = Suc k" using assms(3) by (cases n) auto
  have h: "hw_pte (ram (world s)) root x = leaf_pte (ram (world s)) T x" for x
    using assms(1) by (intro hw_pte_leaf [of kend]) (simp add: vm_ok_def)
  obtain r s' T' ps' j where m: "mappages_loop root va (va + k * PGSIZE) pa perm s = Inr (r, s')" "vm_grown kend root s T ps s' T' ps'" "j \<le> n"
      "mapped_upto va j pa perm (leaf_pte (ram (world s)) T) (leaf_pte (ram (world s')) T')" "if j = n then r = 0 else r = -1 \<and> ps' = []"
    using mappages_loop_ok [OF assms(1,2), of k pa perm] assms(4,5) h unfolding n by auto
  have h': "hw_pte (ram (world s')) root x = leaf_pte (ram (world s')) T' x" for x
    using m(2) by (intro hw_pte_leaf [of kend]) (simp add: vm_grown_def vm_ok_def)
  have "mappages root va (n * PGSIZE) pa perm s = Inr (r, s')" using m(1) assms(2) n by (simp add: mappages_def PGSIZE_def)
  then show ?thesis using m(2-5) h h' unfolding mapped_upto_def vm_grown_def by metis
qed

theorem mappages_maps_witness:
  "\<exists>r s'. mappages 8192 4096 4096 16777216 PTE_R vm_example = Inr (r, s') \<and> (r = 0 \<longrightarrow> hw_pte (ram (world s')) 8192 5000 = PA2PTE 16777216 OR PTE_R OR PTE_V)"
proof -
  have "vm_ok 4096 vm_example 8192 [[] \<mapsto> 8192] [12288, 16384, 20480]" using vm_example_ok by (simp add: space_ok_def)
  from mappages_maps [OF this, of 4096 1 16777216 PTE_R]
  obtain r s' j where m: "mappages 8192 4096 (1 * PGSIZE) 16777216 PTE_R vm_example = Inr (r, s')" "j \<le> 1" "if j = 1 then r = 0 else r = -1 \<and> True"
      "\<forall>x < MAXVA. hw_pte (ram (world s')) 8192 x = (if 4096 \<le> x \<and> x < 4096 + j * PGSIZE
         then PA2PTE (16777216 + (PGROUNDDOWN x - 4096)) OR PTE_R OR PTE_V else hw_pte (ram (world vm_example)) 8192 x)"
    using vm_example_free(1) by (auto simp: PGSIZE_def MAXVA_def)
  moreover have "PGROUNDDOWN 5000 = 4096" "PGSIZE = 4096" "5000 < MAXVA" by (simp_all add: PGROUNDDOWN_def PGSIZE_def MAXVA_def)
  ultimately show ?thesis using m(4) [rule_format, of 5000] by (cases "j = 1") auto
qed

text \<open>C4: \<open>copyout\<close> writes to the memory a process sees: it stores the bytes of the kernel buffer at the virtual address, all of them, or up to
  the first byte whose page the process does not have, may not write or for which memory is out, when it returns -1.  No other byte the
  process sees changes; that a page was granted by \<open>sbrk\<close> and is allocated only now, with zeros, is not visible.\<close>

theorem copyout_writes:
  fixes s :: "'a mkernel"
  assumes "space_ok kend s root T ps" and "\<forall>i < len. \<forall>t \<in> owned s root T ps. \<not> in_page t (src + i)"
  shows "\<exists>r s' T' ps' j. copyout kend root dstva src len s = Inr (r, s') \<and> space_ok kend s' root T' ps' \<and> j \<le> len \<and>
    (if j = len then r = 0 else r = -1 \<and> (uview s root (dstva + j) = None \<or> hw_pte (ram (world s')) root (dstva + j) AND PTE_W = 0 \<or> length ps' \<le> 1)) \<and>
    (\<forall>x. uview s' root x = (if dstva \<le> x \<and> x < dstva + j then Some (ram (world s) (src + (x - dstva))) else uview s root x)) \<and>
    (\<forall>q. (\<forall>t \<in> owned s root T ps. \<not> in_page t q) \<longrightarrow> ram (world s') q = ram (world s) q)"
  using copyout_ok [OF assms] unfolding keeps_def by blast

lemma vm_example_owned: "q < 4096 \<Longrightarrow> \<forall>t \<in> owned vm_example 8192 [[] \<mapsto> 8192] [12288, 16384, 20480]. \<not> in_page t q"
  using vm_example_free by (auto simp: owned_def in_page_def)

theorem copyout_writes_witness:
  "\<exists>r s' j. copyout 4096 8192 10 100 3 vm_example = Inr (r, s') \<and> j \<le> 3 \<and> (r = 0 \<longleftrightarrow> j = 3) \<and>
    (\<forall>x. uview s' 8192 x = (if 10 \<le> x \<and> x < 10 + j then Some (vm_ram (100 + (x - 10))) else uview vm_example 8192 x))"
proof -
  have "\<forall>i < 3. \<forall>t \<in> owned vm_example 8192 [[] \<mapsto> 8192] [12288, 16384, 20480]. \<not> in_page t (100 + i)"
    by (intro allI impI vm_example_owned) simp
  from copyout_writes [OF vm_example_ok this, of 10] obtain r s' j where
    "copyout 4096 8192 10 100 3 vm_example = Inr (r, s')" "j \<le> 3" "if j = 3 then r = 0 else r = -1 \<and> True"
    "\<forall>x. uview s' 8192 x = (if 10 \<le> x \<and> x < 10 + j then Some (ram (world vm_example) (100 + (x - 10))) else uview vm_example 8192 x)" by metis
  then show ?thesis by (intro exI [of _ r] exI [of _ s'] exI [of _ j]) (cases "j = 3"; simp)
qed

text \<open>C12: \<open>copyin\<close> reads the memory a process sees: the bytes it stores in the kernel buffer are those at the virtual address, all of them, or up to
  the first one the process does not have or for which memory is out, when it returns -1.  What the process sees stays the same, and
  no memory changes but the buffer and the pages of the address space.\<close>

theorem copyin_reads:
  fixes s :: "'a mkernel"
  assumes "space_ok kend s root T ps" and "\<forall>i < len. \<forall>t \<in> owned s root T ps. \<not> in_page t (dst + i)"
  shows "\<exists>r s' T' ps' j. copyin kend root dst srcva len s = Inr (r, s') \<and> space_ok kend s' root T' ps' \<and> uview s' root = uview s root \<and> j \<le> len \<and>
    (if j = len then r = 0 else r = -1 \<and> (uview s root (srcva + j) = None \<or> length ps' \<le> 1)) \<and>
    (\<forall>i < j. uview s root (srcva + i) = Some (ram (world s') (dst + i))) \<and>
    (\<forall>q. (\<forall>t \<in> owned s root T ps. \<not> in_page t q) \<longrightarrow> \<not> (dst \<le> q \<and> q < dst + j) \<longrightarrow> ram (world s') q = ram (world s) q)"
  using copyin_ok [OF assms] unfolding reads_def by blast

theorem copyin_reads_witness:
  "\<exists>r s' j. copyin 4096 8192 200 4090 20 vm_example = Inr (r, s') \<and> j \<le> (20 :: nat) \<and> (r = 0 \<longleftrightarrow> j = 20) \<and> uview s' 8192 = uview vm_example 8192"
proof -
  have "\<forall>i < 20. \<forall>t \<in> owned vm_example 8192 [[] \<mapsto> 8192] [12288, 16384, 20480]. \<not> in_page t (200 + i)"
    by (intro allI impI vm_example_owned) simp
  from copyin_reads [OF vm_example_ok this, of 4090] obtain r s' and j :: nat where
    "copyin 4096 8192 200 4090 20 vm_example = Inr (r, s')" "uview s' 8192 = uview vm_example 8192" "j \<le> 20" "if j = 20 then r = 0 else r = -1 \<and> True" by metis
  then show ?thesis by (intro exI [of _ r] exI [of _ s'] exI [of _ j]) (cases "j = 20"; simp)
qed

end
