(* ===== verification/User_Sh.thy ===== *)
theory User_Sh
  imports Prelude
begin

unbundle bit_operations_syntax

text \<open>
  The parser of the xv6 shell, \<^verbatim>\<open>xv6/user/sh.c\<close>.  A pointer into the command line is the number of the character it points to;
  the pointer \<open>*ps\<close> that the functions advance is the rest of the line it points at, so that the pointer is the length of the line
  less the length of the rest.  Every call of \<open>malloc\<close> succeeds.  The recursive functions take a number that bounds the depth of
  the calls; \<open>parsecmd\<close> starts with a bound that is never reached.
\<close>

section \<open>Commands\<close>

definition O_RDONLY :: int where "O_RDONLY = 0x000"
definition O_WRONLY :: int where "O_WRONLY = 0x001"
definition O_CREATE :: int where "O_CREATE = 0x200"
definition O_TRUNC :: int where "O_TRUNC = 0x400"
definition MAXARGS :: nat where "MAXARGS = 10"

text \<open>The arrays \<open>argv\<close> and \<open>eargv\<close> are the list of the pairs of their elements up to the null pointer.\<close>

datatype cmd =
    EXEC "(nat \<times> nat) list"
  | REDIR cmd nat nat int int
  | PIPE cmd cmd
  | LIST cmd cmd
  | BACK cmd

definition execcmd :: cmd where "execcmd = EXEC []"

definition redircmd :: "cmd \<Rightarrow> nat \<Rightarrow> nat \<Rightarrow> int \<Rightarrow> int \<Rightarrow> cmd" where
  "redircmd subcmd f ef mode fd = REDIR subcmd f ef mode fd"

definition pipecmd :: "cmd \<Rightarrow> cmd \<Rightarrow> cmd" where "pipecmd l r = PIPE l r"

definition listcmd :: "cmd \<Rightarrow> cmd \<Rightarrow> cmd" where "listcmd l r = LIST l r"

definition backcmd :: "cmd \<Rightarrow> cmd" where "backcmd subcmd = BACK subcmd"

section \<open>Tokens\<close>

definition whitespace :: string where "whitespace = [SPACE, TAB, CR, LF, CHR 0x0B]"
definition symbols :: string where "symbols = ''<|>&;()''"

abbreviation white :: "char \<Rightarrow> bool" where "white c \<equiv> c \<in> set whitespace"
abbreviation wordchar :: "char \<Rightarrow> bool" where "wordchar c \<equiv> c \<notin> set whitespace \<and> c \<notin> set symbols"

definition skip :: "string \<Rightarrow> string" where "skip r = dropWhile white r"

text \<open>The kind of token at the start of \<open>r\<close>, and what follows it.\<close>

fun token_at :: "string \<Rightarrow> char \<times> string" where
  "token_at [] = (NUL, [])"
| "token_at (c # r) =
    (if c \<in> set ''|();&<'' then (c, r)
     else if c = CHR ''>'' then (if cur r = CHR ''>'' then (CHR ''+'', tl r) else (CHR ''>'', r))
     else (CHR ''a'', dropWhile wordchar (c # r)))"

definition gettoken :: "nat \<Rightarrow> string \<Rightarrow> char \<times> nat \<times> nat \<times> string" where
  "gettoken n r =
    (let r1 = skip r; (ret, r2) = token_at r1 in (ret, n - length r1, n - length r2, skip r2))"

definition peek :: "string \<Rightarrow> string \<Rightarrow> string \<times> bool" where
  "peek toks r = (let r = skip r in (r, cur r \<noteq> NUL \<and> cur r \<in> set toks))"

section \<open>The parser\<close>

definition redir :: "char \<Rightarrow> cmd \<Rightarrow> nat \<Rightarrow> nat \<Rightarrow> cmd" where
  "redir tok c q eq =
    (if tok = CHR ''<'' then redircmd c q eq O_RDONLY 0
     else if tok = CHR ''>'' then redircmd c q eq (O_WRONLY OR O_CREATE OR O_TRUNC) 1
     else if tok = CHR ''+'' then redircmd c q eq (O_WRONLY OR O_CREATE) 1
     else c)"

lemma skip_length: "length (skip r) \<le> length r"
  by (simp add: skip_def length_dropWhile_le)

lemma skip_nonwhite: "skip r = [] \<or> \<not> white (hd (skip r))"
  unfolding skip_def using hd_dropWhile by blast

lemma token_length:
  assumes "token_at r = (t, r')" and "r \<noteq> []" and "\<not> white (hd r)"
  shows "length r' < length r"
proof (cases r)
  case (Cons c cs)
  have "length (dropWhile wordchar cs) \<le> length cs" by (rule length_dropWhile_le)
  moreover have "set symbols \<subseteq> set ''|();&<>''" by (auto simp: symbols_def)
  ultimately show ?thesis using assms Cons by (auto split: if_splits simp: less_Suc_eq_le)
qed (use assms in simp)

lemma gettoken_length:
  assumes "gettoken n r = (t, q, eq, r')"
  shows "length r' \<le> length r" and "skip r \<noteq> [] \<Longrightarrow> length r' < length r"
proof -
  obtain r2 where r2: "token_at (skip r) = (t, r2)" "r' = skip r2" using assms by (auto simp: gettoken_def Let_def split: prod.splits)
  have "length r' \<le> length r2" "length (skip r) \<le> length r" using r2(2) skip_length by auto
  moreover have "length r2 < length (skip r)" if "skip r \<noteq> []" using token_length [OF r2(1) that] skip_nonwhite [of r] that by blast
  ultimately show "skip r \<noteq> [] \<Longrightarrow> length r' < length r" by simp
  show "length r' \<le> length r"
  proof (cases "skip r = []")
    case True
    then have "r2 = []" using r2(1) by simp
    then show ?thesis using r2(2) by (simp add: skip_def)
  next
    case False
    then show ?thesis using \<open>skip r \<noteq> [] \<Longrightarrow> length r2 < length (skip r)\<close> \<open>length r' \<le> length r2\<close> \<open>length (skip r) \<le> length r\<close> by simp
  qed
qed

lemma peek_skip: "peek toks r = (r', True) \<Longrightarrow> r' = skip r \<and> r' \<noteq> [] \<and> skip r' = r'"
  using skip_nonwhite [of r] by (auto simp: peek_def Let_def skip_def dropWhile_idem)

lemma peek_gettoken:
  assumes "peek toks r = (r1, True)" and "gettoken n r1 = (t, q, eq, r2)"
  shows "length r2 < length r"
proof -
  have "r1 = skip r" "skip r1 \<noteq> []" using peek_skip [OF assms(1)] by auto
  then show ?thesis using gettoken_length(2) [OF assms(2)] skip_length [of r] by simp
qed

function parseredirs :: "nat \<Rightarrow> cmd \<Rightarrow> string \<Rightarrow> (cmd \<times> string) res" where
  "parseredirs n c r =
    (case peek ''<>'' r of (r, b) \<Rightarrow>
     if b then
       (case gettoken n r of (tok, _, _, r) \<Rightarrow>
        case gettoken n r of (tok2, q, eq, r) \<Rightarrow>
        if tok2 \<noteq> CHR ''a'' then Inl ''missing file for redirection''
        else parseredirs n (redir tok c q eq) r)
     else Inr (c, r))"
  by pat_completeness auto
termination
  by (relation "measure (\<lambda>(n, c, r). length r)") (simp, clarsimp, metis peek_gettoken gettoken_length(1) le_less_trans)

text \<open>The loop over \<open>&\<close> of \<open>parseline\<close>.\<close>

function parseback :: "nat \<Rightarrow> cmd \<Rightarrow> string \<Rightarrow> cmd \<times> string" where
  "parseback n c r =
    (case peek ''&'' r of (r, b) \<Rightarrow>
     if b then (case gettoken n r of (_, _, _, r) \<Rightarrow> parseback n (backcmd c) r) else (c, r))"
  by pat_completeness auto
termination
  by (relation "measure (\<lambda>(n, c, r). length r)") (simp, clarsimp, metis peek_gettoken)

text \<open>The command \<open>cmd\<close> of \<open>parseexec\<close> is the one inside the redirections \<open>ret\<close> that have been put around it.\<close>

fun add_arg :: "nat \<Rightarrow> nat \<Rightarrow> cmd \<Rightarrow> cmd" where
  "add_arg q eq (EXEC args) = EXEC (args @ [(q, eq)])"
| "add_arg q eq (REDIR c f ef mode fd) = REDIR (add_arg q eq c) f ef mode fd"
| "add_arg q eq c = c"

lemma parseredirs_length: "parseredirs n c r = Inr (c', r') \<Longrightarrow> length r' \<le> length r"
proof (induction n c r rule: parseredirs.induct)
  case (1 n c r)
  obtain r1 b where p: "peek ''<>'' r = (r1, b)" by force
  show ?case
  proof (cases b)
    case False
    then show ?thesis using 1 p by (auto simp: parseredirs.simps [of n c r] peek_def Let_def skip_length)
  next
    case True
    obtain tok q0 e0 r2 where g: "gettoken n r1 = (tok, q0, e0, r2)" by (metis prod_cases4)
    obtain tok2 q eq r3 where g2: "gettoken n r2 = (tok2, q, eq, r3)" by (metis prod_cases4)
    have "length r3 < length r" using peek_gettoken [OF _ g] p True gettoken_length(1) [OF g2] by force
    moreover have "length r' \<le> length r3"
      using 1 p True g g2 by (auto simp: parseredirs.simps [of n c r] split: if_splits)
    ultimately show ?thesis by simp
  qed
qed

function exec_loop :: "nat \<Rightarrow> nat \<Rightarrow> cmd \<Rightarrow> string \<Rightarrow> (cmd \<times> string) res" where
  "exec_loop n argc ret r =
    (case peek ''|)&;'' r of (r, b) \<Rightarrow>
     if b then Inr (ret, r)
     else case gettoken n r of (tok, q, eq, r') \<Rightarrow>
       if tok = NUL then Inr (ret, r')
       else if tok \<noteq> CHR ''a'' then Inl ''syntax''
       else let argc = argc + 1 in
         if argc \<ge> MAXARGS then Inl ''too many args''
         else seq (parseredirs n (add_arg q eq ret) r') (\<lambda>(ret, r). exec_loop n argc ret r))"
  by pat_completeness auto
termination by (relation "measure (\<lambda>(n, argc, ret, r). MAXARGS - argc)") auto

text \<open>The mutually recursive functions.\<close>

fun parseline :: "nat \<Rightarrow> nat \<Rightarrow> string \<Rightarrow> (cmd \<times> string) res"
  and parsepipe :: "nat \<Rightarrow> nat \<Rightarrow> string \<Rightarrow> (cmd \<times> string) res"
  and parseexec :: "nat \<Rightarrow> nat \<Rightarrow> string \<Rightarrow> (cmd \<times> string) res"
  and parseblock :: "nat \<Rightarrow> nat \<Rightarrow> string \<Rightarrow> (cmd \<times> string) res" where
  "parseline 0 n r = Inl ''depth''"
| "parseline (Suc k) n r =
    seq (parsepipe k n r) (\<lambda>(c, r).
      case parseback n c r of (c, r) \<Rightarrow>
      case peek '';'' r of (r, b) \<Rightarrow>
      if b then (case gettoken n r of (_, _, _, r) \<Rightarrow> seq (parseline k n r) (\<lambda>(c2, r). Inr (listcmd c c2, r)))
      else Inr (c, r))"
| "parsepipe 0 n r = Inl ''depth''"
| "parsepipe (Suc k) n r =
    seq (parseexec k n r) (\<lambda>(c, r).
      case peek ''|'' r of (r, b) \<Rightarrow>
      if b then (case gettoken n r of (_, _, _, r) \<Rightarrow> seq (parsepipe k n r) (\<lambda>(c2, r). Inr (pipecmd c c2, r)))
      else Inr (c, r))"
| "parseexec 0 n r = Inl ''depth''"
| "parseexec (Suc k) n r =
    (case peek ''('' r of (r, b) \<Rightarrow>
     if b then parseblock k n r
     else seq (parseredirs n execcmd r) (\<lambda>(ret, r). exec_loop n 0 ret r))"
| "parseblock 0 n r = Inl ''depth''"
| "parseblock (Suc k) n r =
    (case peek ''('' r of (r, b) \<Rightarrow>
     if \<not> b then Inl ''parseblock''
     else case gettoken n r of (_, _, _, r) \<Rightarrow>
       seq (parseline k n r) (\<lambda>(c, r).
         case peek '')'' r of (r, b) \<Rightarrow>
         if \<not> b then Inl ''syntax - missing )''
         else case gettoken n r of (_, _, _, r) \<Rightarrow> parseredirs n c r))"

fun nulterminate :: "cmd \<Rightarrow> string \<Rightarrow> string" where
  "nulterminate (EXEC args) b = fold (\<lambda>(q, eq) b. b[eq := NUL]) args b"
| "nulterminate (REDIR c f ef mode fd) b = (nulterminate c b)[ef := NUL]"
| "nulterminate (PIPE l r) b = nulterminate r (nulterminate l b)"
| "nulterminate (LIST l r) b = nulterminate r (nulterminate l b)"
| "nulterminate (BACK c) b = nulterminate c b"

text \<open>The result: the command, and the line with the strings in it terminated.  The last character of the buffer is the terminator of the line.\<close>

definition parsecmd :: "string \<Rightarrow> (cmd \<times> string) res" where
  "parsecmd s =
    seq (parseline (4 * length s + 4) (length s) s) (\<lambda>(c, r).
      case peek [] r of (r, _) \<Rightarrow>
      if r \<noteq> [] then Inl ''syntax'' else Inr (c, nulterminate c (s @ [NUL])))"

declare parseredirs.simps [simp del] parseback.simps [simp del] exec_loop.simps [simp del]

section \<open>The depth is enough\<close>

definition parsed :: "nat \<Rightarrow> (cmd \<times> string) res \<Rightarrow> bool" where
  "parsed m x \<longleftrightarrow> (case x of Inl e \<Rightarrow> e \<noteq> ''depth'' | Inr (c, r) \<Rightarrow> length r \<le> m)"

lemma parsed_Inr [simp]: "parsed m (Inr (c, r)) \<longleftrightarrow> length r \<le> m"
  by (simp add: parsed_def)

lemma parsed_Inl [simp]: "parsed m (Inl e) \<longleftrightarrow> e \<noteq> ''depth''"
  by (simp add: parsed_def)

lemma parsed_seq:
  assumes "parsed m x" and "\<And>c r. length r \<le> m \<Longrightarrow> parsed m' (f (c, r))"
  shows "parsed m' (seq x f)"
  using assms by (cases x) (auto simp: parsed_def)

lemma parsed_mono: "parsed m x \<Longrightarrow> m \<le> m' \<Longrightarrow> parsed m' x"
  by (cases x) auto

lemma parsed_redirs: "parsed (length r) (parseredirs n c r)"
proof (induction "length r" arbitrary: c r rule: less_induct)
  case less
  obtain r1 b where p: "peek ''<>'' r = (r1, b)" by force
  show ?case
  proof (cases b)
    case False
    then show ?thesis using p by (auto simp: parseredirs.simps [of n c r] peek_def Let_def skip_length)
  next
    case True
    obtain tok q0 e0 r2 where g: "gettoken n r1 = (tok, q0, e0, r2)" by (metis prod_cases4)
    obtain tok2 q eq r3 where g2: "gettoken n r2 = (tok2, q, eq, r3)" by (metis prod_cases4)
    have l: "length r3 < length r" using peek_gettoken [OF _ g] p True gettoken_length(1) [OF g2] by force
    have "parsed (length r) (parseredirs n (redir tok c q eq) r3)" by (rule parsed_mono [OF less [OF l]]) (use l in simp)
    then show ?thesis using p True g g2 by (simp add: parseredirs.simps [of n c r])
  qed
qed

lemma parseback_length: "parseback n c r = (c', r') \<Longrightarrow> length r' \<le> length r"
proof (induction "length r" arbitrary: c r rule: less_induct)
  case less
  obtain r1 b where p: "peek ''&'' r = (r1, b)" by force
  show ?case
  proof (cases b)
    case False
    then show ?thesis using less.prems p by (auto simp: parseback.simps [of n c r] peek_def Let_def skip_length)
  next
    case True
    obtain tok q0 e0 r2 where g: "gettoken n r1 = (tok, q0, e0, r2)" by (metis prod_cases4)
    have l: "length r2 < length r" using peek_gettoken [OF _ g] p True by force
    have "parseback n (backcmd c) r2 = (c', r')" using less.prems p True g by (simp add: parseback.simps [of n c r])
    from less.hyps [OF l this] show ?thesis using l by simp
  qed
qed

lemma peek_length: "peek toks r = (r', b) \<Longrightarrow> length r' \<le> length r"
  by (auto simp: peek_def Let_def skip_length)

lemma parsed_exec_loop: "parsed (length r) (exec_loop n argc ret r)"
proof (induction "MAXARGS - argc" arbitrary: argc ret r rule: less_induct)
  case less
  obtain r1 b where p: "peek ''|)&;'' r = (r1, b)" by force
  obtain tok q eq r2 where g: "gettoken n r1 = (tok, q, eq, r2)" by (metis prod_cases4)
  have l: "length r1 \<le> length r" "length r2 \<le> length r" using peek_length [OF p] gettoken_length(1) [OF g] by auto
  have "parsed (length r) (seq (parseredirs n (add_arg q eq ret) r2) (\<lambda>(ret, r). exec_loop n (argc + 1) ret r))" if "argc + 1 < MAXARGS"
  proof (rule parsed_seq [OF parsed_redirs])
    fix c and r3 :: string assume r3: "length r3 \<le> length r2"
    have "parsed (length r3) (exec_loop n (argc + 1) c r3)" by (rule less) (use that in simp)
    then show "parsed (length r) (case (c, r3) of (ret, r) \<Rightarrow> exec_loop n (argc + 1) ret r)" using l(2) r3 parsed_mono [of "length r3"] by simp
  qed
  then show ?case using p g l by (auto simp: exec_loop.simps [of n argc ret r] Let_def not_le)
qed

lemma depth_enough:
  "(4 * length r + 4 \<le> k \<longrightarrow> parsed (length r) (parseline k n r)) \<and> (4 * length r + 3 \<le> k \<longrightarrow> parsed (length r) (parsepipe k n r)) \<and>
   (4 * length r + 2 \<le> k \<longrightarrow> parsed (length r) (parseexec k n r)) \<and> (4 * length r + 1 \<le> k \<longrightarrow> parsed (length r) (parseblock k n r))"
proof (induction k arbitrary: r)
  case (Suc k)
  \<comment> \<open>after a token that \<open>peek\<close> has seen, less of the line is left\<close>
  have after: "\<exists>x y z r2. gettoken n r1 = (x, y, z, r2) \<and> length r2 < m" if "peek toks r0 = (r1, True)" "length r0 \<le> m" for toks r0 r1 m
    using peek_gettoken [OF that(1)] that(2) by (metis le_less_trans less_le_trans prod_cases4)
  have line: "parsed (length r) (parseline (Suc k) n r)" if k: "4 * length r + 4 \<le> Suc k"
    unfolding parseline.simps
  proof (rule parsed_seq)
    show "parsed (length r) (parsepipe k n r)" using Suc.IH [of r] k by simp
    fix c and r0 :: string assume r0: "length r0 \<le> length r"
    obtain c1 r1 where b: "parseback n c r0 = (c1, r1)" by force
    obtain r2 x where p: "peek '';'' r1 = (r2, x)" by force
    have l: "length r1 \<le> length r" "length r2 \<le> length r" using parseback_length [OF b] peek_length [OF p] r0 by auto
    show "parsed (length r) (case (c, r0) of (c, r) \<Rightarrow> case parseback n c r of (c, r) \<Rightarrow> case peek '';'' r of (r, b) \<Rightarrow>
        if b then (case gettoken n r of (_, _, _, r) \<Rightarrow> seq (parseline k n r) (\<lambda>(c2, r). Inr (listcmd c c2, r))) else Inr (c, r))"
    proof (cases x)
      case True
      obtain u v w r3 where g: "gettoken n r2 = (u, v, w, r3)" "length r3 < length r" using after [of "'';''" r1 r2 "length r"] p True l(1) by auto
      have "parsed (length r) (seq (parseline k n r3) (\<lambda>(c2, r). Inr (listcmd c1 c2, r)))"
        by (rule parsed_seq [of "length r3"]) (use Suc.IH [of r3] k g(2) in auto)
      then show ?thesis using b p True g(1) by simp
    qed (use b p l in simp)
  qed
  have pipe: "parsed (length r) (parsepipe (Suc k) n r)" if k: "4 * length r + 3 \<le> Suc k"
    unfolding parsepipe.simps
  proof (rule parsed_seq)
    show "parsed (length r) (parseexec k n r)" using Suc.IH [of r] k by simp
    fix c and r0 :: string assume r0: "length r0 \<le> length r"
    obtain r2 x where p: "peek ''|'' r0 = (r2, x)" by force
    have l: "length r2 \<le> length r" using peek_length [OF p] r0 by auto
    show "parsed (length r) (case (c, r0) of (c, r) \<Rightarrow> case peek ''|'' r of (r, b) \<Rightarrow>
        if b then (case gettoken n r of (_, _, _, r) \<Rightarrow> seq (parsepipe k n r) (\<lambda>(c2, r). Inr (pipecmd c c2, r))) else Inr (c, r))"
    proof (cases x)
      case True
      obtain u v w r3 where g: "gettoken n r2 = (u, v, w, r3)" "length r3 < length r" using after [of "''|''" r0 r2 "length r"] p True r0 by auto
      have "parsed (length r) (seq (parsepipe k n r3) (\<lambda>(c2, r). Inr (pipecmd c c2, r)))"
        by (rule parsed_seq [of "length r3"]) (use Suc.IH [of r3] k g(2) in auto)
      then show ?thesis using p True g(1) by simp
    qed (use p l in simp)
  qed
  have exec: "parsed (length r) (parseexec (Suc k) n r)" if k: "4 * length r + 2 \<le> Suc k"
  proof -
    obtain r2 x where p: "peek ''('' r = (r2, x)" by force
    have l: "length r2 \<le> length r" by (rule peek_length [OF p])
    have "parsed (length r) (parseblock k n r2)" by (rule parsed_mono [of "length r2"]) (use Suc.IH [of r2] k l in auto)
    moreover have "parsed (length r) (seq (parseredirs n execcmd r2) (\<lambda>(ret, r). exec_loop n 0 ret r))"
    proof (rule parsed_seq [OF parsed_redirs])
      fix c and r3 :: string assume "length r3 \<le> length r2"
      then show "parsed (length r) (case (c, r3) of (ret, r) \<Rightarrow> exec_loop n 0 ret r)" using parsed_mono [OF parsed_exec_loop] l by simp
    qed
    ultimately show ?thesis using p by simp
  qed
  have block: "parsed (length r) (parseblock (Suc k) n r)" if k: "4 * length r + 1 \<le> Suc k"
  proof -
    obtain r2 x where p: "peek ''('' r = (r2, x)" by force
    show ?thesis
    proof (cases x)
      case True
      obtain u v w r3 where g: "gettoken n r2 = (u, v, w, r3)" "length r3 < length r" using after [of "''(''" r r2 "length r"] p True by auto
      have "parsed (length r) (seq (parseline k n r3) (\<lambda>(c, r). case peek '')'' r of (r, b) \<Rightarrow>
         if \<not> b then Inl ''syntax - missing )'' else case gettoken n r of (_, _, _, r) \<Rightarrow> parseredirs n c r))"
      proof (rule parsed_seq [of "length r3"])
        show "parsed (length r3) (parseline k n r3)" using Suc.IH [of r3] k g(2) by simp
        fix c and r4 :: string assume r4: "length r4 \<le> length r3"
        obtain r5 y where p5: "peek '')'' r4 = (r5, y)" by force
        obtain u v w r6 where g6: "gettoken n r5 = (u, v, w, r6)" by (metis prod_cases4)
        have "length r6 \<le> length r" using peek_length [OF p5] gettoken_length(1) [OF g6] r4 g(2) by linarith
        then have "parsed (length r) (parseredirs n c r6)" using parsed_mono [OF parsed_redirs] by blast
        then show "parsed (length r) (case (c, r4) of (c, r) \<Rightarrow> case peek '')'' r of (r, b) \<Rightarrow>
         if \<not> b then Inl ''syntax - missing )'' else case gettoken n r of (_, _, _, r) \<Rightarrow> parseredirs n c r)"
          using p5 g6 by simp
      qed
      then show ?thesis using p True g(1) by simp
    qed (use p in simp)
  qed
  show ?case using line pipe exec block by blast
qed simp

end
