(* ===== verification/User_Sh_Props.thy ===== *)
theory User_Sh_Props
  imports User_Sh
begin

text \<open>
  The language of the parser: abstract syntax of command lines, how a line is printed, and which command, with the strings of its
  arguments, the parser finds in it.
\<close>

section \<open>Abstract syntax\<close>

datatype kind = In | Out | Append

datatype item = Word string | Redir kind string

datatype line = Line pipeline nat "line option"
  and pipeline = Pipeline simple "pipeline option"
  and simple = Block line "(kind \<times> string) list" | Simple "item list"

definition tok :: "string \<Rightarrow> string" where "tok w = w @ [SPACE]"

fun kind_string :: "kind \<Rightarrow> string" where
  "kind_string In = ''<''" | "kind_string Out = ''>''" | "kind_string Append = ''>>''"

fun kind_tok :: "kind \<Rightarrow> char" where
  "kind_tok In = CHR ''<''" | "kind_tok Out = CHR ''>''" | "kind_tok Append = CHR ''+''"

definition print_redir :: "kind \<times> string \<Rightarrow> string" where
  "print_redir = (\<lambda>(k, w). tok (kind_string k) @ tok w)"

fun print_item :: "item \<Rightarrow> string" where
  "print_item (Word w) = tok w"
| "print_item (Redir k w) = print_redir (k, w)"

fun print_line :: "line \<Rightarrow> string" and print_pipe :: "pipeline \<Rightarrow> string" and print_simple :: "simple \<Rightarrow> string" where
  "print_line (Line p b l) =
    print_pipe p @ concat (replicate b (tok ''&'')) @ (case l of None \<Rightarrow> [] | Some l \<Rightarrow> tok '';'' @ print_line l)"
| "print_pipe (Pipeline e p) = print_simple e @ (case p of None \<Rightarrow> [] | Some p \<Rightarrow> tok ''|'' @ print_pipe p)"
| "print_simple (Block l rs) = tok ''('' @ print_line l @ tok '')'' @ concat (map print_redir rs)"
| "print_simple (Simple its) = concat (map print_item its)"

text \<open>Commands with the strings of their arguments.\<close>

datatype scmd = SExec "string list" | SRedir scmd string int int | SPipe scmd scmd | SList scmd scmd | SBack scmd

definition sredir :: "kind \<Rightarrow> string \<Rightarrow> scmd \<Rightarrow> scmd" where
  "sredir k w c = (case k of
     In \<Rightarrow> SRedir c w 0 0 | Out \<Rightarrow> SRedir c w 0x601 1 | Append \<Rightarrow> SRedir c w 0x201 1)"

fun sadd :: "string \<Rightarrow> scmd \<Rightarrow> scmd" where
  "sadd w (SExec ws) = SExec (ws @ [w])"
| "sadd w (SRedir c f m d) = SRedir (sadd w c) f m d"
| "sadd w c = c"

fun sitem :: "item \<Rightarrow> scmd \<Rightarrow> scmd" where
  "sitem (Word w) c = sadd w c"
| "sitem (Redir k w) c = sredir k w c"

fun sline :: "line \<Rightarrow> scmd" and spipe :: "pipeline \<Rightarrow> scmd" and ssimple :: "simple \<Rightarrow> scmd" where
  "sline (Line p b l) = (let c = (SBack ^^ b) (spipe p) in case l of None \<Rightarrow> c | Some l \<Rightarrow> SList c (sline l))"
| "spipe (Pipeline e p) = (case p of None \<Rightarrow> ssimple e | Some p \<Rightarrow> SPipe (ssimple e) (spipe p))"
| "ssimple (Block l rs) = fold (\<lambda>(k, w). sredir k w) rs (sline l)"
| "ssimple (Simple its) = fold sitem its (SExec [])"

definition word_ok :: "string \<Rightarrow> bool" where
  "word_ok w \<longleftrightarrow> w \<noteq> [] \<and> (\<forall>c \<in> set w. wordchar c \<and> c \<noteq> NUL)"

fun item_ok :: "item \<Rightarrow> bool" where
  "item_ok (Word w) = word_ok w"
| "item_ok (Redir k w) = word_ok w"

fun is_word :: "item \<Rightarrow> bool" where
  "is_word (Word w) = True"
| "is_word (Redir k w) = False"

fun line_ok :: "line \<Rightarrow> bool" and pipe_ok :: "pipeline \<Rightarrow> bool" and simple_ok :: "simple \<Rightarrow> bool" where
  "line_ok (Line p b l) = (pipe_ok p \<and> (case l of None \<Rightarrow> True | Some l \<Rightarrow> line_ok l))"
| "pipe_ok (Pipeline e p) = (simple_ok e \<and> (case p of None \<Rightarrow> True | Some p \<Rightarrow> pipe_ok p))"
| "simple_ok (Block l rs) = (line_ok l \<and> (\<forall>(k, w) \<in> set rs. word_ok w))"
| "simple_ok (Simple its) = ((\<forall>i \<in> set its. item_ok i) \<and> length (filter is_word its) < MAXARGS)"

text \<open>A command read from the terminated line, and from the line as it was.\<close>

definition cstring_at :: "string \<Rightarrow> nat \<Rightarrow> string" where
  "cstring_at b q = takeWhile (\<lambda>c. c \<noteq> NUL) (drop q b)"

fun shown :: "string \<Rightarrow> cmd \<Rightarrow> scmd" where
  "shown b (EXEC args) = SExec (map (\<lambda>(q, eq). cstring_at b q) args)"
| "shown b (REDIR c f ef m d) = SRedir (shown b c) (cstring_at b f) m d"
| "shown b (PIPE l r) = SPipe (shown b l) (shown b r)"
| "shown b (LIST l r) = SList (shown b l) (shown b r)"
| "shown b (BACK c) = SBack (shown b c)"

definition sub :: "string \<Rightarrow> nat \<Rightarrow> nat \<Rightarrow> string" where
  "sub s q e = take (e - q) (drop q s)"

fun strip :: "string \<Rightarrow> cmd \<Rightarrow> scmd" where
  "strip s (EXEC args) = SExec (map (\<lambda>(q, e). sub s q e) args)"
| "strip s (REDIR c f ef m d) = SRedir (strip s c) (sub s f ef) m d"
| "strip s (PIPE l r) = SPipe (strip s l) (strip s r)"
| "strip s (LIST l r) = SList (strip s l) (strip s r)"
| "strip s (BACK c) = SBack (strip s c)"

fun marks :: "cmd \<Rightarrow> (nat \<times> nat) set" where
  "marks (EXEC args) = set args"
| "marks (REDIR c f ef m d) = insert (f, ef) (marks c)"
| "marks (PIPE l r) = marks l \<union> marks r"
| "marks (LIST l r) = marks l \<union> marks r"
| "marks (BACK c) = marks c"

definition mark_ok :: "string \<Rightarrow> nat \<times> nat \<Rightarrow> bool" where
  "mark_ok s m \<longleftrightarrow> (case m of (q, e) \<Rightarrow> q < e \<and> e < length s \<and> s ! e = SPACE \<and> (\<forall>i. q \<le> i \<and> i < e \<longrightarrow> s ! i \<noteq> SPACE \<and> s ! i \<noteq> NUL))"

section \<open>Terminating the strings\<close>

lemma nulterminate_nth:
  "length (nulterminate c b) = length b \<and> (\<forall>i < length b. nulterminate c b ! i = (if i \<in> snd ` marks c then NUL else b ! i))"
proof (induction c arbitrary: b)
  case (EXEC args)
  show ?case
  proof (induction args arbitrary: b)
    case (Cons a args)
    obtain q e where "a = (q, e)" by force
    then show ?case using Cons [of "b[e := NUL]"] by (auto simp: nth_list_update)
  qed simp
next
  case (REDIR c f ef m d)
  have "length (nulterminate c b) = length b" "nulterminate c b ! i = (if i \<in> snd ` marks c then NUL else b ! i)" if "i < length b" for i
    using REDIR [of b] that by blast+
  moreover have "length (nulterminate c b) = length b" using REDIR [of b] by blast
  ultimately show ?case by (cases "ef < length b") (auto simp: nth_list_update list_update_beyond)
next
  case (PIPE l r)
  then show ?case using PIPE.IH(1) [of b] PIPE.IH(2) [of "nulterminate l b"] by (simp add: image_Un)
next
  case (LIST l r)
  then show ?case using LIST.IH(1) [of b] LIST.IH(2) [of "nulterminate l b"] by (simp add: image_Un)
qed simp

lemma shown_strip:
  assumes "\<forall>m \<in> marks c. mark_ok s m" and "\<forall>e \<in> snd ` marks c. e \<in> E" and "length b = length s + 1" and "\<forall>e \<in> E. e < length s \<and> s ! e = SPACE"
    and "\<forall>i < length s. b ! i = (if i \<in> E then NUL else s ! i)"
  shows "shown b c = strip s c"
proof -
  have eq: "cstring_at b q = sub s q e" if "(q, e) \<in> marks c" for q e
  proof -
    have m: "q < e" "e < length s" "\<forall>i. q \<le> i \<and> i < e \<longrightarrow> s ! i \<noteq> SPACE \<and> s ! i \<noteq> NUL" "e \<in> E"
      using assms(1,2) that by (auto simp: mark_ok_def)
    have "drop q b = take (e - q) (drop q b) @ drop e b" using m by (metis append_take_drop_id drop_drop le_add_diff_inverse2 less_imp_le)
    moreover have "take (e - q) (drop q b) = sub s q e"
      unfolding sub_def
    proof (rule nth_equalityI)
      fix i assume "i < length (take (e - q) (drop q b))"
      then have i: "q + i < e" using m(1) by simp linarith
      then have "q + i \<notin> E" using m(3) assms(4) by force
      then show "take (e - q) (drop q b) ! i = take (e - q) (drop q s) ! i" using i m(2) assms(3,5) by simp
    qed (use m assms(3) in simp)
    moreover have "drop e b = NUL # drop (Suc e) b" using m assms(3,5) by (simp add: Cons_nth_drop_Suc [symmetric])
    moreover have "NUL \<notin> set (sub s q e)"
      using m by (auto simp: sub_def in_set_conv_nth)
    ultimately have d: "drop q b = sub s q e @ NUL # drop (Suc e) b" by metis
    show ?thesis unfolding cstring_at_def d
      by (subst takeWhile_append2) (use \<open>NUL \<notin> set (sub s q e)\<close> in auto)
  qed
  have "shown b c' = strip s c'" if "marks c' \<subseteq> marks c" for c'
    using that
  proof (induction c')
    case (EXEC args)
    then show ?case using eq by auto
  qed (use eq in auto)
  then show ?thesis by blast
qed


section \<open>Tokens of a printed line\<close>

text \<open>The rest \<open>r\<close> of the line starts with a token.\<close>

definition clean :: "string \<Rightarrow> bool" where
  "clean r \<longleftrightarrow> r = [] \<or> \<not> white (hd r) \<and> hd r \<noteq> NUL"

definition tail_of :: "string \<Rightarrow> string \<Rightarrow> bool" where
  "tail_of s r \<longleftrightarrow> (\<exists>pre. s = pre @ r)"

lemma tail_of_append: "tail_of s (a @ r) \<Longrightarrow> tail_of s r"
  unfolding tail_of_def by (metis append.assoc)

lemma skip_clean [simp]: "clean r \<Longrightarrow> skip r = r"
  by (cases r) (auto simp: clean_def skip_def)

lemma skip_token [simp]: "\<not> white c \<Longrightarrow> skip (c # r) = c # r"
  by (simp add: skip_def)

lemma skip_space [simp]: "skip (SPACE # r) = skip r"
  by (simp add: skip_def whitespace_def)

lemma clean_Nil [simp]: "clean []"
  by (simp add: clean_def)

lemma clean_Cons [simp]: "clean (c # r) \<longleftrightarrow> \<not> white c \<and> c \<noteq> NUL"
  by (simp add: clean_def)

lemma clean_word: "word_ok w \<Longrightarrow> clean (w @ r)"
  by (cases w) (auto simp: word_ok_def clean_def)

lemma peek_clean: "clean r \<Longrightarrow> peek toks r = (r, r \<noteq> [] \<and> hd r \<in> set toks)"
  by (cases r) (auto simp: peek_def Let_def)

lemma word_mark:
  assumes "tail_of s (w @ SPACE # r)" and "word_ok w" and "q = length s - length (w @ SPACE # r)" and "e = length s - length (SPACE # r)"
  shows "mark_ok s (q, e)" and "sub s q e = w"
proof -
  obtain pre where s: "s = pre @ w @ SPACE # r" using assms(1) by (auto simp: tail_of_def)
  then have q: "q = length pre" "e = length pre + length w" using assms(3,4) by simp_all
  have w: "w \<noteq> []" "\<And>c. c \<in> set w \<Longrightarrow> c \<noteq> SPACE \<and> c \<noteq> NUL" using assms(2) by (auto simp: word_ok_def whitespace_def)
  have "s ! i \<noteq> SPACE \<and> s ! i \<noteq> NUL" if "q \<le> i" "i < e" for i
  proof -
    have i: "i - q < length w" "\<not> i < length pre" using that q by linarith+
    then have "s ! i = w ! (i - q)" using s q by (simp add: nth_append)
    then show ?thesis using w(2) [OF nth_mem [OF i(1)]] by simp
  qed
  then show "mark_ok s (q, e)" using s q w(1) by (simp add: mark_ok_def nth_append)
  show "sub s q e = w" using s q by (simp add: sub_def)
qed

lemma gettoken_word:
  assumes "word_ok w" and "clean r"
  shows "gettoken n (w @ SPACE # r) = (CHR ''a'', n - length (w @ SPACE # r), n - length (SPACE # r), r)"
proof -
  obtain c cs where w: "w = c # cs" using assms(1) by (cases w) (auto simp: word_ok_def)
  have cs: "\<forall>x \<in> set w. wordchar x" using assms(1) by (auto simp: word_ok_def)
  have "dropWhile wordchar (w @ SPACE # r) = SPACE # r" using cs by (subst dropWhile_append2) (auto simp: whitespace_def)
  moreover have "c \<notin> set ''|();&<'' \<and> c \<noteq> CHR ''>''" using cs w by (auto simp: symbols_def)
  ultimately have "token_at (w @ SPACE # r) = (CHR ''a'', SPACE # r)" using w by simp
  then show ?thesis using skip_clean [OF clean_word [OF assms(1)]] assms(2) by (simp add: gettoken_def Let_def)
qed

lemma gettoken_symbol:
  assumes "c \<in> set symbols" and "clean r"
  shows "\<exists>q e. gettoken n (c # SPACE # r) = (c, q, e, r)"
proof -
  have "token_at (c # SPACE # r) = (c, SPACE # r)" and "skip (c # SPACE # r) = c # SPACE # r"
    using assms(1) by (auto simp: symbols_def whitespace_def)
  then show ?thesis using assms(2) by (simp add: gettoken_def Let_def)
qed

lemma gettoken_kind:
  assumes "clean r"
  shows "\<exists>q e. gettoken n (kind_string k @ SPACE # r) = (kind_tok k, q, e, r)"
proof -
  have "token_at (kind_string k @ SPACE # r) = (kind_tok k, SPACE # r)" and "skip (kind_string k @ SPACE # r) = kind_string k @ SPACE # r"
    by (cases k; simp add: whitespace_def)+
  then show ?thesis using assms by (simp add: gettoken_def Let_def)
qed


section \<open>Parsing a printed line\<close>

definition finds :: "string \<Rightarrow> cmd \<Rightarrow> scmd \<Rightarrow> bool" where
  "finds s c sc \<longleftrightarrow> (\<forall>m \<in> marks c. mark_ok s m) \<and> strip s c = sc"

definition follow :: "string \<Rightarrow> string \<Rightarrow> bool" where
  "follow X r \<longleftrightarrow> r = [] \<or> hd r \<in> set X"

lemma follow_clean: "follow X r \<Longrightarrow> set X \<subseteq> set ''|)&;'' \<Longrightarrow> clean r"
  by (cases r) (auto simp: follow_def whitespace_def)

lemma follow_stop: "follow X r \<Longrightarrow> set X \<inter> set Y = {} \<Longrightarrow> r \<noteq> [] \<Longrightarrow> hd r \<notin> set Y"
  by (auto simp: follow_def)

lemma follow_mono: "follow X r \<Longrightarrow> set X \<subseteq> set Y \<Longrightarrow> follow Y r"
  by (auto simp: follow_def)

lemma redir_finds:
  assumes "finds s c sc" and "tail_of s (w @ SPACE # r)" and "word_ok w"
  shows "finds s (redir (kind_tok k) c (length s - length (w @ SPACE # r)) (length s - length (SPACE # r))) (sredir k w sc)"
  using assms(1) word_mark [OF assms(2,3) refl refl]
  by (cases k) (simp_all add: finds_def redir_def redircmd_def sredir_def O_RDONLY_def O_WRONLY_def O_CREATE_def O_TRUNC_def)

lemma kind_start: "kind_string k = hd (kind_string k) # tl (kind_string k)" "hd (kind_string k) \<in> set ''<>''" "\<not> white (hd (kind_string k))"
    "hd (kind_string k) \<noteq> NUL"
  by (cases k; simp add: whitespace_def)+

lemma clean_kind: "clean (kind_string k @ r)"
  by (cases k) (simp_all add: whitespace_def)

lemma parseredirs_step:
  assumes "word_ok w" and "clean r"
  shows "parseredirs n c (print_redir (k, w) @ r) =
    parseredirs n (redir (kind_tok k) c (n - length (w @ SPACE # r)) (n - length (SPACE # r))) r"
proof -
  have p: "print_redir (k, w) @ r = kind_string k @ SPACE # w @ SPACE # r" by (simp add: print_redir_def tok_def)
  have k: "peek ''<>'' (kind_string k @ SPACE # w @ SPACE # r) = (kind_string k @ SPACE # w @ SPACE # r, True)"
    by (subst peek_clean [OF clean_kind]) (cases k; simp)
  show ?thesis unfolding p
    by (subst parseredirs.simps)
      (use k gettoken_kind [OF clean_word [OF assms(1)], of n k "SPACE # r"] gettoken_word [OF assms, of n] in auto)
qed

lemma parseredirs_stop: "clean r \<Longrightarrow> (r \<noteq> [] \<Longrightarrow> hd r \<notin> set ''<>'') \<Longrightarrow> parseredirs n c r = Inr (c, r)"
  by (subst parseredirs.simps) (auto simp: peek_clean)

lemma clean_redirs: "\<forall>(k, w) \<in> set rs. word_ok w \<Longrightarrow> clean r \<Longrightarrow> clean (concat (map print_redir rs) @ r)"
  by (cases rs) (auto simp: print_redir_def tok_def clean_kind)

lemma redirs_parse:
  assumes "\<forall>(k, w) \<in> set rs. word_ok w" and "follow ''|)&;'' r" and "tail_of s (concat (map print_redir rs) @ r)" and "finds s c sc"
  shows "\<exists>c'. parseredirs (length s) c (concat (map print_redir rs) @ r) = Inr (c', r) \<and> finds s c' (fold (\<lambda>(k, w). sredir k w) rs sc)"
  using assms
proof (induction rs arbitrary: c sc)
  case Nil
  then show ?case using parseredirs_stop [OF follow_clean [OF Nil(2)]] follow_stop [OF Nil(2), of "''<>''"] by auto
next
  case (Cons a rs)
  obtain k w where a: "a = (k, w)" by force
  let ?r = "concat (map print_redir rs) @ r"
  have w: "word_ok w" "\<forall>(k, w) \<in> set rs. word_ok w" using Cons.prems(1) a by auto
  have cl: "clean ?r" by (rule clean_redirs [OF w(2) follow_clean [OF Cons.prems(2)]]) simp
  have t: "tail_of s (w @ SPACE # ?r)"
    by (rule tail_of_append [of _ "tok (kind_string k)"]) (use Cons.prems(3) a in \<open>simp add: print_redir_def tok_def\<close>)
  have t': "tail_of s ?r" by (rule tail_of_append [of _ "w @ [SPACE]"]) (use t in simp)
  show ?case using Cons.IH [OF w(2) Cons.prems(2) t' redir_finds [OF Cons.prems(4) t w(1), of k]] parseredirs_step [OF w(1) cl, of "length s" c k]
    by (simp add: a)
qed


lemma add_arg_finds:
  assumes "finds s c sc" and "tail_of s (w @ SPACE # r)" and "word_ok w"
  shows "finds s (add_arg (length s - length (w @ SPACE # r)) (length s - length (SPACE # r)) c) (sadd w sc)"
proof -
  note m = word_mark [OF assms(2,3) refl refl]
  show ?thesis using assms(1)
  proof (induction c arbitrary: sc)
    case (EXEC args)
    then show ?case using m by (auto simp: finds_def)
  next
    case (REDIR c f ef md d)
    obtain sc' where sc: "sc = SRedir sc' (sub s f ef) md d" "finds s c sc'" using REDIR.prems by (auto simp: finds_def)
    show ?case using REDIR.IH [OF sc(2)] REDIR.prems sc(1) by (simp add: finds_def)
  qed (auto simp: finds_def)
qed

lemma clean_items: "\<forall>i \<in> set its. item_ok i \<Longrightarrow> clean r \<Longrightarrow> clean (concat (map print_item its) @ r)"
proof (cases its)
  case (Cons i its')
  assume ok: "\<forall>i \<in> set its. item_ok i" and r: "clean r"
  show ?thesis using Cons ok r clean_word by (cases i) (auto simp: print_redir_def tok_def clean_kind)
qed simp

lemma items_parse:
  assumes "\<forall>i \<in> set its. item_ok i" and "argc + length (filter is_word its) < MAXARGS" and "follow ''|)&;'' r"
    and "tail_of s (concat (map print_item its) @ r)" and "finds s c sc"
  shows "\<exists>c'. seq (parseredirs (length s) c (concat (map print_item its) @ r)) (\<lambda>(ret, r). exec_loop (length s) argc ret r) = Inr (c', r) \<and>
    finds s c' (fold sitem its sc)"
  using assms
proof (induction its arbitrary: c sc argc)
  case Nil
  have cl: "clean r" using follow_clean [OF Nil(3)] by simp
  have "parseredirs (length s) c r = Inr (c, r)" using parseredirs_stop [OF cl] follow_stop [OF Nil(3), of "''<>''"] by auto
  moreover have "exec_loop (length s) argc c r = Inr (c, r)"
    using Nil(3) by (subst exec_loop.simps) (auto simp: peek_clean [OF cl] follow_def gettoken_def skip_def)
  ultimately show ?case using Nil by simp
next
  case (Cons i its)
  let ?r = "concat (map print_item its) @ r"
  have ok: "\<forall>i \<in> set its. item_ok i" using Cons.prems(1) by simp
  have cl: "clean ?r" by (rule clean_items [OF ok follow_clean [OF Cons.prems(3)]]) simp
  have t': "tail_of s ?r" by (rule tail_of_append [of _ "print_item i"]) (use Cons.prems(4) in simp)
  show ?case
  proof (cases i)
    case (Redir k w)
    have w: "word_ok w" using Cons.prems(1) Redir by simp
    have t: "tail_of s (w @ SPACE # ?r)"
      by (rule tail_of_append [of _ "tok (kind_string k)"]) (use Cons.prems(4) Redir in \<open>simp add: print_redir_def tok_def\<close>)
    have n: "argc + length (filter is_word its) < MAXARGS" using Cons.prems(2) Redir by simp
    show ?thesis using Cons.IH [OF ok n Cons.prems(3) t' redir_finds [OF Cons.prems(5) t w, of k]] parseredirs_step [OF w cl, of "length s" c k]
      by (simp add: Redir)
  next
    case (Word w)
    have w: "word_ok w" using Cons.prems(1) Word by simp
    have t: "tail_of s (w @ SPACE # ?r)" using Cons.prems(4) Word by (simp add: tok_def)
    have n: "argc + 1 + length (filter is_word its) < MAXARGS" using Cons.prems(2) Word by simp
    let ?s = "w @ SPACE # ?r"
    have cw: "clean ?s" by (rule clean_word [OF w])
    have hd: "?s \<noteq> []" "wordchar (hd ?s)" using w by (auto simp: word_ok_def hd_append split: list.splits)
    have h: "hd ?s \<notin> set ''<>''" "hd ?s \<notin> set ''|)&;''" using hd(2) by (auto simp: symbols_def)
    have "parseredirs (length s) c ?s = Inr (c, ?s)" using parseredirs_stop [OF cw] h(1) by blast
    moreover have "exec_loop (length s) argc c ?s =
        seq (parseredirs (length s) (add_arg (length s - length ?s) (length s - length (SPACE # ?r)) c) ?r) (\<lambda>(ret, r). exec_loop (length s) (argc + 1) ret r)"
      by (subst exec_loop.simps) (use h(2) n in \<open>simp add: peek_clean [OF cw] gettoken_word [OF w cl] Let_def del: One_nat_def\<close>)
    ultimately show ?thesis using Cons.IH [OF ok n Cons.prems(3) t' add_arg_finds [OF Cons.prems(5) t w]]
      by (simp add: Word tok_def)
  qed
qed

lemma parseback_ok:
  assumes "follow '');'' r"
  shows "parseback n c (concat (replicate b (tok ''&'')) @ r) = ((BACK ^^ b) c, r)"
proof (induction b arbitrary: c)
  case 0
  have "clean r" using follow_clean [OF assms] by simp
  then show ?case using follow_stop [OF assms, of "''&''"] by (subst parseback.simps) (auto simp: peek_clean)
next
  case (Suc b)
  let ?r = "concat (replicate b (tok ''&'')) @ r"
  have cl: "clean ?r" using follow_clean [OF assms] by (cases b) (auto simp: tok_def whitespace_def)
  have "parseback n c (tok ''&'' @ ?r) = parseback n (backcmd c) ?r"
    using gettoken_symbol [of "CHR ''&''", OF _ cl, of n]
    by (subst parseback.simps) (auto simp: tok_def peek_clean whitespace_def symbols_def)
  then show ?case using Suc [of "BACK c"] by (simp add: backcmd_def funpow_swap1)
qed

lemma back_finds: "finds s c sc \<Longrightarrow> finds s ((BACK ^^ b) c) ((SBack ^^ b) sc)"
  by (induction b) (auto simp: finds_def)


lemma gettoken_tok:
  assumes "c \<in> set symbols" and "clean r"
  obtains q e where "gettoken n (tok [c] @ r) = (c, q, e, r)"
  using gettoken_symbol [OF assms, of n] by (auto simp: tok_def)

lemma peek_tok: "c \<in> set symbols \<Longrightarrow> peek toks (tok [c] @ r) = (tok [c] @ r, c \<in> set toks)"
  by (subst peek_clean) (auto simp: tok_def symbols_def whitespace_def)

lemma peek_follow:
  "follow X r \<Longrightarrow> set X \<subseteq> set ''|)&;'' \<Longrightarrow> set X \<inter> set toks = {} \<Longrightarrow> peek toks r = (r, False)"
  by (simp add: peek_clean [OF follow_clean]) (use follow_stop in blast)

lemma clean_tok: "c \<in> set symbols \<Longrightarrow> clean (tok [c] @ r)"
  by (auto simp: tok_def symbols_def whitespace_def)

lemma follow_tok: "c \<in> set X \<Longrightarrow> follow X (tok [c] @ r)"
  by (simp add: follow_def tok_def)

lemma print_clean:
  "line_ok l \<Longrightarrow> clean r \<Longrightarrow> clean (print_line l @ r)"
  "pipe_ok p \<Longrightarrow> clean r \<Longrightarrow> clean (print_pipe p @ r)"
  "simple_ok e \<Longrightarrow> clean r \<Longrightarrow> clean (print_simple e @ r)"
proof (induction l and p and e arbitrary: r and r and r rule: print_line_print_pipe_print_simple.induct)
  case (1 p b l)
  have "clean ((case l of None \<Rightarrow> [] | Some l \<Rightarrow> tok '';'' @ print_line l) @ r)"
    using 1(4) by (cases l) (simp_all add: clean_tok symbols_def)
  then have "clean (concat (replicate b (tok ''&'')) @ (case l of None \<Rightarrow> [] | Some l \<Rightarrow> tok '';'' @ print_line l) @ r)"
    by (cases b) (simp_all add: clean_tok symbols_def)
  then show ?case using 1 by simp
next
  case (2 e p)
  have "clean ((case p of None \<Rightarrow> [] | Some p \<Rightarrow> tok ''|'' @ print_pipe p) @ r)"
    using 2(4) by (cases p) (simp_all add: clean_tok symbols_def)
  then show ?case using 2 by simp
next
  case (3 l rs)
  then show ?case by (simp add: clean_tok symbols_def)
next
  case (4 its)
  then show ?case by (simp add: clean_items)
qed

lemma head_item: "item_ok i \<Longrightarrow> hd (print_item i @ r) \<noteq> CHR ''(''"
proof (cases i)
  case (Word w)
  assume "item_ok i"
  then have "w \<noteq> []" "hd w \<notin> set symbols" using Word by (auto simp: word_ok_def)
  then show ?thesis using Word by (auto simp: tok_def symbols_def)
next
  case (Redir k w)
  then show ?thesis by (cases k) (simp_all add: print_redir_def tok_def)
qed

lemma block_parse:
  assumes "\<exists>c. parseline k (length s) (print_line l @ tok '')'' @ concat (map print_redir rs) @ r) = Inr (c, tok '')'' @ concat (map print_redir rs) @ r) \<and> finds s c sc"
    and "line_ok l" and "\<forall>(k, w) \<in> set rs. word_ok w" and "follow ''|)&;'' r" and "tail_of s (concat (map print_redir rs) @ r)"
  shows "\<exists>c. parseblock (Suc k) (length s) (tok ''('' @ print_line l @ tok '')'' @ concat (map print_redir rs) @ r) = Inr (c, r) \<and>
    finds s c (fold (\<lambda>(k, w). sredir k w) rs sc)"
proof -
  let ?rs = "concat (map print_redir rs) @ r"
  obtain c where c: "parseline k (length s) (print_line l @ tok '')'' @ ?rs) = Inr (c, tok '')'' @ ?rs)" "finds s c sc" using assms(1) by blast
  have cl: "clean ?rs" by (rule clean_redirs [OF assms(3) follow_clean [OF assms(4)]]) simp
  have cl': "clean (print_line l @ tok '')'' @ ?rs)" by (rule print_clean(1) [OF assms(2) clean_tok]) (simp add: symbols_def)
  obtain q e where g: "gettoken (length s) (tok ''('' @ print_line l @ tok '')'' @ ?rs) = (CHR ''('', q, e, print_line l @ tok '')'' @ ?rs)"
    by (rule gettoken_tok [OF _ cl', of "CHR ''(''"]) (simp_all add: symbols_def)
  obtain q' e' where g': "gettoken (length s) (tok '')'' @ ?rs) = (CHR '')'', q', e', ?rs)"
    by (rule gettoken_tok [OF _ cl, of "CHR '')''"]) (simp_all add: symbols_def)
  have p: "peek ''('' (tok ''('' @ print_line l @ tok '')'' @ ?rs) = (tok ''('' @ print_line l @ tok '')'' @ ?rs, True)"
    and p': "peek '')'' (tok '')'' @ ?rs) = (tok '')'' @ ?rs, True)"
    by (simp_all add: peek_tok symbols_def)
  show ?thesis using redirs_parse [OF assms(3,4,5) c(2)] by (simp add: p g c(1) p' g')
qed

lemma parse_printed:
  "line_ok l \<Longrightarrow> follow '')'' r \<Longrightarrow> tail_of s (print_line l @ r) \<Longrightarrow> 4 * length (print_line l @ r) + 4 \<le> k \<Longrightarrow>
    \<exists>c. parseline k (length s) (print_line l @ r) = Inr (c, r) \<and> finds s c (sline l)"
  "pipe_ok p \<Longrightarrow> follow '')&;'' r \<Longrightarrow> tail_of s (print_pipe p @ r) \<Longrightarrow> 4 * length (print_pipe p @ r) + 3 \<le> k \<Longrightarrow>
    \<exists>c. parsepipe k (length s) (print_pipe p @ r) = Inr (c, r) \<and> finds s c (spipe p)"
  "simple_ok e \<Longrightarrow> follow ''|)&;'' r \<Longrightarrow> tail_of s (print_simple e @ r) \<Longrightarrow> 4 * length (print_simple e @ r) + 2 \<le> k \<Longrightarrow>
    \<exists>c. parseexec k (length s) (print_simple e @ r) = Inr (c, r) \<and> finds s c (ssimple e)"
proof (induction l and p and e arbitrary: k r and k r and k r rule: print_line_print_pipe_print_simple.induct)
  case (1 p b l)
  let ?m = "case l of None \<Rightarrow> [] | Some l \<Rightarrow> tok '';'' @ print_line l"
  obtain k' where k: "k = Suc k'" using "1.prems"(4) by (cases k) auto
  have fl: "follow '');'' (?m @ r)" using follow_mono [OF "1.prems"(2), of "'');''"] by (cases l) (auto simp: follow_tok)
  have f: "follow '')&;'' (concat (replicate b (tok ''&'')) @ ?m @ r)"
    using follow_mono [OF fl, of "'')&;''"] by (cases b) (auto simp: follow_tok)
  obtain c where c: "parsepipe k' (length s) (print_pipe p @ concat (replicate b (tok ''&'')) @ ?m @ r) =
      Inr (c, concat (replicate b (tok ''&'')) @ ?m @ r)" "finds s c (spipe p)"
    using "1.IH"(1) [OF _ f, of k'] "1.prems"(1,3,4) k by auto
  let ?c = "(BACK ^^ b) c"
  note fc = back_finds [OF c(2), of b]
  show ?case
  proof (cases l)
    case None
    have p: "peek '';'' r = (r, False)" by (rule peek_follow [OF "1.prems"(2)]) auto
    show ?thesis using c(1) parseback_ok [OF fl, of "length s" c b] fc p by (simp add: k None)
  next
    case (Some l')
    have t: "tail_of s (print_line l' @ r)"
      by (rule tail_of_append [of _ "print_pipe p @ concat (replicate b (tok ''&'')) @ tok '';''"]) (use "1.prems"(3) Some in simp)
    have "\<exists>c2. parseline k' (length s) (print_line l' @ r) = Inr (c2, r) \<and> finds s c2 (sline l')"
      by (rule "1.IH"(2) [OF Some _ "1.prems"(2) t]) (use "1.prems"(1,4) Some k in \<open>simp_all add: tok_def\<close>)
    then obtain c2 where c2: "parseline k' (length s) (print_line l' @ r) = Inr (c2, r)" "finds s c2 (sline l')" by blast
    have cl: "clean (print_line l' @ r)" by (rule print_clean(1)) (use "1.prems"(1) Some follow_clean [OF "1.prems"(2)] in auto)
    obtain q e where g: "gettoken (length s) (tok '';'' @ print_line l' @ r) = (CHR '';'', q, e, print_line l' @ r)"
      by (rule gettoken_tok [OF _ cl, of "CHR '';''"]) (simp_all add: symbols_def)
    have p: "peek '';'' (tok '';'' @ print_line l' @ r) = (tok '';'' @ print_line l' @ r, True)" by (simp add: peek_tok symbols_def)
    have fc': "finds s (LIST ?c c2) (SList ((SBack ^^ b) (spipe p)) (sline l'))" using fc c2(2) by (auto simp: finds_def)
    show ?thesis using c(1) parseback_ok [OF fl, of "length s" c b] fc' by (simp add: k Some p g c2(1) listcmd_def)
  qed
next
  case (2 e p)
  let ?m = "case p of None \<Rightarrow> [] | Some p \<Rightarrow> tok ''|'' @ print_pipe p"
  obtain k' where k: "k = Suc k'" using "2.prems"(4) by (cases k) auto
  have f: "follow ''|)&;'' (?m @ r)" using follow_mono [OF "2.prems"(2), of "''|)&;''"] by (cases p) (auto simp: follow_tok)
  obtain c where c: "parseexec k' (length s) (print_simple e @ ?m @ r) = Inr (c, ?m @ r)" "finds s c (ssimple e)"
    using "2.IH"(1) [OF _ f, of k'] "2.prems"(1,3,4) k by auto
  show ?case
  proof (cases p)
    case None
    have p: "peek ''|'' r = (r, False)" by (rule peek_follow [OF "2.prems"(2)]) auto
    show ?thesis using c p by (simp add: k None)
  next
    case (Some p')
    have t: "tail_of s (print_pipe p' @ r)"
      by (rule tail_of_append [of _ "print_simple e @ tok ''|''"]) (use "2.prems"(3) Some in simp)
    have "\<exists>c2. parsepipe k' (length s) (print_pipe p' @ r) = Inr (c2, r) \<and> finds s c2 (spipe p')"
      by (rule "2.IH"(2) [OF Some _ "2.prems"(2) t]) (use "2.prems"(1,4) Some k in \<open>simp_all add: tok_def\<close>)
    then obtain c2 where c2: "parsepipe k' (length s) (print_pipe p' @ r) = Inr (c2, r)" "finds s c2 (spipe p')" by blast
    have cl: "clean (print_pipe p' @ r)" by (rule print_clean(2)) (use "2.prems"(1) Some follow_clean [OF "2.prems"(2)] in auto)
    obtain q z where g: "gettoken (length s) (tok ''|'' @ print_pipe p' @ r) = (CHR ''|'', q, z, print_pipe p' @ r)"
      by (rule gettoken_tok [OF _ cl, of "CHR ''|''"]) (simp_all add: symbols_def)
    have pk: "peek ''|'' (tok ''|'' @ print_pipe p' @ r) = (tok ''|'' @ print_pipe p' @ r, True)" by (simp add: peek_tok symbols_def)
    have fc': "finds s (PIPE c c2) (SPipe (ssimple e) (spipe p'))" using c(2) c2(2) by (auto simp: finds_def)
    show ?thesis using c(1) fc' by (simp add: k Some pk g c2(1) pipecmd_def)
  qed
next
  case (3 l rs)
  let ?rs = "concat (map print_redir rs) @ r"
  obtain k' where k: "k = Suc (Suc k')" using "3.prems"(4) by (cases k; cases "k - 1") auto
  have t: "tail_of s ?rs" by (rule tail_of_append [of _ "tok ''('' @ print_line l @ tok '')''"]) (use "3.prems"(3) in simp)
  have "tail_of s (print_line l @ tok '')'' @ ?rs)" by (rule tail_of_append [of _ "tok ''(''"]) (use "3.prems"(3) in simp)
  then have "\<exists>c. parseline k' (length s) (print_line l @ tok '')'' @ ?rs) = Inr (c, tok '')'' @ ?rs) \<and> finds s c (sline l)"
    by (rule "3.IH" [rotated 2]) (use "3.prems"(1,4) k in \<open>simp_all add: follow_def tok_def\<close>)
  from block_parse [OF this _ _ "3.prems"(2) t] "3.prems"(1) show ?case
    by (simp add: k peek_tok symbols_def)
next
  case (4 its)
  obtain k' where k: "k = Suc k'" using "4.prems"(4) by (cases k) auto
  let ?r = "concat (map print_item its) @ r"
  have cl: "clean ?r" by (rule clean_items) (use "4.prems"(1) follow_clean [OF "4.prems"(2)] in auto)
  have "?r = [] \<or> hd ?r \<noteq> CHR ''(''"
  proof (cases its)
    case Nil
    then show ?thesis using "4.prems"(2) by (auto simp: follow_def)
  next
    case (Cons i its')
    then have "item_ok i" using "4.prems"(1) by simp
    then show ?thesis using head_item Cons by simp
  qed
  then have p: "peek ''('' ?r = (?r, False)" by (auto simp: peek_clean [OF cl])
  have i: "finds s execcmd (SExec [])" by (simp add: finds_def execcmd_def)
  show ?case using items_parse [OF _ _ "4.prems"(2) _ i, of its 0] "4.prems"(1,3) p by (simp add: k)
qed


section \<open>The properties\<close>

text \<open>C6: every line that follows the grammar of the shell, with its tokens separated by spaces, is parsed into the command it stands
  for: pipes, lists, background commands, blocks and redirections nest as they are written, the strings the command points to in the
  terminated buffer are the words of the line, and the parser never reports an error.\<close>
theorem parsecmd_roundtrip:
  assumes "line_ok l"
  shows "\<exists>c b. parsecmd (print_line l) = Inr (c, b) \<and> shown b c = sline l"
proof -
  let ?s = "print_line l"
  obtain c where c: "parseline (4 * length ?s + 4) (length ?s) ?s = Inr (c, [])" "finds ?s c (sline l)"
    using parse_printed(1) [OF assms, of "[]" ?s "4 * length ?s + 4"] by (auto simp: follow_def tail_of_def)
  let ?b = "nulterminate c (?s @ [NUL])"
  have m: "\<forall>m \<in> marks c. mark_ok ?s m" using c(2) by (simp add: finds_def)
  have b: "length ?b = length ?s + 1" "\<forall>i < length ?s. ?b ! i = (if i \<in> snd ` marks c then NUL else ?s ! i)"
    using nulterminate_nth [of c "?s @ [NUL]"] by (simp_all add: nth_append)
  have "shown ?b c = strip ?s c"
    by (rule shown_strip [OF m _ b(1) _ b(2)]) (use m in \<open>auto simp: mark_ok_def\<close>)
  then show ?thesis using c by (simp add: parsecmd_def peek_def skip_def finds_def)
qed

definition sample_line :: line where
  "sample_line = Line (Pipeline (Simple [Word ''cat'', Redir In ''a'']) (Some (Pipeline (Simple [Word ''wc'', Word ''-l'']) None))) 1
    (Some (Line (Pipeline (Block (Line (Pipeline (Simple [Word ''ls'']) None) 0 None) [(Out, ''b'')]) None) 0 None))"

theorem parsecmd_roundtrip_witness:
  "line_ok sample_line \<and> print_line sample_line = ''cat < a | wc -l & ; ( ls ) > b '' \<and>
   (\<exists>c b. parsecmd (print_line sample_line) = Inr (c, b) \<and> shown b c =
     SList (SBack (SPipe (SRedir (SExec [''cat'']) ''a'' 0 0) (SExec [''wc'', ''-l'']))) (SRedir (SExec [''ls'']) ''b'' 0x601 1))"
proof -
  have "line_ok sample_line" by code_simp
  moreover have "sline sample_line = SList (SBack (SPipe (SRedir (SExec [''cat'']) ''a'' 0 0) (SExec [''wc'', ''-l''])))
      (SRedir (SExec [''ls'']) ''b'' 0x601 1)"
    by (simp add: sample_line_def sredir_def)
  moreover have "print_line sample_line = ''cat < a | wc -l & ; ( ls ) > b ''"
    by (simp add: sample_line_def tok_def print_redir_def)
  ultimately show ?thesis using parsecmd_roundtrip [of sample_line] by simp
qed

text \<open>C33: on every line the parser returns a command or one of the messages of the program: the recursion always ends, and the
  bound on its depth is never reached.\<close>
theorem parsecmd_terminates: "parsecmd s \<noteq> Inl ''depth''"
proof -
  have "parsed (length s) (parseline (4 * length s + 4) (length s) s)" using depth_enough by blast
  then show ?thesis by (cases "parseline (4 * length s + 4) (length s) s") (auto simp: parsecmd_def parsed_def split: prod.splits if_splits)
qed

end
