(* ===== verification/Spec2Isabelle.thy ===== *)
theory Spec2Isabelle
  imports Shell_Lexer Shell_Parser Kernel_Props Kernel_Pipe Kernel_String User_Ulib User_Grep Kernel_Printk User_Printf
    Kernel_Console Kernel_Kalloc Kernel_Sleeplock Kernel_Bio Kernel_Log Kernel_Vm_Props User_Sh_Props
begin

text \<open>
  Verification development of a small Unix shell and of an xv6 kernel with a multi-level
  feedback queue scheduler.
\<close>

end
